(* ===== verification/Koine_Prelude.thy ===== *)
theory Koine_Prelude
  imports Main "HOL-Library.Word" "HOL-Library.AList"
begin

text \<open>
  Shared vocabulary of the Koine development.

  \<^item> \<open>('a, 'e) outcome\<close>: what a Rust call of type \<open>Result<'a, 'e>\<close> can do: return
    \<open>Ok\<close>, return \<open>Err\<close>, or panic.  \<open>and_then\<close> is the \<open>?\<close> operator.
  \<^item> Strings: a Rust \<open>String\<close> is a sequence of Unicode scalar values; \<open>str_len\<close> is
    \<open>str::len\<close>, the length of its UTF-8 encoding.
  \<^item> \<open>std::time::Duration\<close> as a count of nanoseconds with the saturating operations the
    code uses.
  \<^item> \<open>chrono\<close>: the two functions of the third-party crate of that name the code calls, as
    a record of parameters; \<open>chrono_ok\<close> is their documented behaviour.
  \<^item> Generic lemmas on association lists (the model of \<open>HashMap\<close>), lists and words.
\<close>

unbundle bit_operations_syntax

named_theorems outcome_simps \<open>inversion of the outcome combinators\<close>

type_synonym u16 = "16 word"
type_synonym u32 = "32 word"
type_synonym u64 = "64 word"

section \<open>Results\<close>

datatype ('a, 'e) outcome = Ok 'a | Err 'e | Panic

primrec and_then :: "('a, 'e) outcome \<Rightarrow> ('a \<Rightarrow> ('b, 'e) outcome) \<Rightarrow> ('b, 'e) outcome" where
  "and_then (Ok a) f = f a"
| "and_then (Err e) f = Err e"
| "and_then Panic f = Panic"

primrec map_err :: "('e \<Rightarrow> 'f) \<Rightarrow> ('a, 'e) outcome \<Rightarrow> ('a, 'f) outcome" where
  "map_err g (Ok a) = Ok a"
| "map_err g (Err e) = Err (g e)"
| "map_err g Panic = Panic"

primrec ok_or :: "'e \<Rightarrow> 'a option \<Rightarrow> ('a, 'e) outcome" where
  "ok_or e None = Err e"
| "ok_or e (Some a) = Ok a"

primrec is_ok :: "('a, 'e) outcome \<Rightarrow> bool" where
  "is_ok (Ok a) = True"
| "is_ok (Err e) = False"
| "is_ok Panic = False"

primrec is_none_or :: "('a \<Rightarrow> bool) \<Rightarrow> 'a option \<Rightarrow> bool" where
  "is_none_or p None = True"
| "is_none_or p (Some a) = p a"

lemma and_then_eq_Ok [outcome_simps]: "and_then r f = Ok b \<longleftrightarrow> (\<exists>a. r = Ok a \<and> f a = Ok b)"
  by (cases r) auto

lemma and_then_eq_Err [outcome_simps]:
  "and_then r f = Err e \<longleftrightarrow> r = Err e \<or> (\<exists>a. r = Ok a \<and> f a = Err e)"
  by (cases r) auto

lemma and_then_eq_Panic [outcome_simps]:
  "and_then r f = Panic \<longleftrightarrow> r = Panic \<or> (\<exists>a. r = Ok a \<and> f a = Panic)"
  by (cases r) auto

lemma map_err_eq_Ok [outcome_simps]: "map_err g r = Ok a \<longleftrightarrow> r = Ok a"
  by (cases r) auto

lemma map_err_eq_Err [outcome_simps]: "map_err g r = Err f \<longleftrightarrow> (\<exists>e. r = Err e \<and> f = g e)"
  by (cases r) auto

lemma map_err_eq_Panic [outcome_simps]: "map_err g r = Panic \<longleftrightarrow> r = Panic"
  by (cases r) auto

lemma ok_or_eq_Ok [outcome_simps]: "ok_or e x = Ok a \<longleftrightarrow> x = Some a"
  by (cases x) auto

lemma ok_or_eq_Err [outcome_simps]: "ok_or e x = Err f \<longleftrightarrow> x = None \<and> f = e"
  by (cases x) auto

lemma ok_or_not_Panic [simp]: "ok_or e x \<noteq> Panic" "Panic \<noteq> ok_or e x"
  by (cases x; simp)+

lemma is_ok_iff: "is_ok r \<longleftrightarrow> (\<exists>a. r = Ok a)"
  by (cases r) auto

section \<open>Strings\<close>

type_synonym rchar = nat
type_synonym rstring = "rchar list"

definition lit :: "string \<Rightarrow> rstring" where
  "lit s = map of_char s"

definition char_len :: "rchar \<Rightarrow> nat" where
  "char_len c = (if c < 0x80 then 1 else if c < 0x800 then 2 else if c < 0x10000 then 3 else 4)"

definition str_len :: "rstring \<Rightarrow> nat" where
  "str_len s = sum_list (map char_len s)"

definition is_control :: "rchar \<Rightarrow> bool" where
  "is_control c \<longleftrightarrow> c < 0x20 \<or> (0x7F \<le> c \<and> c < 0xA0)"

definition is_ascii_lowercase :: "rchar \<Rightarrow> bool" where
  "is_ascii_lowercase c \<longleftrightarrow> 0x61 \<le> c \<and> c \<le> 0x7A"

definition is_ascii_digit :: "rchar \<Rightarrow> bool" where
  "is_ascii_digit c \<longleftrightarrow> 0x30 \<le> c \<and> c \<le> 0x39"

lemma length_le_str_len: "length s \<le> str_len s"
  by (induction s) (auto simp: str_len_def char_len_def)

lemma str_len_ascii: "list_all (\<lambda>c. c < 0x80) s \<Longrightarrow> str_len s = length s"
  by (induction s) (auto simp: str_len_def char_len_def)

section \<open>Durations\<close>

text \<open>
  A \<open>Duration\<close> holds whole seconds in a \<open>u64\<close> and nanoseconds below one second, so its
  largest value is one nanosecond less than \<open>2 ^ 64\<close> seconds.
\<close>

type_synonym duration = nat

definition duration_max :: duration where
  "duration_max = 2 ^ 64 * 1000000000 - 1"

definition from_secs :: "u64 \<Rightarrow> duration" where
  "from_secs s = unat s * 1000000000"

definition from_millis :: "u64 \<Rightarrow> duration" where
  "from_millis m = unat m * 1000000"

definition as_millis :: "duration \<Rightarrow> nat" where
  "as_millis d = d div 1000000"

definition saturating_mul :: "duration \<Rightarrow> u32 \<Rightarrow> duration" where
  "saturating_mul d k = min (d * unat k) duration_max"

definition saturating_sub :: "u32 \<Rightarrow> u32 \<Rightarrow> u32" where
  "saturating_sub a b = (if b \<le> a then a - b else 0)"

definition saturating_pow :: "u32 \<Rightarrow> u32 \<Rightarrow> u32" where
  "saturating_pow b e = (if unat b ^ unat e < 2 ^ 32 then of_nat (unat b ^ unat e) else - 1)"

definition u64_try_from :: "nat \<Rightarrow> u64 option" where
  "u64_try_from n = (if n < 2 ^ 64 then Some (of_nat n) else None)"

lemma unat_of_nat_small: "n < 2 ^ LENGTH('a::len) \<Longrightarrow> unat (of_nat n :: 'a word) = n"
  by (simp add: unsigned_of_nat take_bit_nat_eq_self)

lemma unat_inc:
  assumes "a < b"
  shows "unat (a + 1) = unat (a :: 'a::len word) + 1"
proof -
  have "unat b < 2 ^ LENGTH('a)"
    by (rule unsigned_less)
  with assms have "Suc (unat a) < 2 ^ LENGTH('a)"
    unfolding word_less_nat_alt by linarith
  then show ?thesis by (simp add: unat_word_ariths)
qed

lemma u64_try_from_eq_Some: "u64_try_from n = Some w \<longleftrightarrow> unat w = n"
  using unsigned_less [of w] by (auto simp: u64_try_from_def unat_of_nat_small)

lemma unat_saturating_sub: "unat (saturating_sub a b) = unat a - unat b"
  by (auto simp: saturating_sub_def unat_sub word_le_nat_alt)

lemma unat_saturating_pow_le: "unat (saturating_pow b e) \<le> unat b ^ unat e"
proof (cases "unat b ^ unat e < 2 ^ 32")
  case True
  then show ?thesis by (simp add: saturating_pow_def unat_of_nat_small del: of_nat_power)
next
  case False
  have "unat (- 1 :: u32) < 2 ^ 32"
    using unsigned_less [of "- 1 :: u32"] by simp
  with False show ?thesis by (simp add: saturating_pow_def)
qed

section \<open>Maxima\<close>

text \<open>\<open>Iterator::max_by_key\<close>: of equal maxima the last one wins.\<close>

definition max_by :: "('a \<Rightarrow> 'a \<Rightarrow> bool) \<Rightarrow> 'a list \<Rightarrow> 'a option" where
  "max_by le xs = (case xs of [] \<Rightarrow> None | x # xs \<Rightarrow> Some (foldl (\<lambda>acc y. if le acc y then y else acc) x xs))"

lemma max_by_eq_None [simp]: "max_by le xs = None \<longleftrightarrow> xs = []"
  by (simp add: max_by_def split: list.split)

lemma foldl_max_spec:
  assumes trans: "transp le" and total: "\<forall>a b. le a b \<or> le b a"
  defines "f \<equiv> \<lambda>acc y. if le acc y then y else acc"
  shows "foldl f x xs \<in> insert x (set xs) \<and> (\<forall>y \<in> insert x (set xs). le y (foldl f x xs))"
proof (induction xs arbitrary: x)
  case Nil
  then show ?case using total by auto
next
  case (Cons y ys)
  let ?m = "foldl f (f x y) ys"
  have m: "?m \<in> insert (f x y) (set ys)" "\<forall>z \<in> insert (f x y) (set ys). le z ?m"
    using Cons [of "f x y"] by blast+
  have xy: "f x y \<in> {x, y}" "le x (f x y)" "le y (f x y)"
    using total by (auto simp: f_def)
  with m have "le x ?m" "le y ?m"
    using trans by (meson insertI1 transpD)+
  with m xy(1) show ?case
    by auto
qed

lemma max_by_eq_Some:
  assumes "transp le" and "\<forall>a b. le a b \<or> le b a" and "max_by le xs = Some m"
  shows "m \<in> set xs \<and> (\<forall>y \<in> set xs. le y m)"
proof (cases xs)
  case (Cons x ys)
  with assms(3) foldl_max_spec [OF assms(1,2), of x ys] show ?thesis
    by (simp add: max_by_def)
qed (use assms(3) in \<open>simp add: max_by_def\<close>)

section \<open>The chrono crate\<close>

text \<open>
  \<open>DateTime<Utc>\<close> and \<open>TimeDelta\<close> are used through their order and through three
  functions of the crate: \<open>TimeDelta::from_std\<close> (an error when the duration is too long),
  \<open>DateTime::checked_add_signed\<close> (\<open>None\<close> when the date is out of range) and \<open>+\<close>, which
  panics exactly where \<open>checked_add_signed\<close> gives \<open>None\<close>.  Instants and spans are counted
  in nanoseconds.
\<close>

type_synonym date_time = int
type_synonym time_delta = int

record chrono =
  from_std :: "duration \<Rightarrow> time_delta option"
  checked_add_signed :: "date_time \<Rightarrow> time_delta \<Rightarrow> date_time option"

definition plus_or_panic :: "chrono \<Rightarrow> date_time \<Rightarrow> time_delta \<Rightarrow> (date_time, 'e) outcome" where
  "plus_or_panic C t d = (case checked_add_signed C t d of Some t' \<Rightarrow> Ok t' | None \<Rightarrow> Panic)"

text \<open>Documented behaviour: both functions are exact where they return a value.\<close>

definition chrono_ok :: "chrono \<Rightarrow> bool" where
  "chrono_ok C \<longleftrightarrow>
     (\<forall>d x. from_std C d = Some x \<longrightarrow> x = int d) \<and>
     (\<forall>t x t'. checked_add_signed C t x = Some t' \<longrightarrow> t' = t + x)"

text \<open>
  The instance the crate documents: spans up to \<open>i64::MAX\<close> milliseconds, instants from the
  start of the year -262143 to the end of the year 262142 (\<open>DateTime::<Utc>::MIN_UTC\<close> and
  \<open>MAX_UTC\<close>).  It serves the concrete evaluations only.
\<close>

definition chrono_doc :: chrono where
  "chrono_doc = \<lparr>
     from_std = (\<lambda>d. if d \<le> (2 ^ 63 - 1) * 1000000 then Some (int d) else None),
     checked_add_signed = (\<lambda>t x. if - 8334601228800000000000 \<le> t + x \<and> t + x \<le> 8210266876799999999999
                            then Some (t + x) else None) \<rparr>"

lemma chrono_ok_doc: "chrono_ok chrono_doc"
  by (auto simp: chrono_ok_def chrono_doc_def split: if_splits)

lemma chrono_ok_from_std: "chrono_ok C \<Longrightarrow> from_std C d = Some x \<Longrightarrow> x = int d"
  by (simp add: chrono_ok_def)

lemma chrono_ok_add: "chrono_ok C \<Longrightarrow> checked_add_signed C t x = Some t' \<Longrightarrow> t' = t + x"
  by (simp add: chrono_ok_def)

lemma plus_or_panic_eq_Ok [outcome_simps]:
  "plus_or_panic C t x = Ok t' \<longleftrightarrow> checked_add_signed C t x = Some t'"
  by (auto simp: plus_or_panic_def split: option.splits)

lemma plus_or_panic_not_Err [simp]: "plus_or_panic C t x \<noteq> Err e"
  by (auto simp: plus_or_panic_def split: option.splits)

lemma plus_or_panic_eq_Panic [outcome_simps]:
  "plus_or_panic C t x = Panic \<longleftrightarrow> checked_add_signed C t x = None"
  by (auto simp: plus_or_panic_def split: option.splits)

end
