(* ===== verification/Koine_Ids.thy ===== *)
theory Koine_Ids
  imports Koine_Prelude
begin

text \<open>
  Identifiers, queue names, priorities and domain errors: \<open>koine-domain/src/ids.rs\<close>,
  \<open>queue.rs\<close> and \<open>error.rs\<close>.  The \<open>uuid_newtype!\<close> macro makes four distinct wrappers of a
  128-bit UUID; \<open>WorkerId\<close> and \<open>QueueName\<close> are validated strings whose only constructors
  are \<open>worker_id_new\<close> and \<open>queue_name_new\<close>.
\<close>

section \<open>Domain errors\<close>

datatype DomainError =
    IllegalTransition (err_state: string) (err_event: string)
  | InvalidQueueName (err_reason: string)
  | InvalidWorkerId (err_reason: string)
  | StreamMustStartWithEnqueued (err_got: string)
  | LeaseMismatch
  | InvalidTtl
  | NonSequentialVersion (err_expected: u64) (err_found: u64)

section \<open>UUID newtypes\<close>

type_synonym uuid = "128 word"

definition uuid_nil :: uuid where
  "uuid_nil = 0"

datatype JobId = JobId (job_uuid: uuid)

datatype EventId = EventId (event_uuid: uuid)

datatype LeaseId = LeaseId (lease_uuid: uuid)

datatype CorrelationId = CorrelationId (correlation_uuid: uuid)

instantiation JobId :: linorder
begin

definition less_eq_JobId :: "JobId \<Rightarrow> JobId \<Rightarrow> bool" where
  "less_eq_JobId a b \<longleftrightarrow> job_uuid a \<le> job_uuid b"

definition less_JobId :: "JobId \<Rightarrow> JobId \<Rightarrow> bool" where
  "less_JobId a b \<longleftrightarrow> job_uuid a < job_uuid b"

instance
  by standard (auto simp: less_eq_JobId_def less_JobId_def intro: JobId.expand)

end

section \<open>Worker ids\<close>

datatype WorkerId = WorkerId (worker_str: rstring)

definition worker_id_new :: "rstring \<Rightarrow> (WorkerId, DomainError) outcome" where
  "worker_id_new s =
     (if s = [] then Err (InvalidWorkerId ''empty'')
      else if str_len s > 256 then Err (InvalidWorkerId ''longer than 256 bytes'')
      else if list_ex is_control s then Err (InvalidWorkerId ''control characters'')
      else Ok (WorkerId s))"

definition worker_id_into_string :: "WorkerId \<Rightarrow> rstring" where
  "worker_id_into_string w = worker_str w"

definition valid_worker_id :: "WorkerId \<Rightarrow> bool" where
  "valid_worker_id w \<longleftrightarrow>
     worker_str w \<noteq> [] \<and> str_len (worker_str w) \<le> 256 \<and> list_all (\<lambda>c. \<not> is_control c) (worker_str w)"

section \<open>Queue names\<close>

datatype QueueName = QueueName (queue_str: rstring)

definition queue_char :: "rchar \<Rightarrow> bool" where
  "queue_char c \<longleftrightarrow>
     is_ascii_lowercase c \<or> is_ascii_digit c \<or>
     (c = of_char (CHR ''.'') \<or> c = of_char (CHR ''_'') \<or> c = of_char (CHR ''-''))"

definition queue_name_new :: "rstring \<Rightarrow> (QueueName, DomainError) outcome" where
  "queue_name_new s =
     (if s = [] then Err (InvalidQueueName ''empty'')
      else if str_len s > 128 then Err (InvalidQueueName ''longer than 128 bytes'')
      else if \<not> list_all queue_char s then Err (InvalidQueueName ''only [a-z0-9._-] allowed'')
      else Ok (QueueName s))"

definition queue_name_into_string :: "QueueName \<Rightarrow> rstring" where
  "queue_name_into_string q = queue_str q"

definition valid_queue_name :: "QueueName \<Rightarrow> bool" where
  "valid_queue_name q \<longleftrightarrow>
     queue_str q \<noteq> [] \<and> length (queue_str q) \<le> 128 \<and> list_all queue_char (queue_str q)"

section \<open>Priorities\<close>

text \<open>\<open>Priority(i16)\<close> with the derived order, the signed order of the field.\<close>

datatype Priority = Priority (priority_val: "16 word")

definition priority_default :: Priority where
  "priority_default = Priority 0"

lemma sint_inject: "sint a = sint (b :: 16 word) \<Longrightarrow> a = b"
  by (rule signed_word_eqI)

instantiation Priority :: linorder
begin

definition less_eq_Priority :: "Priority \<Rightarrow> Priority \<Rightarrow> bool" where
  "less_eq_Priority a b \<longleftrightarrow> sint (priority_val a) \<le> sint (priority_val b)"

definition less_Priority :: "Priority \<Rightarrow> Priority \<Rightarrow> bool" where
  "less_Priority a b \<longleftrightarrow> sint (priority_val a) < sint (priority_val b)"

instance
  by standard (auto simp: less_eq_Priority_def less_Priority_def intro!: Priority.expand dest!: sint_inject)

end

section \<open>Lemmas\<close>

lemma queue_char_ascii: "queue_char c \<Longrightarrow> c < 0x80"
  by (auto simp: queue_char_def is_ascii_lowercase_def is_ascii_digit_def)

lemma queue_string_len: "list_all queue_char s \<Longrightarrow> str_len s = length s"
  by (rule str_len_ascii) (auto simp: list_all_iff dest: queue_char_ascii)

lemma worker_id_new_Ok: "worker_id_new s = Ok w \<longleftrightarrow> w = WorkerId s \<and> valid_worker_id w"
  by (auto simp: worker_id_new_def valid_worker_id_def list_all_iff list_ex_iff)

lemma worker_id_new_not_Panic: "worker_id_new s \<noteq> Panic"
  by (simp add: worker_id_new_def)

lemma queue_name_new_Ok: "queue_name_new s = Ok q \<longleftrightarrow> q = QueueName s \<and> valid_queue_name q"
  by (auto simp: queue_name_new_def valid_queue_name_def queue_string_len)

lemma queue_name_new_not_Panic: "queue_name_new s \<noteq> Panic"
  by (simp add: queue_name_new_def)

end
