(* ===== verification/Koine_Retry.thy ===== *)
theory Koine_Retry
  imports Koine_Prelude
begin

text \<open>
  The retry policy of \<open>koine-domain/src/retry.rs\<close>: exponential backoff with full jitter,
  driven by one step of SplitMix64.  All arithmetic is at the width the code has:
  \<open>u32\<close> attempts, \<open>u64\<close> milliseconds and seeds, saturating \<open>Duration\<close> products.
\<close>

datatype RetryDecision = RetryAfter duration | Park

record RetryPolicy =
  max_attempts :: u32
  base_delay :: duration
  max_delay :: duration

definition retry_policy_default :: RetryPolicy where
  "retry_policy_default =
     \<lparr>max_attempts = 20, base_delay = from_secs 2, max_delay = from_secs (15 * 60)\<rparr>"

definition splitmix64 :: "u64 \<Rightarrow> u64" where
  "splitmix64 x =
     (let z = x + 0x9E3779B97F4A7C15;
          z = (z XOR drop_bit 30 z) * 0xBF58476D1CE4E5B9;
          z = (z XOR drop_bit 27 z) * 0x94D049BB133111EB
      in z XOR drop_bit 31 z)"

text \<open>The cap of one delay in whole milliseconds: the code's \<open>millis\<close>.\<close>

definition delay_cap_millis :: "RetryPolicy \<Rightarrow> u32 \<Rightarrow> u64" where
  "delay_cap_millis p attempts_completed =
     (let exp = min (saturating_sub attempts_completed 1) 31;
          uncapped = saturating_mul (base_delay p) (saturating_pow 2 exp);
          capped = min uncapped (max_delay p)
      in min (case u64_try_from (as_millis capped) of Some m \<Rightarrow> m | None \<Rightarrow> - 1) (- 1 - 1))"

definition decide :: "RetryPolicy \<Rightarrow> u32 \<Rightarrow> u64 \<Rightarrow> RetryDecision" where
  "decide p attempts_completed seed =
     (if attempts_completed \<ge> max_attempts p then Park
      else let millis = delay_cap_millis p attempts_completed;
               jittered = (if millis = 0 then 0
                           else splitmix64 (seed XOR ucast attempts_completed) mod (millis + 1))
           in RetryAfter (from_millis jittered))"

section \<open>SplitMix64 is a permutation\<close>

definition unxorshift :: "nat \<Rightarrow> u64 \<Rightarrow> u64" where
  "unxorshift k z = z XOR drop_bit k z XOR drop_bit (k + k) z"

definition unsplitmix64 :: "u64 \<Rightarrow> u64" where
  "unsplitmix64 z =
     (let z = unxorshift 31 z;
          z = unxorshift 27 (z * 0x319642B2D24D8EC3);
          z = unxorshift 30 (z * 0x96DE1B173F119089)
      in z - 0x9E3779B97F4A7C15)"

lemma drop_bit_beyond: "64 \<le> k \<Longrightarrow> drop_bit k (z :: u64) = 0"
  by (rule bit_eqI) (auto simp: bit_simps dest: bit_imp_le_length)

lemma unxorshift_xorshift:
  assumes "64 \<le> 3 * k"
  shows "unxorshift k (z XOR drop_bit k z) = z"
proof -
  have "drop_bit (3 * k) z = 0"
    using assms by (rule drop_bit_beyond)
  then have "drop_bit (k + (k + k)) z = 0"
    by (simp add: numeral_3_eq_3)
  then show ?thesis
    by (simp add: unxorshift_def drop_bit_xor ac_simps)
qed

lemma xorshift_unxorshift:
  assumes "64 \<le> 3 * k"
  shows "unxorshift k z XOR drop_bit k (unxorshift k z) = z"
proof -
  have "drop_bit (3 * k) z = 0"
    using assms by (rule drop_bit_beyond)
  then have "drop_bit (k + (k + k)) z = 0"
    by (simp add: numeral_3_eq_3)
  then show ?thesis
    by (simp add: unxorshift_def drop_bit_xor ac_simps)
qed

lemma mul_constants:
  "(0xBF58476D1CE4E5B9 :: u64) * 0x96DE1B173F119089 = 1"
  "(0x96DE1B173F119089 :: u64) * 0xBF58476D1CE4E5B9 = 1"
  "(0x94D049BB133111EB :: u64) * 0x319642B2D24D8EC3 = 1"
  "(0x319642B2D24D8EC3 :: u64) * 0x94D049BB133111EB = 1"
  by simp_all

lemma mul_inverses:
  "z * 0xBF58476D1CE4E5B9 * 0x96DE1B173F119089 = (z :: u64)"
  "z * 0x96DE1B173F119089 * 0xBF58476D1CE4E5B9 = (z :: u64)"
  "z * 0x94D049BB133111EB * 0x319642B2D24D8EC3 = (z :: u64)"
  "z * 0x319642B2D24D8EC3 * 0x94D049BB133111EB = (z :: u64)"
  by (simp_all only: mult.assoc mul_constants mult_1_right)

lemma unsplitmix64_splitmix64: "unsplitmix64 (splitmix64 x) = x"
  by (simp add: unsplitmix64_def splitmix64_def Let_def unxorshift_xorshift mul_inverses)

lemma splitmix64_unsplitmix64: "splitmix64 (unsplitmix64 x) = x"
  by (simp add: unsplitmix64_def splitmix64_def Let_def xorshift_unxorshift mul_inverses)

section \<open>Bounds of the delay\<close>

lemma unat_min_word: "unat (min a b) = min (unat a) (unat (b :: 'a::len word))"
  by (auto simp: min_def word_le_nat_alt)

lemma unat_u64_try_from_or_max:
  "unat (case u64_try_from n of Some m \<Rightarrow> m | None \<Rightarrow> - 1) \<le> n"
proof (cases "n < 2 ^ 64")
  case True
  then show ?thesis by (simp add: u64_try_from_def unat_of_nat_small)
next
  case False
  moreover have "unat (- 1 :: u64) < 2 ^ 64"
    using unsigned_less [of "- 1 :: u64"] by simp
  ultimately show ?thesis by (simp add: u64_try_from_def)
qed

lemma delay_cap_millis_le:
  "unat (delay_cap_millis p n) * 1000000
     \<le> min (base_delay p * 2 ^ (unat n - 1)) (max_delay p)"
proof -
  define e where "e = min (saturating_sub n 1) 31"
  define capped where
    "capped = min (saturating_mul (base_delay p) (saturating_pow 2 e)) (max_delay p)"
  have "unat (delay_cap_millis p n) \<le> as_millis capped"
    using unat_u64_try_from_or_max [of "as_millis capped"]
    by (auto simp: delay_cap_millis_def Let_def e_def capped_def unat_min_word)
  then have "unat (delay_cap_millis p n) * 1000000 \<le> capped"
    using div_times_less_eq_dividend [of capped 1000000]
    by (simp add: as_millis_def order_trans [OF mult_right_mono])
  moreover have "unat e \<le> unat n - 1"
    by (simp add: e_def unat_min_word unat_saturating_sub)
  then have "unat (saturating_pow 2 e) \<le> 2 ^ (unat n - 1)"
    using unat_saturating_pow_le [of 2 e]
    by (simp add: order_trans [OF _ power_increasing])
  then have "saturating_mul (base_delay p) (saturating_pow 2 e) \<le> base_delay p * 2 ^ (unat n - 1)"
    by (simp add: saturating_mul_def min.coboundedI1)
  ultimately show ?thesis
    by (simp add: capped_def)
qed

lemma delay_cap_millis_lt_max: "unat (delay_cap_millis p n) < 2 ^ 64 - 1"
proof -
  have "unat (- 1 - 1 :: u64) = 2 ^ 64 - 2"
    by simp
  then show ?thesis
    by (simp add: delay_cap_millis_def Let_def unat_min_word)
qed

lemma unat_delay_cap_Suc: "unat (delay_cap_millis p n + 1) = unat (delay_cap_millis p n) + 1"
  using delay_cap_millis_lt_max [of p n] by (simp add: unat_word_ariths)

lemma word_mod_le: "unat (m + 1) = unat m + 1 \<Longrightarrow> unat (x mod (m + 1 :: u64)) \<le> unat m"
  by (simp add: unat_mod_distrib flip: less_Suc_eq_le)

lemma decide_Park_iff: "decide p n seed = Park \<longleftrightarrow> max_attempts p \<le> n"
  by (simp add: decide_def Let_def)

lemma decide_RetryAfterD:
  assumes "decide p n seed = RetryAfter d"
  shows "n < max_attempts p \<and> d \<le> max_delay p \<and> d \<le> base_delay p * 2 ^ (unat n - 1)
    \<and> 1000000 dvd d"
proof -
  let ?m = "delay_cap_millis p n"
  let ?j = "if ?m = 0 then 0 else splitmix64 (seed XOR ucast n) mod (?m + 1)"
  have n: "n < max_attempts p" and d: "d = from_millis ?j"
    using assms by (auto simp: decide_def Let_def not_le split: if_splits)
  have "unat ?j \<le> unat ?m"
    using word_mod_le [OF unat_delay_cap_Suc] by simp
  then have "d \<le> unat ?m * 1000000"
    by (simp add: d from_millis_def)
  then have "d \<le> min (base_delay p * 2 ^ (unat n - 1)) (max_delay p)"
    using delay_cap_millis_le order_trans by blast
  with n show ?thesis
    by (simp add: d from_millis_def)
qed

text \<open>
  C32. \<open>RetryPolicy::decide\<close> parks exactly when the completed attempts reach
  \<open>max_attempts\<close>; otherwise the delay is a whole number of milliseconds that never exceeds
  the policy's \<open>max_delay\<close> nor the exponential bound \<open>base_delay * 2 ^ (n - 1)\<close>, for
  every seed and every policy, saturation included.
\<close>

theorem decide_bounds:
  "case decide p n seed of
     Park \<Rightarrow> max_attempts p \<le> n
   | RetryAfter d \<Rightarrow> n < max_attempts p \<and> d \<le> max_delay p
        \<and> d \<le> base_delay p * 2 ^ (unat n - 1) \<and> 1000000 dvd d"
  by (auto split: RetryDecision.splits simp: decide_Park_iff dest: decide_RetryAfterD)

text \<open>
  C33. The jitter is full: every whole number of milliseconds from zero up to the cap is the
  delay of some seed, because SplitMix64 is a permutation of the 64-bit words.
\<close>

theorem decide_full_jitter:
  assumes "n < max_attempts p" and "k \<le> delay_cap_millis p n"
  shows "\<exists>seed. decide p n seed = RetryAfter (from_millis k)"
proof -
  let ?m = "delay_cap_millis p n"
  have "unat k < unat (?m + 1)"
    using assms(2) by (simp add: unat_delay_cap_Suc word_le_nat_alt)
  then have "k mod (?m + 1) = k"
    by (simp add: word_unat_eq_iff unat_mod_distrib)
  then have "decide p n (unsplitmix64 k XOR ucast n) = RetryAfter (from_millis k)"
    using assms by (auto simp: decide_def Let_def xor.assoc splitmix64_unsplitmix64)
  then show ?thesis ..
qed

theorem decide_full_jitter_witness:
  "\<exists>seed. decide retry_policy_default 1 seed = RetryAfter (from_millis 1234)"
  by (rule decide_full_jitter)
     (simp_all add: retry_policy_default_def delay_cap_millis_def Let_def saturating_sub_def
        saturating_pow_def saturating_mul_def duration_max_def from_secs_def as_millis_def
        u64_try_from_def)

end
