(* ===== verification/Koine_Events.thy ===== *)
theory Koine_Events
  imports Koine_Ids Koine_Retry
begin

text \<open>
  The event taxonomy and the storage envelope of \<open>koine-domain/src/events.rs\<close>.  The type
  variable \<open>'v\<close> stands for \<open>serde_json::Value\<close>, the opaque payload the broker never looks
  into.  Constructors carry the prefix \<open>E_\<close>, after the alias \<open>JobEvent as E\<close> of \<open>job.rs\<close>.
\<close>

definition SCHEMA_VERSION :: u16 where
  "SCHEMA_VERSION = 1"

record JobError =
  error_kind :: rstring
  error_message :: rstring
  error_stacktrace :: "rstring option"
  error_retryable :: bool

datatype ParkReason = RetriesExhausted | NonRetryableError | ParkApprovalDenied

datatype ReportedOutcome = ReportedSucceeded | ReportedFailed

datatype 'v JobEvent =
    E_Enqueued QueueName 'v Priority RetryPolicy "date_time option"
  | E_Leased WorkerId LeaseId date_time
  | E_Started WorkerId
  | E_Succeeded "'v option"
  | E_Failed JobError u32
  | E_LeaseExpired LeaseId
  | E_RetryScheduled u32 date_time
  | E_Parked ParkReason
  | E_Cancelled "rstring option"
  | E_LateAckConflict WorkerId LeaseId ReportedOutcome
  | E_Stalled
  | E_CheckpointRecorded rstring 'v
  | E_SignalReceived rstring 'v
  | E_ApprovalRequested rstring
  | E_ApprovalGranted rstring rstring
  | E_ApprovalDenied rstring rstring
  | E_Suspended
  | E_Resumed
  | E_Repaired "'v option" rstring

primrec kind :: "'v JobEvent \<Rightarrow> string" where
  "kind (E_Enqueued _ _ _ _ _) = ''enqueued''"
| "kind (E_Leased _ _ _) = ''leased''"
| "kind (E_Started _) = ''started''"
| "kind (E_Succeeded _) = ''succeeded''"
| "kind (E_Failed _ _) = ''failed''"
| "kind (E_LeaseExpired _) = ''lease_expired''"
| "kind (E_RetryScheduled _ _) = ''retry_scheduled''"
| "kind (E_Parked _) = ''parked''"
| "kind (E_Cancelled _) = ''cancelled''"
| "kind (E_LateAckConflict _ _ _) = ''late_ack_conflict''"
| "kind E_Stalled = ''stalled''"
| "kind (E_CheckpointRecorded _ _) = ''checkpoint_recorded''"
| "kind (E_SignalReceived _ _) = ''signal_received''"
| "kind (E_ApprovalRequested _) = ''approval_requested''"
| "kind (E_ApprovalGranted _ _) = ''approval_granted''"
| "kind (E_ApprovalDenied _ _) = ''approval_denied''"
| "kind E_Suspended = ''suspended''"
| "kind E_Resumed = ''resumed''"
| "kind (E_Repaired _ _) = ''repaired''"

record 'v EventEnvelope =
  env_event_id :: EventId
  env_stream_id :: JobId
  env_version :: u64
  env_recorded_at :: date_time
  env_correlation_id :: CorrelationId
  env_causation_id :: "EventId option"
  env_traceparent :: "rstring option"
  env_schema_version :: u16
  env_event :: "'v JobEvent"

type_synonym 'v stream = "'v EventEnvelope list"

definition is_late_ack :: "'v JobEvent \<Rightarrow> bool" where
  "is_late_ack ev \<longleftrightarrow> (\<exists>w l r. ev = E_LateAckConflict w l r)"

lemma is_late_ack_simps [simp]: "is_late_ack (E_LateAckConflict w l r)"
  by (simp add: is_late_ack_def)

end
