(* ===== verification/Koine_Job.thy ===== *)
theory Koine_Job
  imports Koine_Events
begin

text \<open>
  The \<open>Job\<close> aggregate of \<open>koine-domain/src/job.rs\<close>: states, the transition table \<open>apply\<close>,
  the fold \<open>from_events\<close> and the commands that validate and return events.  \<open>u32\<close> and
  \<open>u64\<close> additions wrap, as they do in a release build; the cap on attempts proved below
  shows that they never wrap for jobs the broker accepts.
\<close>

section \<open>States\<close>

datatype JobState =
    S_Pending "date_time option"
  | S_Leased WorkerId LeaseId date_time
  | S_Running WorkerId LeaseId date_time
  | S_Succeeded
  | S_Parked ParkReason
  | S_Cancelled
  | S_Suspended
  | S_AwaitingApproval rstring

primrec state_name :: "JobState \<Rightarrow> string" where
  "state_name (S_Pending _) = ''pending''"
| "state_name (S_Leased _ _ _) = ''leased''"
| "state_name (S_Running _ _ _) = ''running''"
| "state_name S_Succeeded = ''succeeded''"
| "state_name (S_Parked _) = ''parked''"
| "state_name S_Cancelled = ''cancelled''"
| "state_name S_Suspended = ''suspended''"
| "state_name (S_AwaitingApproval _) = ''awaiting_approval''"

record 'v Job =
  job_id :: JobId
  job_queue :: QueueName
  job_priority :: Priority
  job_payload :: 'v
  job_retry_policy :: RetryPolicy
  job_attempt :: u32
  job_state :: JobState
  job_version :: u64

definition initial_event ::
  "QueueName \<Rightarrow> 'v \<Rightarrow> Priority \<Rightarrow> RetryPolicy \<Rightarrow> date_time option \<Rightarrow> 'v JobEvent" where
  "initial_event queue payload priority retry_policy not_before =
     E_Enqueued queue payload priority retry_policy not_before"

section \<open>The transition table\<close>

definition advance :: "'v Job \<Rightarrow> JobState \<Rightarrow> ('v Job, DomainError) outcome" where
  "advance j next = Ok (j\<lparr>job_state := next, job_version := job_version j + 1\<rparr>)"

definition apply_event :: "'v Job \<Rightarrow> 'v JobEvent \<Rightarrow> ('v Job, DomainError) outcome" where
  "apply_event j ev =
     (case (job_state j, ev) of
        (S_Pending _, E_Leased worker lease expires_at) \<Rightarrow>
          advance j (S_Leased worker lease expires_at)
      | (S_Leased worker lease expires_at, E_Started _) \<Rightarrow>
          advance j (S_Running worker lease expires_at)
      | (S_Running _ _ _, E_Succeeded _) \<Rightarrow> advance j S_Succeeded
      | (S_Running _ _ _, E_Failed _ attempt) \<Rightarrow>
          advance (j\<lparr>job_attempt := attempt\<rparr>) (S_Pending None)
      | (S_Pending _, E_RetryScheduled attempt not_before) \<Rightarrow>
          advance (j\<lparr>job_attempt := attempt\<rparr>) (S_Pending (Some not_before))
      | (S_Leased _ _ _, E_LeaseExpired _) \<Rightarrow>
          advance (j\<lparr>job_attempt := job_attempt j + 1\<rparr>) (S_Pending None)
      | (S_Running _ _ _, E_LeaseExpired _) \<Rightarrow>
          advance (j\<lparr>job_attempt := job_attempt j + 1\<rparr>) (S_Pending None)
      | (S_Pending _, E_Parked reason) \<Rightarrow> advance j (S_Parked reason)
      | (S_Pending _, E_Cancelled _) \<Rightarrow> advance j S_Cancelled
      | (S_Leased _ _ _, E_Cancelled _) \<Rightarrow> advance j S_Cancelled
      | (S_Running _ _ _, E_Cancelled _) \<Rightarrow> advance j S_Cancelled
      | (S_Suspended, E_Cancelled _) \<Rightarrow> advance j S_Cancelled
      | (S_AwaitingApproval _, E_Cancelled _) \<Rightarrow> advance j S_Cancelled
      | (S_Parked _, E_Cancelled _) \<Rightarrow> advance j S_Cancelled
      | (state, E_LateAckConflict _ _ _) \<Rightarrow> advance j state
      | (S_Running w l x, E_CheckpointRecorded _ _) \<Rightarrow> advance j (S_Running w l x)
      | (S_Pending nb, E_SignalReceived _ _) \<Rightarrow> advance j (S_Pending nb)
      | (S_Leased w l x, E_SignalReceived _ _) \<Rightarrow> advance j (S_Leased w l x)
      | (S_Running w l x, E_SignalReceived _ _) \<Rightarrow> advance j (S_Running w l x)
      | (S_Suspended, E_SignalReceived _ _) \<Rightarrow> advance j S_Suspended
      | (S_AwaitingApproval key, E_SignalReceived _ _) \<Rightarrow> advance j (S_AwaitingApproval key)
      | (S_Leased w l x, E_Stalled) \<Rightarrow> advance j (S_Leased w l x)
      | (S_Running w l x, E_Stalled) \<Rightarrow> advance j (S_Running w l x)
      | (S_Running _ _ _, E_ApprovalRequested key) \<Rightarrow> advance j (S_AwaitingApproval key)
      | (S_AwaitingApproval _, E_ApprovalGranted _ _) \<Rightarrow> advance j (S_Pending None)
      | (S_AwaitingApproval _, E_ApprovalDenied _ _) \<Rightarrow> advance j (S_Parked ParkApprovalDenied)
      | (S_Pending _, E_Suspended) \<Rightarrow> advance j S_Suspended
      | (S_Running _ _ _, E_Suspended) \<Rightarrow> advance j S_Suspended
      | (S_Suspended, E_Resumed) \<Rightarrow> advance j (S_Pending None)
      | (S_Parked _, E_Repaired new_payload _) \<Rightarrow>
          advance
            ((case new_payload of Some payload \<Rightarrow> j\<lparr>job_payload := payload\<rparr> | None \<Rightarrow> j)
               \<lparr>job_attempt := 0\<rparr>)
            (S_Pending None)
      | (state, ev) \<Rightarrow> Err (IllegalTransition (state_name state) (kind ev)))"

section \<open>The fold\<close>

primrec fold_rest :: "'v Job \<Rightarrow> 'v stream \<Rightarrow> ('v Job, DomainError) outcome" where
  "fold_rest j [] = Ok j"
| "fold_rest j (envelope # rest) =
     (if env_version envelope \<noteq> job_version j + 1
      then Err (NonSequentialVersion (job_version j + 1) (env_version envelope))
      else and_then (apply_event j (env_event envelope)) (\<lambda>j'. fold_rest j' rest))"

definition from_events :: "'v stream \<Rightarrow> ('v Job, DomainError) outcome" where
  "from_events envelopes =
     (case envelopes of
        [] \<Rightarrow> Err (StreamMustStartWithEnqueued ''nothing'')
      | first # rest \<Rightarrow>
          (case env_event first of
             E_Enqueued queue payload priority retry_policy not_before \<Rightarrow>
               if env_version first \<noteq> 1
               then Err (NonSequentialVersion 1 (env_version first))
               else fold_rest
                      \<lparr>job_id = env_stream_id first, job_queue = queue, job_priority = priority,
                       job_payload = payload, job_retry_policy = retry_policy, job_attempt = 0,
                       job_state = S_Pending not_before, job_version = 1\<rparr> rest
           | ev \<Rightarrow> Err (StreamMustStartWithEnqueued (kind ev))))"

section \<open>Commands\<close>

definition lease ::
  "chrono \<Rightarrow> 'v Job \<Rightarrow> WorkerId \<Rightarrow> LeaseId \<Rightarrow> date_time \<Rightarrow> duration \<Rightarrow> ('v JobEvent, DomainError) outcome"
where
  "lease C j worker lease_id now ttl =
     (let reject = Err (IllegalTransition (state_name (job_state j)) ''leased'')
      in case job_state j of
           S_Pending not_before \<Rightarrow>
             if is_none_or (\<lambda>t. t \<le> now) not_before
             then and_then (ok_or InvalidTtl (from_std C ttl)) (\<lambda>delta.
                  and_then (plus_or_panic C now delta) (\<lambda>expires_at.
                    Ok (E_Leased worker lease_id expires_at)))
             else reject
         | _ \<Rightarrow> reject)"

definition start :: "'v Job \<Rightarrow> WorkerId \<Rightarrow> ('v JobEvent, DomainError) outcome" where
  "start j worker =
     (case job_state j of
        S_Leased holder _ _ \<Rightarrow> if holder = worker then Ok (E_Started worker) else Err LeaseMismatch
      | state \<Rightarrow> Err (IllegalTransition (state_name state) ''started''))"

definition succeed :: "'v Job \<Rightarrow> LeaseId \<Rightarrow> 'v option \<Rightarrow> ('v JobEvent, DomainError) outcome" where
  "succeed j lease_id result =
     (case job_state j of
        S_Running _ held _ \<Rightarrow> if held = lease_id then Ok (E_Succeeded result) else Err LeaseMismatch
      | state \<Rightarrow> Err (IllegalTransition (state_name state) ''succeeded''))"

definition retry_decision_event ::
  "chrono \<Rightarrow> 'v Job \<Rightarrow> u32 \<Rightarrow> date_time \<Rightarrow> u64 \<Rightarrow> ('v JobEvent, DomainError) outcome" where
  "retry_decision_event C j attempt now seed =
     (case decide (job_retry_policy j) attempt seed of
        RetryAfter delay \<Rightarrow>
          and_then (ok_or InvalidTtl (from_std C delay)) (\<lambda>delta.
          and_then (ok_or InvalidTtl (checked_add_signed C now delta)) (\<lambda>not_before.
            Ok (E_RetryScheduled attempt not_before)))
      | Park \<Rightarrow> Ok (E_Parked RetriesExhausted))"

definition fail ::
  "chrono \<Rightarrow> 'v Job \<Rightarrow> LeaseId \<Rightarrow> JobError \<Rightarrow> date_time \<Rightarrow> u64 \<Rightarrow> ('v JobEvent list, DomainError) outcome"
where
  "fail C j lease_id error now seed =
     (case job_state j of
        S_Running _ held _ \<Rightarrow>
          if held = lease_id
          then let attempt = job_attempt j + 1
               in and_then
                    (if error_retryable error then retry_decision_event C j attempt now seed
                     else Ok (E_Parked NonRetryableError))
                    (\<lambda>ev. Ok [E_Failed error attempt, ev])
          else Err LeaseMismatch
      | state \<Rightarrow> Err (IllegalTransition (state_name state) ''failed''))"

definition expire_lease ::
  "chrono \<Rightarrow> 'v Job \<Rightarrow> date_time \<Rightarrow> u64 \<Rightarrow> ('v JobEvent list, DomainError) outcome" where
  "expire_lease C j now seed =
     (let expire = (\<lambda>held. and_then (retry_decision_event C j (job_attempt j + 1) now seed)
                             (\<lambda>ev. Ok [E_LeaseExpired held, ev]))
      in case job_state j of
           S_Leased _ held _ \<Rightarrow> expire held
         | S_Running _ held _ \<Rightarrow> expire held
         | state \<Rightarrow> Err (IllegalTransition (state_name state) ''lease_expired''))"

definition cancel :: "'v Job \<Rightarrow> rstring option \<Rightarrow> ('v JobEvent, DomainError) outcome" where
  "cancel j reason =
     (case job_state j of
        S_Succeeded \<Rightarrow> Err (IllegalTransition (state_name (job_state j)) ''cancelled'')
      | S_Cancelled \<Rightarrow> Err (IllegalTransition (state_name (job_state j)) ''cancelled'')
      | _ \<Rightarrow> Ok (E_Cancelled reason))"

definition late_ack :: "WorkerId \<Rightarrow> LeaseId \<Rightarrow> ReportedOutcome \<Rightarrow> 'v JobEvent" where
  "late_ack worker lease_id reported = E_LateAckConflict worker lease_id reported"

section \<open>Batches of events and the command interface\<close>

primrec apply_all :: "'v Job \<Rightarrow> 'v JobEvent list \<Rightarrow> ('v Job, DomainError) outcome" where
  "apply_all j [] = Ok j"
| "apply_all j (ev # evs) = and_then (apply_event j ev) (\<lambda>j'. apply_all j' evs)"

text \<open>
  All commands of the aggregate under one type, as \<open>tests/state_machine_props.rs\<close> drives
  them: \<open>run_command\<close> is the list of events a command asks to append.
\<close>

datatype 'v JobCommand =
    Cmd_Lease WorkerId LeaseId date_time duration
  | Cmd_Start WorkerId
  | Cmd_Succeed LeaseId "'v option"
  | Cmd_Fail LeaseId JobError date_time u64
  | Cmd_Expire date_time u64
  | Cmd_Cancel "rstring option"
  | Cmd_LateAck WorkerId LeaseId ReportedOutcome

definition single :: "('v JobEvent, DomainError) outcome \<Rightarrow> ('v JobEvent list, DomainError) outcome" where
  "single r = and_then r (\<lambda>ev. Ok [ev])"

primrec run_command ::
  "chrono \<Rightarrow> 'v Job \<Rightarrow> 'v JobCommand \<Rightarrow> ('v JobEvent list, DomainError) outcome" where
  "run_command C j (Cmd_Lease w l now ttl) = single (lease C j w l now ttl)"
| "run_command C j (Cmd_Start w) = single (start j w)"
| "run_command C j (Cmd_Succeed l result) = single (succeed j l result)"
| "run_command C j (Cmd_Fail l error now seed) = fail C j l error now seed"
| "run_command C j (Cmd_Expire now seed) = expire_lease C j now seed"
| "run_command C j (Cmd_Cancel reason) = single (cancel j reason)"
| "run_command C j (Cmd_LateAck w l reported) = Ok [late_ack w l reported]"

section \<open>Facts about one transition\<close>

lemma apply_event_frame:
  assumes "apply_event j ev = Ok j'"
  shows "job_version j' = job_version j + 1 \<and> job_id j' = job_id j \<and> job_queue j' = job_queue j
    \<and> job_priority j' = job_priority j \<and> job_retry_policy j' = job_retry_policy j"
  using assms
  by (cases "job_state j"; cases ev; auto simp: apply_event_def advance_def split: option.splits)

lemmas apply_event_frameD =
  apply_event_frame [THEN conjunct1]
  apply_event_frame [THEN conjunct2, THEN conjunct1]
  apply_event_frame [THEN conjunct2, THEN conjunct2, THEN conjunct1]
  apply_event_frame [THEN conjunct2, THEN conjunct2, THEN conjunct2, THEN conjunct1]
  apply_event_frame [THEN conjunct2, THEN conjunct2, THEN conjunct2, THEN conjunct2]

lemma apply_event_not_Panic [simp]: "apply_event j ev \<noteq> Panic" "Panic \<noteq> apply_event j ev"
  by (cases "job_state j"; cases ev; simp add: apply_event_def advance_def)+

lemma apply_event_Err:
  "apply_event j ev = Err e \<Longrightarrow> e = IllegalTransition (state_name (job_state j)) (kind ev)"
  by (cases "job_state j"; cases ev; simp add: apply_event_def advance_def)

lemma apply_event_late_ack [simp]:
  "apply_event j (E_LateAckConflict w l r) = advance j (job_state j)"
  by (cases "job_state j"; simp add: apply_event_def)

lemma apply_event_terminal:
  assumes "job_state j \<in> {S_Succeeded, S_Cancelled}"
  shows "apply_event j ev =
    (if is_late_ack ev then Ok (j\<lparr>job_version := job_version j + 1\<rparr>)
     else Err (IllegalTransition (state_name (job_state j)) (kind ev)))"
  using assms by (cases ev) (auto simp: apply_event_def advance_def is_late_ack_def)

section \<open>Facts about the fold\<close>

lemma apply_all_append: "apply_all j (xs @ ys) = and_then (apply_all j xs) (\<lambda>j'. apply_all j' ys)"
proof (induction xs arbitrary: j)
  case (Cons x xs)
  then show ?case by (cases "apply_event j x") auto
qed simp

lemma apply_all_frame:
  assumes "apply_all j evs = Ok j'"
  shows "job_version j' = job_version j + of_nat (length evs) \<and> job_id j' = job_id j
    \<and> job_queue j' = job_queue j \<and> job_priority j' = job_priority j
    \<and> job_retry_policy j' = job_retry_policy j"
  using assms
proof (induction evs arbitrary: j)
  case (Cons ev evs)
  from Cons.prems obtain j1 where j1: "apply_event j ev = Ok j1" "apply_all j1 evs = Ok j'"
    by (auto simp: outcome_simps)
  with Cons.IH [OF j1(2)] apply_event_frame [OF j1(1)] show ?case
    by (simp add: algebra_simps)
qed simp

lemma fold_rest_append:
  "fold_rest j (xs @ ys) = and_then (fold_rest j xs) (\<lambda>j'. fold_rest j' ys)"
proof (induction xs arbitrary: j)
  case (Cons x xs)
  then show ?case by (cases "apply_event j (env_event x)") auto
qed simp

lemma fold_rest_not_Panic [simp]: "fold_rest j xs \<noteq> Panic"
proof (induction xs arbitrary: j)
  case (Cons x xs)
  then show ?case by (cases "apply_event j (env_event x)") auto
qed simp

text \<open>A fold that succeeds is the plain application of its events, on sequential versions.\<close>

primrec sequential :: "u64 \<Rightarrow> 'v stream \<Rightarrow> bool" where
  "sequential v [] = True"
| "sequential v (e # es) = (env_version e = v + 1 \<and> sequential (v + 1) es)"

lemma fold_rest_Ok_iff:
  "fold_rest j xs = Ok j' \<longleftrightarrow> sequential (job_version j) xs \<and> apply_all j (map env_event xs) = Ok j'"
proof (induction xs arbitrary: j)
  case (Cons x xs)
  show ?case
  proof (cases "apply_event j (env_event x)")
    case (Ok j1)
    with Cons.IH [of j1] show ?thesis
      using apply_event_frame [OF Ok] by simp
  qed auto
qed auto

lemma sequential_append:
  "sequential v (xs @ ys) \<longleftrightarrow> sequential v xs \<and> sequential (v + of_nat (length xs)) ys"
  by (induction xs arbitrary: v) (auto simp: algebra_simps)

lemma sequential_nth:
  "sequential v xs \<Longrightarrow> i < length xs \<Longrightarrow> env_version (xs ! i) = v + of_nat (Suc i)"
proof (induction xs arbitrary: v i)
  case (Cons x xs)
  then show ?case by (cases i) (auto simp: algebra_simps)
qed simp

text \<open>The job that the first envelope of a stream opens.\<close>

definition opening_job :: "'v EventEnvelope \<Rightarrow> 'v Job option" where
  "opening_job first =
     (case env_event first of
        E_Enqueued queue payload priority retry_policy not_before \<Rightarrow>
          Some \<lparr>job_id = env_stream_id first, job_queue = queue, job_priority = priority,
                job_payload = payload, job_retry_policy = retry_policy, job_attempt = 0,
                job_state = S_Pending not_before, job_version = 1\<rparr>
      | _ \<Rightarrow> None)"

lemma opening_job_frame:
  "opening_job e = Some j \<Longrightarrow> job_version j = 1 \<and> job_id j = env_stream_id e \<and> job_attempt j = 0"
  by (auto simp: opening_job_def split: JobEvent.splits)

lemma from_events_Ok_iff:
  "from_events xs = Ok j \<longleftrightarrow>
     (\<exists>first rest j0. xs = first # rest \<and> opening_job first = Some j0 \<and> sequential 0 xs
        \<and> apply_all j0 (map env_event rest) = Ok j)"
proof (cases xs)
  case (Cons first rest)
  then show ?thesis
    by (cases "env_event first")
       (auto simp: from_events_def opening_job_def fold_rest_Ok_iff)
qed (simp add: from_events_def)

lemma from_events_not_Panic [simp]: "from_events xs \<noteq> Panic"
  by (auto simp: from_events_def split: list.splits JobEvent.splits)

lemma from_events_frame:
  assumes "from_events xs = Ok j"
  shows "xs \<noteq> [] \<and> sequential 0 xs \<and> job_version j = of_nat (length xs)
    \<and> job_id j = env_stream_id (hd xs)"
proof -
  from assms obtain first rest j0 where x: "xs = first # rest" "opening_job first = Some j0"
      "sequential 0 xs" "apply_all j0 (map env_event rest) = Ok j"
    by (auto simp: from_events_Ok_iff)
  with apply_all_frame [OF x(4)] opening_job_frame [OF x(2)] show ?thesis
    by simp
qed

lemma from_events_append:
  assumes "from_events xs = Ok j"
  shows "from_events (xs @ ys) = fold_rest j ys"
proof -
  obtain e es where xs: "xs = e # es"
    using from_events_frame [OF assms] by (cases xs) auto
  with assms show ?thesis
    by (cases "env_event e")
       (auto simp: from_events_def fold_rest_append split: if_splits)
qed

lemma from_events_snoc_cases:
  assumes "from_events xs = Ok j"
  shows "from_events (xs @ ys) = Ok j' \<longleftrightarrow>
    sequential (job_version j) ys \<and> apply_all j (map env_event ys) = Ok j'"
  by (simp add: from_events_append [OF assms] fold_rest_Ok_iff)

section \<open>When each command accepts\<close>

lemma lease_eq_Ok:
  "lease C j w l now ttl = Ok ev \<longleftrightarrow>
     (\<exists>nb delta x. job_state j = S_Pending nb \<and> is_none_or (\<lambda>t. t \<le> now) nb
        \<and> from_std C ttl = Some delta \<and> checked_add_signed C now delta = Some x
        \<and> ev = E_Leased w l x)"
  by (auto simp: lease_def Let_def outcome_simps split: JobState.splits)

lemma lease_eq_Panic:
  "lease C j w l now ttl = Panic \<longleftrightarrow>
     (\<exists>nb delta. job_state j = S_Pending nb \<and> is_none_or (\<lambda>t. t \<le> now) nb
        \<and> from_std C ttl = Some delta \<and> checked_add_signed C now delta = None)"
  by (auto simp: lease_def Let_def outcome_simps split: JobState.splits)

lemma start_eq_Ok:
  "start j w = Ok ev \<longleftrightarrow> (\<exists>l x. job_state j = S_Leased w l x) \<and> ev = E_Started w"
  by (auto simp: start_def split: JobState.splits)

lemma succeed_eq_Ok:
  "succeed j l res = Ok ev \<longleftrightarrow> (\<exists>w x. job_state j = S_Running w l x) \<and> ev = E_Succeeded res"
  by (auto simp: succeed_def split: JobState.splits)

lemma fail_eq_Ok:
  "fail C j l err now seed = Ok evs \<longleftrightarrow>
     (\<exists>w x ev. job_state j = S_Running w l x \<and> evs = [E_Failed err (job_attempt j + 1), ev]
        \<and> (if error_retryable err then retry_decision_event C j (job_attempt j + 1) now seed
            else Ok (E_Parked NonRetryableError)) = Ok ev)"
  by (auto simp: fail_def Let_def outcome_simps split: JobState.splits)

lemma expire_lease_eq_Ok:
  "expire_lease C j now seed = Ok evs \<longleftrightarrow>
     (\<exists>w l x ev. (job_state j = S_Leased w l x \<or> job_state j = S_Running w l x)
        \<and> evs = [E_LeaseExpired l, ev]
        \<and> retry_decision_event C j (job_attempt j + 1) now seed = Ok ev)"
  by (auto simp: expire_lease_def Let_def outcome_simps split: JobState.splits)

lemma cancel_eq_Ok:
  "cancel j reason = Ok ev \<longleftrightarrow>
     job_state j \<notin> {S_Succeeded, S_Cancelled} \<and> ev = E_Cancelled reason"
  by (auto simp: cancel_def split: JobState.splits)

lemma retry_decision_event_not_Panic [simp]: "retry_decision_event C j a now seed \<noteq> Panic"
  by (auto simp: retry_decision_event_def outcome_simps split: RetryDecision.splits)

lemma command_not_Panic [simp]:
  "start j w \<noteq> Panic" "succeed j l res \<noteq> Panic" "fail C j l err now seed \<noteq> Panic"
  "expire_lease C j now seed \<noteq> Panic" "cancel j reason \<noteq> Panic"
  by (auto simp: start_def succeed_def fail_def expire_lease_def cancel_def Let_def outcome_simps
        split: JobState.splits if_splits)

lemma retry_decision_event_cases:
  assumes "retry_decision_event C j a now seed = Ok ev"
  obtains (park) "ev = E_Parked RetriesExhausted" "max_attempts (job_retry_policy j) \<le> a"
  | (retry) d delta t where "ev = E_RetryScheduled a t" "a < max_attempts (job_retry_policy j)"
      "d \<le> max_delay (job_retry_policy j)" "from_std C d = Some delta"
      "checked_add_signed C now delta = Some t"
  using assms decide_RetryAfterD [of "job_retry_policy j" a seed] decide_Park_iff [of "job_retry_policy j" a seed]
  by (auto simp: retry_decision_event_def outcome_simps split: RetryDecision.splits)

text \<open>The state a failed or expired attempt ends in.\<close>

definition retry_state :: "'v JobEvent \<Rightarrow> JobState" where
  "retry_state ev =
     (case ev of E_RetryScheduled _ t \<Rightarrow> S_Pending (Some t) | E_Parked r \<Rightarrow> S_Parked r | _ \<Rightarrow> S_Pending None)"

lemma retry_event_applies:
  assumes "(if retry then retry_decision_event C j (job_attempt j + 1) now seed
            else Ok (E_Parked NonRetryableError)) = Ok ev"
    and "job_state j1 = S_Pending nb" and "job_attempt j1 = job_attempt j + 1"
  shows "apply_event j1 ev =
    Ok (j1\<lparr>job_state := retry_state ev, job_version := job_version j1 + 1\<rparr>)"
  using assms
  by (auto simp: apply_event_def advance_def retry_state_def split: if_splits
        elim!: retry_decision_event_cases)

lemma fail_applies:
  assumes "fail C j l err now seed = Ok evs"
  shows "\<exists>ev. evs = [E_Failed err (job_attempt j + 1), ev] \<and>
    apply_all j evs = Ok (j\<lparr>job_attempt := job_attempt j + 1, job_state := retry_state ev,
      job_version := job_version j + 2\<rparr>)"
proof -
  from assms obtain w x ev where st: "job_state j = S_Running w l x"
      and evs: "evs = [E_Failed err (job_attempt j + 1), ev]"
      and ev: "(if error_retryable err then retry_decision_event C j (job_attempt j + 1) now seed
            else Ok (E_Parked NonRetryableError)) = Ok ev"
    unfolding fail_eq_Ok by blast
  from retry_event_applies [OF ev, where ?j1.0 = "j\<lparr>job_attempt := job_attempt j + 1,
      job_state := S_Pending None, job_version := job_version j + 1\<rparr>"] st evs
  show ?thesis
    by (auto simp: apply_event_def advance_def)
qed

lemma expire_lease_applies:
  assumes "expire_lease C j now seed = Ok evs"
  shows "\<exists>l ev. evs = [E_LeaseExpired l, ev] \<and>
    apply_all j evs = Ok (j\<lparr>job_attempt := job_attempt j + 1, job_state := retry_state ev,
      job_version := job_version j + 2\<rparr>)"
proof -
  from assms obtain w l x ev where st: "job_state j = S_Leased w l x \<or> job_state j = S_Running w l x"
      and evs: "evs = [E_LeaseExpired l, ev]"
      and ev: "retry_decision_event C j (job_attempt j + 1) now seed = Ok ev"
    unfolding expire_lease_eq_Ok by blast
  from retry_event_applies [where retry = True, simplified, OF ev, where ?j1.0 = "j\<lparr>job_attempt := job_attempt j + 1,
      job_state := S_Pending None, job_version := job_version j + 1\<rparr>"] st evs
  show ?thesis
    by (auto simp: apply_event_def advance_def)
qed

lemma single_commands_apply:
  "lease C j w l now ttl = Ok ev \<Longrightarrow>
     \<exists>x nb. ev = E_Leased w l x \<and> job_state j = S_Pending nb
       \<and> apply_event j ev = advance j (S_Leased w l x)"
  "start j w = Ok ev \<Longrightarrow>
     \<exists>l x. ev = E_Started w \<and> job_state j = S_Leased w l x
       \<and> apply_event j ev = advance j (S_Running w l x)"
  "succeed j l res = Ok ev \<Longrightarrow> ev = E_Succeeded res \<and> apply_event j ev = advance j S_Succeeded"
  "cancel j reason = Ok ev \<Longrightarrow> ev = E_Cancelled reason \<and> apply_event j ev = advance j S_Cancelled"
  by (auto simp: lease_eq_Ok start_eq_Ok succeed_eq_Ok cancel_eq_Ok apply_event_def
        split: JobState.splits)

lemma single_eq_Ok: "single r = Ok evs \<longleftrightarrow> (\<exists>ev. r = Ok ev \<and> evs = [ev])"
  by (auto simp: single_def outcome_simps)

primrec counts_attempt :: "'v JobCommand \<Rightarrow> bool" where
  "counts_attempt (Cmd_Lease _ _ _ _) = False"
| "counts_attempt (Cmd_Start _) = False"
| "counts_attempt (Cmd_Succeed _ _) = False"
| "counts_attempt (Cmd_Fail _ _ _ _) = True"
| "counts_attempt (Cmd_Expire _ _) = True"
| "counts_attempt (Cmd_Cancel _) = False"
| "counts_attempt (Cmd_LateAck _ _ _) = False"

section \<open>Runs of commands\<close>

inductive job_reach :: "chrono \<Rightarrow> 'v Job \<Rightarrow> bool" for C :: chrono where
  opened: "opening_job e = Some j \<Longrightarrow> job_reach C j"
| command: "job_reach C j \<Longrightarrow> run_command C j cmd = Ok evs \<Longrightarrow> apply_all j evs = Ok j' \<Longrightarrow> job_reach C j'"

text \<open>
  The invariant of a run: attempts stay within the cap, strictly below it while the job can
  still be dispatched, and the reserved states are never entered.
\<close>

definition live_state :: "JobState \<Rightarrow> bool" where
  "live_state st \<longleftrightarrow> (case st of S_Pending _ \<Rightarrow> True | S_Leased _ _ _ \<Rightarrow> True | S_Running _ _ _ \<Rightarrow> True | _ \<Rightarrow> False)"

definition attempt_inv :: "'v Job \<Rightarrow> bool" where
  "attempt_inv j \<longleftrightarrow>
     job_attempt j \<le> max_attempts (job_retry_policy j)
     \<and> (live_state (job_state j) \<longrightarrow> job_attempt j < max_attempts (job_retry_policy j))"

definition reserved_state :: "JobState \<Rightarrow> bool" where
  "reserved_state st \<longleftrightarrow> (case st of S_Suspended \<Rightarrow> True | S_AwaitingApproval _ \<Rightarrow> True | _ \<Rightarrow> False)"

lemma command_result_cases:
  assumes "run_command C j cmd = Ok evs"
  obtains (single) st where
      "apply_all j evs = Ok (j\<lparr>job_state := st, job_version := job_version j + 1\<rparr>)"
      "length evs = 1" "live_state st \<longrightarrow> live_state (job_state j)" "reserved_state st \<longrightarrow> reserved_state (job_state j)"
      "\<not> counts_attempt cmd"
  | (attempt) ev0 ev where "evs = [ev0, ev]"
      "apply_all j evs = Ok (j\<lparr>job_attempt := job_attempt j + 1, job_state := retry_state ev,
         job_version := job_version j + 2\<rparr>)"
      "live_state (job_state j)" "counts_attempt cmd"
      "ev = E_Parked NonRetryableError \<or>
         (\<exists>now seed. retry_decision_event C j (job_attempt j + 1) now seed = Ok ev)"
proof (cases "counts_attempt cmd")
  case False
  then obtain ev where ev: "evs = [ev]"
    using assms by (cases cmd) (auto simp: single_eq_Ok)
  from False assms have "\<exists>st. apply_event j ev = advance j st
      \<and> (live_state st \<longrightarrow> live_state (job_state j)) \<and> (reserved_state st \<longrightarrow> reserved_state (job_state j))"
    by (cases cmd)
       (auto simp: ev single_eq_Ok late_ack_def live_state_def reserved_state_def
         dest!: single_commands_apply)
  with ev False that(1) show thesis
    by (auto simp: advance_def)
next
  case True
  then show thesis
  proof (cases cmd)
    case (Cmd_Fail l err now seed)
    with assms have f: "fail C j l err now seed = Ok evs" by simp
    from fail_applies [OF f] obtain ev where ev: "evs = [E_Failed err (job_attempt j + 1), ev]"
        "apply_all j evs = Ok (j\<lparr>job_attempt := job_attempt j + 1, job_state := retry_state ev,
           job_version := job_version j + 2\<rparr>)" by blast
    moreover from f ev(1) have "live_state (job_state j)"
        "ev = E_Parked NonRetryableError \<or>
         (\<exists>now seed. retry_decision_event C j (job_attempt j + 1) now seed = Ok ev)"
      by (auto simp: fail_eq_Ok live_state_def split: if_splits)
    ultimately show thesis using True that(2) by blast
  next
    case (Cmd_Expire now seed)
    with assms have f: "expire_lease C j now seed = Ok evs" by simp
    from expire_lease_applies [OF f] obtain l ev where ev: "evs = [E_LeaseExpired l, ev]"
        "apply_all j evs = Ok (j\<lparr>job_attempt := job_attempt j + 1, job_state := retry_state ev,
           job_version := job_version j + 2\<rparr>)" by blast
    moreover from f ev(1) have "live_state (job_state j)"
        "\<exists>now seed. retry_decision_event C j (job_attempt j + 1) now seed = Ok ev"
      by (auto simp: expire_lease_eq_Ok live_state_def)
    ultimately show thesis using True that(2) by blast
  qed auto
qed

lemma retry_state_inv:
  assumes "retry_decision_event C j (job_attempt j + 1) now seed = Ok ev
           \<or> ev = E_Parked NonRetryableError"
  shows "\<not> reserved_state (retry_state ev)"
    and "live_state (retry_state ev) \<Longrightarrow> job_attempt j + 1 < max_attempts (job_retry_policy j)"
  using assms
  by (auto simp: retry_state_def live_state_def reserved_state_def elim!: retry_decision_event_cases)

lemma attempt_inv_command:
  assumes "run_command C j cmd = Ok evs" and "apply_all j evs = Ok j'"
    and "attempt_inv j" and "\<not> reserved_state (job_state j)"
  shows "attempt_inv j' \<and> \<not> reserved_state (job_state j')"
  using assms(1)
proof (cases rule: command_result_cases)
  case (single st)
  with assms show ?thesis
    by (auto simp: attempt_inv_def)
next
  case (attempt ev0 ev)
  then obtain now seed where ev: "retry_decision_event C j (job_attempt j + 1) now seed = Ok ev
           \<or> ev = E_Parked NonRetryableError" by blast
  from attempt(3) assms(3) have "job_attempt j < max_attempts (job_retry_policy j)"
    by (simp add: attempt_inv_def)
  then have "job_attempt j + 1 \<le> max_attempts (job_retry_policy j)"
    by (rule inc_le)
  with attempt(2) assms(2) retry_state_inv [OF ev] show ?thesis
    by (auto simp: attempt_inv_def)
qed

lemma job_reach_inv:
  assumes "job_reach C j" and "1 \<le> max_attempts (job_retry_policy j)"
  shows "attempt_inv j \<and> \<not> reserved_state (job_state j)"
  using assms
proof (induction rule: job_reach.induct)
  case (opened e j)
  then show ?case
    by (auto simp: opening_job_def attempt_inv_def reserved_state_def word_le_nat_alt word_less_nat_alt
          split: JobEvent.splits)
next
  case (command j cmd evs j')
  then show ?case
    using attempt_inv_command apply_all_frame [OF command.hyps(3)] by metis
qed

text \<open>
  C1. Commands only ask for events that apply: whatever a command of the aggregate returns
  folds cleanly onto the job it was computed from, the version counts the events, and the
  attempt counter moves by exactly one for a failure or an expiry and not at all otherwise.
\<close>

theorem commands_apply:
  assumes "run_command C j cmd = Ok evs"
  shows "\<exists>j'. apply_all j evs = Ok j'
    \<and> job_version j' = job_version j + of_nat (length evs)
    \<and> job_attempt j' = job_attempt j + (if counts_attempt cmd then 1 else 0)"
  using assms by (cases rule: command_result_cases) auto

text \<open>
  C2. The attempt cap: along every run of commands from \<open>enqueued\<close>, under a policy that
  allows at least one attempt, the attempt counter never passes \<open>max_attempts\<close>; while the
  job is pending, leased or running it is strictly below, so the next attempt number never
  wraps; and the states reserved for later phases are never reached.
\<close>

theorem attempt_capped:
  assumes "job_reach C j" and "1 \<le> max_attempts (job_retry_policy j)"
  shows "job_attempt j \<le> max_attempts (job_retry_policy j)
    \<and> (live_state (job_state j) \<longrightarrow> unat (job_attempt j + 1) = unat (job_attempt j) + 1
         \<and> job_attempt j < max_attempts (job_retry_policy j))
    \<and> \<not> reserved_state (job_state j)"
proof -
  from job_reach_inv [OF assms] have inv: "attempt_inv j" "\<not> reserved_state (job_state j)"
    by simp_all
  moreover have "unat (job_attempt j + 1) = unat (job_attempt j) + 1"
    if "job_attempt j < max_attempts (job_retry_policy j)"
    using that
    by (rule unat_inc)
  ultimately show ?thesis
    by (auto simp: attempt_inv_def)
qed

section \<open>Sample data for the concrete evaluations\<close>

definition sample_envelope :: "u64 \<Rightarrow> nat JobEvent \<Rightarrow> nat EventEnvelope" where
  "sample_envelope v ev =
     \<lparr>env_event_id = EventId (ucast v), env_stream_id = JobId 1, env_version = v,
      env_recorded_at = 0, env_correlation_id = CorrelationId 9, env_causation_id = None,
      env_traceparent = None, env_schema_version = SCHEMA_VERSION, env_event = ev\<rparr>"

definition sample_policy :: RetryPolicy where
  "sample_policy = \<lparr>max_attempts = 3, base_delay = 1000000000, max_delay = 2000000000\<rparr>"

definition sample_enqueued :: "nat JobEvent" where
  "sample_enqueued =
     E_Enqueued (QueueName (lit ''default'')) 7 (Priority 3) sample_policy None"

definition sample_worker :: WorkerId where
  "sample_worker = WorkerId (lit ''w1'')"

definition sample_job :: "JobState \<Rightarrow> u32 \<Rightarrow> u64 \<Rightarrow> nat Job" where
  "sample_job st attempt v =
     \<lparr>job_id = JobId 1, job_queue = QueueName (lit ''default''), job_priority = Priority 3,
      job_payload = 7, job_retry_policy = sample_policy, job_attempt = attempt, job_state = st,
      job_version = v\<rparr>"

definition sample_error :: "bool \<Rightarrow> JobError" where
  "sample_error retry =
     \<lparr>error_kind = lit ''io'', error_message = lit ''boom'', error_stacktrace = None,
      error_retryable = retry\<rparr>"

lemmas sample_defs = sample_envelope_def sample_policy_def sample_enqueued_def sample_worker_def
  sample_job_def sample_error_def

definition sample_pending :: "nat stream" where
  "sample_pending = [sample_envelope 1 sample_enqueued]"

definition sample_leased :: "nat stream" where
  "sample_leased = sample_pending @ [sample_envelope 2 (E_Leased sample_worker (LeaseId 50) 30)]"

definition sample_running :: "nat stream" where
  "sample_running = sample_leased @ [sample_envelope 3 (E_Started sample_worker)]"

lemmas sample_streams = sample_pending_def sample_leased_def sample_running_def

lemma sample_folds:
  "from_events sample_pending = Ok (sample_job (S_Pending None) 0 1)"
  "from_events sample_leased = Ok (sample_job (S_Leased sample_worker (LeaseId 50) 30) 0 2)"
  "from_events sample_running = Ok (sample_job (S_Running sample_worker (LeaseId 50) 30) 0 3)"
  by (simp_all add: sample_streams from_events_def apply_event_def advance_def sample_defs)

lemma sample_opening: "opening_job (sample_envelope 1 sample_enqueued) = Some (sample_job (S_Pending None) 0 1)"
  by (simp add: opening_job_def sample_defs)

theorem commands_apply_witness:
  "\<exists>j'. apply_all (sample_job (S_Running sample_worker (LeaseId 50) 30) 0 3)
          [E_Failed (sample_error False) 1, E_Parked NonRetryableError] = Ok j'
      \<and> job_version j' = 5 \<and> job_attempt j' = 1"
proof -
  let ?j = "sample_job (S_Running sample_worker (LeaseId 50) 30) 0 3"
  have "run_command chrono_doc ?j (Cmd_Fail (LeaseId 50) (sample_error False) 0 7)
    = Ok [E_Failed (sample_error False) 1, E_Parked NonRetryableError]"
    by (simp add: fail_def sample_defs)
  from commands_apply [OF this] show ?thesis
    by (auto simp: sample_defs)
qed

theorem attempt_capped_witness:
  "job_attempt (sample_job (S_Pending None) 0 1) \<le> max_attempts sample_policy
   \<and> job_attempt (sample_job (S_Pending None) 0 1) < max_attempts sample_policy"
proof -
  let ?j = "sample_job (S_Pending None) 0 1"
  have "job_reach chrono_doc ?j"
    by (rule job_reach.opened) (rule sample_opening)
  moreover have "1 \<le> max_attempts (job_retry_policy ?j)"
    by (simp add: sample_defs)
  ultimately show ?thesis
    using attempt_capped [of chrono_doc ?j] by (simp add: sample_job_def live_state_def)
qed

text \<open>
  C29. Terminal states absorb: once the fold of a stream is \<open>succeeded\<close> or \<open>cancelled\<close>,
  every longer stream that still folds adds late-ack conflict records only, and the job
  keeps its state, payload and attempt count.
\<close>

theorem terminal_absorbs:
  assumes "from_events xs = Ok j" and "job_state j \<in> {S_Succeeded, S_Cancelled}"
    and "from_events (xs @ ys) = Ok j'"
  shows "list_all (\<lambda>e. is_late_ack (env_event e)) ys
    \<and> j' = j\<lparr>job_version := job_version j + of_nat (length ys)\<rparr>"
proof -
  have "apply_all j (map env_event ys) = Ok j'"
    using assms(1,3) by (simp add: from_events_snoc_cases)
  then show ?thesis
    using assms(2)
  proof (induction ys arbitrary: j)
    case (Cons y ys)
    from Cons.prems have late: "is_late_ack (env_event y)"
        and rest: "apply_all (j\<lparr>job_version := job_version j + 1\<rparr>) (map env_event ys) = Ok j'"
      by (auto simp: apply_event_terminal split: if_splits)
    from Cons.IH [OF rest] Cons.prems(2) late show ?case
      by (simp add: algebra_simps)
  qed simp
qed

lemma sample_cancelled:
  "from_events [sample_envelope 1 sample_enqueued, sample_envelope 2 (E_Cancelled None)]
     = Ok (sample_job S_Cancelled 0 2)"
  by (simp add: from_events_def apply_event_def advance_def sample_defs)

theorem terminal_absorbs_witness:
  "list_all (\<lambda>e. is_late_ack (env_event e))
     [sample_envelope 3 (E_LateAckConflict sample_worker (LeaseId 50) ReportedFailed)]"
proof -
  have "from_events ([sample_envelope 1 sample_enqueued, sample_envelope 2 (E_Cancelled None)]
      @ [sample_envelope 3 (E_LateAckConflict sample_worker (LeaseId 50) ReportedFailed)])
    = Ok (sample_job S_Cancelled 0 3)"
    by (subst from_events_append [OF sample_cancelled])
       (simp add: advance_def sample_defs)
  from terminal_absorbs [OF sample_cancelled _ this] show ?thesis
    by (simp add: sample_job_def)
qed

text \<open>
  A stream that folds is a gap-free history: it is non-empty, its envelopes carry the
  versions 1, 2, 3, ..., the job's version is the number of events (modulo the width of the
  counter) and its identity is the stream id of the first envelope; and every non-empty
  prefix folds too, with the rest applied on top of the job the prefix gives.
\<close>

theorem from_events_history:
  assumes "from_events (xs @ ys) = Ok j" and "xs \<noteq> []"
  shows "\<exists>j0. from_events xs = Ok j0 \<and> fold_rest j0 ys = Ok j
    \<and> job_version j = of_nat (length xs + length ys) \<and> job_id j = env_stream_id (hd xs)
    \<and> (\<forall>i < length (xs @ ys). env_version ((xs @ ys) ! i) = of_nat (Suc i))"
proof -
  from assms obtain first rest j0 where x: "xs = first # rest" "opening_job first = Some j0"
      "sequential 0 (xs @ ys)" "apply_all j0 (map env_event rest @ map env_event ys) = Ok j"
    by (cases xs) (auto simp: from_events_Ok_iff)
  then obtain j1 where j1: "apply_all j0 (map env_event rest) = Ok j1"
    by (auto simp: apply_all_append outcome_simps)
  have "sequential 0 xs"
    using x(3) by (simp add: sequential_append)
  with x(1,2) j1 have pre: "from_events xs = Ok j1"
    by (auto simp: from_events_Ok_iff)
  moreover have "fold_rest j1 ys = Ok j"
    using assms(1) by (simp add: from_events_append [OF pre])
  moreover have "env_version ((xs @ ys) ! i) = of_nat (Suc i)" if "i < length (xs @ ys)" for i
    using sequential_nth [OF x(3) that] by simp
  moreover have "job_version j = of_nat (length xs + length ys)" "job_id j = env_stream_id (hd xs)"
    using from_events_frame [OF assms(1)] assms(2) by simp_all
  ultimately show ?thesis
    by blast
qed

text \<open>
  C31. The verdict on a failed attempt: when \<open>Job::fail\<close> accepts, the error is recorded with
  the next attempt number and the job is then either parked (at once for a non-retryable
  error, otherwise exactly when the policy's attempts are used up) or pending again with a
  date that lies between now and now plus the policy's \<open>max_delay\<close>.
\<close>

theorem fail_verdict:
  assumes "fail C j l err now seed = Ok evs" and "chrono_ok C"
  shows "\<exists>j'. apply_all j evs = Ok j' \<and> job_attempt j' = job_attempt j + 1 \<and>
    (case job_state j' of
       S_Parked reason \<Rightarrow>
         reason = (if error_retryable err then RetriesExhausted else NonRetryableError)
         \<and> (error_retryable err \<longrightarrow> max_attempts (job_retry_policy j) \<le> job_attempt j + 1)
     | S_Pending (Some t) \<Rightarrow>
         error_retryable err \<and> job_attempt j + 1 < max_attempts (job_retry_policy j)
         \<and> now \<le> t \<and> t \<le> now + int (max_delay (job_retry_policy j))
     | _ \<Rightarrow> False)"
proof -
  from fail_applies [OF assms(1)] obtain ev where
      ev: "evs = [E_Failed err (job_attempt j + 1), ev]"
        "apply_all j evs = Ok (j\<lparr>job_attempt := job_attempt j + 1, job_state := retry_state ev,
           job_version := job_version j + 2\<rparr>)" by blast
  show ?thesis
  proof (cases "error_retryable err")
    case False
    with assms(1) ev(1) have "ev = E_Parked NonRetryableError"
      by (auto simp: fail_eq_Ok)
    with ev(2) False show ?thesis by (simp add: retry_state_def)
  next
    case True
    with assms(1) ev(1) have "retry_decision_event C j (job_attempt j + 1) now seed = Ok ev"
      by (auto simp: fail_eq_Ok)
    then show ?thesis
    proof (cases rule: retry_decision_event_cases)
      case park
      with ev(2) True show ?thesis by (simp add: retry_state_def)
    next
      case (retry d delta t)
      then have "t = now + int d"
        using chrono_ok_from_std [OF assms(2)] chrono_ok_add [OF assms(2)] by blast
      with ev(2) True retry show ?thesis by (simp add: retry_state_def)
    qed
  qed
qed

theorem fail_verdict_witness:
  "\<exists>j'. apply_all (sample_job (S_Running sample_worker (LeaseId 50) 30) 2 9)
          [E_Failed (sample_error True) 3, E_Parked RetriesExhausted] = Ok j'
      \<and> job_state j' = S_Parked RetriesExhausted \<and> job_attempt j' = 3"
proof -
  let ?j = "sample_job (S_Running sample_worker (LeaseId 50) 30) 2 9"
  have "fail chrono_doc ?j (LeaseId 50) (sample_error True) 0 7
    = Ok [E_Failed (sample_error True) 3, E_Parked RetriesExhausted]"
    by (simp add: fail_def retry_decision_event_def decide_def sample_defs)
  from fail_verdict [OF this chrono_ok_doc] show ?thesis
    by (auto simp: sample_defs apply_event_def advance_def)
qed

text \<open>
  C34. \<open>Job::lease\<close> is guarded against unrepresentable lease times only in part: where the
  duration converts but the expiry date is out of range it neither returns an event nor an
  error but panics, and that is the only case in which a command of the aggregate panics.
\<close>

theorem lease_panics_iff:
  "run_command C j cmd = Panic \<longleftrightarrow>
     (\<exists>w l now ttl nb delta. cmd = Cmd_Lease w l now ttl \<and> job_state j = S_Pending nb
        \<and> is_none_or (\<lambda>t. t \<le> now) nb \<and> from_std C ttl = Some delta
        \<and> checked_add_signed C now delta = None)"
  by (cases cmd) (auto simp: single_def outcome_simps lease_eq_Panic)

text \<open>
  With the ranges chrono documents: a lease of nine million million seconds converts to a
  \<open>TimeDelta\<close>, and adding it to the epoch leaves the calendar.
\<close>

lemma lease_panics_example:
  "lease chrono_doc (sample_job (S_Pending None) 0 1) sample_worker (LeaseId 50) 0
     (from_millis 9000000000000000) = Panic"
  by (simp add: lease_eq_Panic sample_job_def chrono_doc_def from_millis_def)

end
