(* ===== verification/Koine_Ports.thy ===== *)
theory Koine_Ports
  imports Koine_Job
begin

text \<open>
  The driven ports of \<open>koine-application/src/ports.rs\<close> and the envelope construction of
  \<open>lineage.rs\<close>.  A port is a record of operations; the \<open>Clock\<close> and \<open>IdGenerator\<close> ports
  are one record \<open>runtime\<close> over a hidden state \<open>'e\<close>, so that every call may give a new
  value.  What the adapters promise of \<open>EventStore\<close> and \<open>Dispatcher\<close> is stated by the
  locales \<open>event_store_contract\<close> and \<open>dispatcher_contract\<close>.
\<close>

section \<open>Errors\<close>

text \<open>The text of a \<open>Backend\<close> error: a literal, or a literal with its formatted argument.\<close>

datatype Message =
    Msg string
  | Msg_error string DomainError
  | Msg_id string JobId
  | Msg_id_error string JobId DomainError

datatype EventStoreError =
    VersionConflict JobId u64
  | StreamNotFound JobId
  | StoreBackend Message

datatype DispatchError =
    DispatchStore EventStoreError
  | DispatchDomain DomainError
  | DispatchBackend Message

section \<open>Clock and id generator\<close>

record 'e runtime =
  clock_now :: "'e \<Rightarrow> date_time \<times> 'e"
  new_job_id :: "'e \<Rightarrow> JobId \<times> 'e"
  new_event_id :: "'e \<Rightarrow> EventId \<times> 'e"
  new_lease_id :: "'e \<Rightarrow> LeaseId \<times> 'e"
  new_correlation_id :: "'e \<Rightarrow> CorrelationId \<times> 'e"
  jitter_seed :: "'e \<Rightarrow> u64 \<times> 'e"

section \<open>Event store and dispatcher\<close>

record ('s, 'v) event_store =
  es_append :: "JobId \<Rightarrow> u64 \<Rightarrow> 'v stream \<Rightarrow> 's \<Rightarrow> (unit, EventStoreError) outcome \<times> 's"
  es_load :: "JobId \<Rightarrow> 's \<Rightarrow> ('v stream, EventStoreError) outcome"

record 'v LeasedJob =
  lj_job_id :: JobId
  lj_queue :: QueueName
  lj_payload :: 'v
  lj_attempt :: u32
  lj_lease :: LeaseId
  lj_expires_at :: date_time
  lj_correlation_id :: CorrelationId
  lj_traceparent :: "rstring option"

record ('w, 'v) dispatcher =
  lease_next :: "QueueName \<Rightarrow> WorkerId \<Rightarrow> duration \<Rightarrow> 'w \<Rightarrow> ('v LeasedJob option, DispatchError) outcome \<times> 'w"
  extend_lease :: "LeaseId \<Rightarrow> duration \<Rightarrow> 'w \<Rightarrow> (bool, DispatchError) outcome \<times> 'w"
  retire_next_expired_lease :: "'w \<Rightarrow> (JobId option, DispatchError) outcome \<times> 'w"

section \<open>Lineage\<close>

record Lineage =
  lin_correlation_id :: "CorrelationId option"
  lin_causation_id :: "EventId option"
  lin_traceparent :: "rstring option"

definition lineage_default :: Lineage where
  "lineage_default = \<lparr>lin_correlation_id = None, lin_causation_id = None, lin_traceparent = None\<rparr>"

primrec wrap_from ::
  "'e runtime \<Rightarrow> JobId \<Rightarrow> date_time \<Rightarrow> CorrelationId \<Rightarrow> EventId option \<Rightarrow> rstring option
   \<Rightarrow> u64 \<Rightarrow> 'v JobEvent list \<Rightarrow> 'e \<Rightarrow> 'v stream \<times> 'e" where
  "wrap_from rt stream recorded_at correlation causation traceparent version [] e = ([], e)"
| "wrap_from rt stream recorded_at correlation causation traceparent version (ev # evs) e =
     (let version = version + 1;
          (event_id, e) = new_event_id rt e;
          envelope = \<lparr>env_event_id = event_id, env_stream_id = stream, env_version = version,
                      env_recorded_at = recorded_at, env_correlation_id = correlation,
                      env_causation_id = causation, env_traceparent = traceparent,
                      env_schema_version = SCHEMA_VERSION, env_event = ev\<rparr>;
          (envelopes, e) = wrap_from rt stream recorded_at correlation causation traceparent version evs e
      in (envelope # envelopes, e))"

definition wrap_events ::
  "'e runtime \<Rightarrow> JobId \<Rightarrow> u64 \<Rightarrow> CorrelationId \<Rightarrow> EventId option \<Rightarrow> rstring option
   \<Rightarrow> 'v JobEvent list \<Rightarrow> 'e \<Rightarrow> 'v stream \<times> 'e" where
  "wrap_events rt stream base_version correlation causation traceparent events e =
     (let (recorded_at, e) = clock_now rt e
      in wrap_from rt stream recorded_at correlation causation traceparent base_version events e)"

definition lineage_of :: "'v stream \<Rightarrow> CorrelationId \<times> EventId option \<times> rstring option" where
  "lineage_of stream =
     (let correlation = (case stream of [] \<Rightarrow> CorrelationId uuid_nil | env # _ \<Rightarrow> env_correlation_id env);
          causation = (case stream of [] \<Rightarrow> None | _ \<Rightarrow> Some (env_event_id (last stream)));
          traceparent = (case stream of [] \<Rightarrow> None | env # _ \<Rightarrow> env_traceparent env)
      in (correlation, causation, traceparent))"

section \<open>Facts about wrapping\<close>

definition wrapped ::
  "JobId \<Rightarrow> u64 \<Rightarrow> CorrelationId \<Rightarrow> EventId option \<Rightarrow> rstring option \<Rightarrow> 'v JobEvent list \<Rightarrow> 'v stream \<Rightarrow> bool"
where
  "wrapped stream base corr caus trace evs es \<longleftrightarrow>
     map env_event es = evs \<and> sequential base es \<and>
     list_all (\<lambda>e. env_stream_id e = stream \<and> env_correlation_id e = corr \<and> env_causation_id e = caus
       \<and> env_traceparent e = trace \<and> env_schema_version e = SCHEMA_VERSION) es"

lemma wrap_from_wrapped:
  "wrap_from rt stream t corr caus trace v evs e = (es, e') \<Longrightarrow> wrapped stream v corr caus trace evs es"
proof (induction evs arbitrary: v e es e')
  case (Cons ev evs)
  then show ?case
    by (fastforce simp: wrapped_def Let_def split: prod.splits)
qed (simp add: wrapped_def)

lemma wrap_events_wrapped:
  "wrap_events rt stream v corr caus trace evs e = (es, e') \<Longrightarrow> wrapped stream v corr caus trace evs es"
  by (auto simp: wrap_events_def Let_def split: prod.splits dest: wrap_from_wrapped)

lemma wrappedD:
  assumes "wrapped stream v corr caus trace evs es"
  shows "map env_event es = evs" "sequential v es" "length es = length evs"
    "list_all (\<lambda>e. env_stream_id e = stream) es"
  using assms by (auto simp: wrapped_def list_all_iff)

section \<open>The event store contract\<close>

text \<open>
  What a store may change of an envelope it keeps: the precision of the recording time, and an
  optional JSON value that is null, which a JSON encoding does not tell from an absent one.
\<close>

definition kept_event :: "'v JobEvent \<Rightarrow> 'v JobEvent \<Rightarrow> bool" where
  "kept_event ev ev' \<longleftrightarrow>
     ev' = ev \<or> (\<exists>v. ev = E_Succeeded (Some v) \<and> ev' = E_Succeeded None)
     \<or> (\<exists>v note. ev = E_Repaired (Some v) note \<and> ev' = E_Repaired None note)"

definition kept_as :: "'v EventEnvelope \<Rightarrow> 'v EventEnvelope \<Rightarrow> bool" where
  "kept_as e e' \<longleftrightarrow>
     kept_event (env_event e) (env_event e')
     \<and> e' = e\<lparr>env_recorded_at := env_recorded_at e', env_event := env_event e'\<rparr>"

text \<open>Events that are kept as they are: all but the two that carry an optional value.\<close>

definition exact_event :: "'v JobEvent \<Rightarrow> bool" where
  "exact_event ev \<longleftrightarrow> (case ev of E_Succeeded (Some _) \<Rightarrow> False | E_Repaired (Some _) _ \<Rightarrow> False | _ \<Rightarrow> True)"

definition replaces_payload :: "'v JobEvent \<Rightarrow> bool" where
  "replaces_payload ev \<longleftrightarrow> (case ev of E_Repaired (Some _) _ \<Rightarrow> True | _ \<Rightarrow> False)"

lemma kept_event_refl [simp]: "kept_event ev ev"
  by (simp add: kept_event_def)

lemma kept_event_exact: "exact_event ev \<Longrightarrow> kept_event ev ev' \<longleftrightarrow> ev' = ev"
  by (auto simp: kept_event_def exact_event_def)

lemma kept_event_kind: "kept_event ev ev' \<Longrightarrow> kind ev' = kind ev"
  by (auto simp: kept_event_def)

lemma exact_event_keeps_payload: "exact_event ev \<Longrightarrow> \<not> replaces_payload ev"
  by (auto simp: exact_event_def replaces_payload_def split: JobEvent.splits option.splits)

text \<open>A store changes at most the result that a worker reports.\<close>

lemma command_exact:
  assumes "run_command C job cmd = Ok evs" and "\<And>l res. cmd \<noteq> Cmd_Succeed l res"
  shows "\<forall>ev \<in> set evs. exact_event ev"
proof -
  have "exact_event ev" if "retry_decision_event C job n now seed = Ok ev" for n now seed ev
    using that by (auto simp: retry_decision_event_def exact_event_def outcome_simps split: RetryDecision.splits)
  with assms show ?thesis
    by (cases cmd)
       (auto simp: single_eq_Ok lease_eq_Ok start_eq_Ok fail_eq_Ok expire_lease_eq_Ok cancel_eq_Ok late_ack_def
          exact_event_def split: if_splits)
qed

lemma command_kept:
  assumes "run_command C job cmd = Ok evs" and "list_all2 kept_event evs evs'"
  shows "\<exists>cmd'. run_command C job cmd' = Ok evs'"
proof (cases "\<exists>l res. cmd = Cmd_Succeed l res")
  case True
  with assms obtain l res where cmd: "succeed job l res = Ok (E_Succeeded res)" "evs = [E_Succeeded res]"
    by (auto simp: single_eq_Ok succeed_eq_Ok)
  with assms(2) obtain res' where "evs' = [E_Succeeded res']"
    by (auto simp: list_all2_Cons1 kept_event_def)
  with cmd(1) have "run_command C job (Cmd_Succeed l res') = Ok evs'"
    by (auto simp: single_eq_Ok succeed_eq_Ok)
  then show ?thesis ..
next
  case False
  then have "\<forall>ev \<in> set evs. exact_event ev"
    using command_exact [OF assms(1)] by blast
  with assms(2) have "evs' = evs"
    by (induction rule: list_all2_induct) (auto simp: kept_event_exact)
  with assms(1) show ?thesis by blast
qed

lemma kept_as_refl [simp]: "kept_as e e"
  by (simp add: kept_as_def)

lemma kept_asD:
  assumes "kept_as e e'"
  shows "env_event_id e' = env_event_id e" "env_stream_id e' = env_stream_id e"
    "env_version e' = env_version e" "env_correlation_id e' = env_correlation_id e"
    "env_causation_id e' = env_causation_id e" "env_traceparent e' = env_traceparent e"
    "env_schema_version e' = env_schema_version e"
proof -
  obtain r ev where "e' = e\<lparr>env_recorded_at := r, env_event := ev\<rparr>"
    using assms unfolding kept_as_def by blast
  then show "env_event_id e' = env_event_id e" "env_stream_id e' = env_stream_id e"
    "env_version e' = env_version e" "env_correlation_id e' = env_correlation_id e"
    "env_causation_id e' = env_causation_id e" "env_traceparent e' = env_traceparent e"
    "env_schema_version e' = env_schema_version e"
    by simp_all
qed

lemma kept_as_event: "kept_as e e' \<Longrightarrow> kept_event (env_event e) (env_event e')"
  by (simp add: kept_as_def)

lemma kept_events: "list_all2 kept_as es es' \<Longrightarrow> list_all2 kept_event (map env_event es) (map env_event es')"
  by (induction rule: list_all2_induct) (simp_all add: kept_as_event)

lemma kept_events_exact:
  assumes "list_all2 kept_as es es'" and "\<forall>ev \<in> set (map env_event es). exact_event ev"
  shows "map env_event es' = map env_event es"
  using assms by (induction rule: list_all2_induct) (auto dest: kept_as_event simp: kept_event_exact)

text \<open>The fold does not see the difference, a replaced payload apart.\<close>

lemma apply_event_kept:
  assumes "kept_event ev ev'" and "\<not> replaces_payload ev"
  shows "apply_event job ev' = apply_event job ev"
  using assms by (auto simp: kept_event_def replaces_payload_def apply_event_def split: JobState.split)

lemma fold_rest_kept:
  "list_all2 kept_as es es' \<Longrightarrow> \<forall>e \<in> set es. \<not> replaces_payload (env_event e) \<Longrightarrow> fold_rest job es' = fold_rest job es"
proof (induction es es' arbitrary: job rule: list_all2_induct)
  case (Cons e es e' es')
  have "apply_event job (env_event e') = apply_event job (env_event e)" for job :: "'a Job"
    using Cons(4) by (intro apply_event_kept kept_as_event [OF Cons(1)]) simp
  with Cons show ?case
    by (simp add: kept_asD [OF Cons(1)])
qed simp

lemma from_events_kept:
  assumes "list_all2 kept_as es es'" and "\<forall>e \<in> set es. \<not> replaces_payload (env_event e)"
  shows "from_events es' = from_events es"
proof (cases es)
  case (Cons e xs)
  with assms obtain e' xs' where es': "es' = e' # xs'" "kept_as e e'" "list_all2 kept_as xs xs'"
    by (auto simp: list_all2_Cons1)
  have "env_event e' = env_event e \<or> (\<exists>r r'. env_event e = E_Succeeded r \<and> env_event e' = E_Succeeded r')"
    using kept_as_event [OF es'(2)] assms(2) Cons by (auto simp: kept_event_def replaces_payload_def)
  with Cons es' assms(2) show ?thesis
    by (auto simp: from_events_def fold_rest_kept kept_asD split: JobEvent.split)
qed (use assms in simp)

lemma from_events_append_kept:
  assumes "from_events xs = Ok job" and "list_all2 kept_as es es'"
    and "\<forall>e \<in> set es. \<not> replaces_payload (env_event e)"
  shows "from_events (xs @ es') = from_events (xs @ es)"
  by (simp add: from_events_append [OF assms(1)] fold_rest_kept [OF assms(2,3)])

text \<open>With a replaced payload the fold gives the same errors, and the same job but for the payload.\<close>

abbreviation forget_payload :: "'v \<Rightarrow> ('v Job, DomainError) outcome \<Rightarrow> ('v Job, DomainError) outcome" where
  "forget_payload q r \<equiv> and_then r (\<lambda>j. Ok (j\<lparr>job_payload := q\<rparr>))"

lemma apply_event_forget:
  assumes "kept_event ev ev'"
  shows "forget_payload q (apply_event (job\<lparr>job_payload := p\<rparr>) ev') = forget_payload q (apply_event job ev)"
proof (cases "replaces_payload ev")
  case True
  then obtain v note' where "ev = E_Repaired (Some v) note'"
    by (auto simp: replaces_payload_def split: JobEvent.splits option.splits)
  with assms show ?thesis
    by (auto simp: kept_event_def apply_event_def advance_def split: JobState.split)
next
  case False
  then have "apply_event (job\<lparr>job_payload := p\<rparr>) ev' = apply_event (job\<lparr>job_payload := p\<rparr>) ev"
    by (rule apply_event_kept [OF assms])
  with False show ?thesis
    by (cases "job_state job"; cases ev)
       (simp_all add: apply_event_def advance_def replaces_payload_def split: option.split)
qed

lemma forget_payload_Ok:
  assumes "forget_payload q r = forget_payload q (Ok job)"
  shows "\<exists>p. r = Ok (job\<lparr>job_payload := p\<rparr>)"
proof -
  from assms obtain job1 where "r = Ok job1" "job1\<lparr>job_payload := q\<rparr> = job\<lparr>job_payload := q\<rparr>"
    by (cases r) auto
  then have "job1 = job\<lparr>job_payload := job_payload job1\<rparr>"
    by (cases job1, cases job) auto
  with \<open>r = Ok job1\<close> show ?thesis by metis
qed

lemma fold_rest_forget:
  "list_all2 kept_as es es' \<Longrightarrow>
     forget_payload q (fold_rest (job\<lparr>job_payload := p\<rparr>) es') = forget_payload q (fold_rest job es)"
proof (induction es es' arbitrary: job p rule: list_all2_induct)
  case (Cons e es e' es')
  note ev = apply_event_forget [OF kept_as_event [OF Cons(1)], where job = job and p = p]
  show ?case
  proof (cases "apply_event job (env_event e)")
    case (Ok job1)
    with forget_payload_Ok [OF ev [unfolded Ok]] obtain p' where
        "apply_event (job\<lparr>job_payload := p\<rparr>) (env_event e') = Ok (job1\<lparr>job_payload := p'\<rparr>)" by blast
    with Ok Cons.IH [where job = job1 and p = p'] show ?thesis by (simp add: kept_asD [OF Cons(1)])
  next
    case (Err x)
    with ev [where q = q] show ?thesis
      by (cases "apply_event (job\<lparr>job_payload := p\<rparr>) (env_event e')") (simp_all add: kept_asD [OF Cons(1)])
  next
    case Panic
    with ev [where q = q] show ?thesis
      by (cases "apply_event (job\<lparr>job_payload := p\<rparr>) (env_event e')") (simp_all add: kept_asD [OF Cons(1)])
  qed
qed simp

lemma from_events_forget:
  assumes "list_all2 kept_as es es'"
  shows "forget_payload q (from_events es') = forget_payload q (from_events es)"
proof (cases es)
  case (Cons e xs)
  with assms obtain e' xs' where es': "es' = e' # xs'" "kept_as e e'" "list_all2 kept_as xs xs'"
    by (auto simp: list_all2_Cons1)
  note same = kept_asD [OF es'(2)] and ev = kept_as_event [OF es'(2)]
  show ?thesis
  proof (cases "\<exists>q p pr rp nb. env_event e = E_Enqueued q p pr rp nb")
    case True
    then obtain qn p pr rp nb where e: "env_event e = E_Enqueued qn p pr rp nb" by blast
    with ev have "env_event e' = E_Enqueued qn p pr rp nb" by (simp add: kept_event_def)
    with e fold_rest_forget [OF es'(3), where q = q and p = p and job = "\<lparr>job_id = env_stream_id e, job_queue = qn, job_priority = pr,
        job_payload = p, job_retry_policy = rp, job_attempt = 0, job_state = S_Pending nb, job_version = 1\<rparr>"]
    show ?thesis by (simp add: Cons es'(1) from_events_def same)
  next
    case False
    with ev have "\<not> (\<exists>q p pr rp nb. env_event e' = E_Enqueued q p pr rp nb)" by (auto simp: kept_event_def)
    moreover have "from_events (x # ys) = Err (StreamMustStartWithEnqueued (kind (env_event x)))"
      if "\<not> (\<exists>q p pr rp nb. env_event x = E_Enqueued q p pr rp nb)" for x and ys :: "'a stream"
      using that by (cases "env_event x") (auto simp: from_events_def)
    ultimately show ?thesis
      using False kept_event_kind [OF ev] by (simp add: Cons es'(1))
  qed
qed (use assms in simp)

lemma from_events_payload:
  assumes "list_all2 kept_as es es'" and "from_events es = Ok job"
  shows "\<exists>p. from_events es' = Ok (job\<lparr>job_payload := p\<rparr>)"
  using forget_payload_Ok [OF from_events_forget [OF assms(1), unfolded assms(2)]] .

lemma folded_job_id:
  assumes "from_events xs = Ok job" and "list_all (\<lambda>e. env_stream_id e = k) xs"
  shows "job_id job = k"
  using from_events_frame [OF assms(1)] assms(2) by (cases xs) auto

lemma kept_as_append: "list_all2 kept_as es es' \<Longrightarrow> list_all2 kept_as (xs @ es) (xs @ es')"
  by (simp add: list_all2_appendI list_all2_refl)

lemma sequential_kept: "list_all2 kept_as es es' \<Longrightarrow> sequential v es' = sequential v es"
  by (induction es es' arbitrary: v rule: list_all2_induct) (simp_all add: kept_asD)

lemma wrapped_kept:
  assumes "list_all2 kept_as es es'" and "wrapped stream v corr caus trace evs es" and "\<forall>ev \<in> set evs. exact_event ev"
  shows "wrapped stream v corr caus trace evs es'"
proof -
  have "map env_event es' = map env_event es"
    using assms by (intro kept_events_exact) (auto simp: wrapped_def)
  moreover have "list_all P es' = list_all P es"
    if "\<And>e e'. kept_as e e' \<Longrightarrow> P e' = P e" for P
    using assms(1) by (induction rule: list_all2_induct) (simp_all add: that)
  ultimately show ?thesis
    using assms(2) by (simp add: wrapped_def sequential_kept [OF assms(1)] kept_asD)
qed

text \<open>
  What \<open>EventStore\<close> promises (ADRs 0006 and 0011).  \<open>hist s j\<close> is the recorded stream of a
  job, empty when the job is unknown; \<open>storable\<close> is the adapter's own side condition on a
  batch (none for the memory store, fresh event ids for a database).  Appends are
  append-only, guarded by the expected version, and a refused append leaves no trace; a store
  may keep an envelope up to \<open>kept_as\<close>.
\<close>

locale event_store_contract =
  fixes S :: "('s, 'v) event_store"
    and inv :: "'s \<Rightarrow> bool"
    and hist :: "'s \<Rightarrow> JobId \<Rightarrow> 'v stream"
    and storable :: "'s \<Rightarrow> JobId \<Rightarrow> 'v stream \<Rightarrow> bool"
  assumes hist_folds: "inv s \<Longrightarrow> hist s j \<noteq> [] \<Longrightarrow> \<exists>job. from_events (hist s j) = Ok job \<and> job_id job = j"
    and load_law: "inv s \<Longrightarrow> es_load S j s = (if hist s j = [] then Err (StreamNotFound j) else Ok (hist s j))"
    and append_Ok: "inv s \<Longrightarrow> es_append S j v es s = (Ok u, s') \<Longrightarrow>
      inv s' \<and> unat v = length (hist s j)
      \<and> (\<exists>es'. list_all2 kept_as es es' \<and> hist s' = (hist s)(j := hist s j @ es'))"
    and append_Err: "inv s \<Longrightarrow> es_append S j v es s = (Err e, s') \<Longrightarrow> s' = s"
    and append_returns: "inv s \<Longrightarrow> fst (es_append S j v es s) \<noteq> Panic"
    and append_stale: "inv s \<Longrightarrow> length (hist s j) < 2 ^ 63 \<Longrightarrow> unat v \<noteq> length (hist s j) \<Longrightarrow>
      es_append S j v es s = (Err (VersionConflict j v), s)"
    and append_accepts: "inv s \<Longrightarrow> unat v = length (hist s j) \<Longrightarrow> sequential v es \<Longrightarrow>
      list_all (\<lambda>e. env_stream_id e = j) es \<Longrightarrow> from_events (hist s j @ es) = Ok job \<Longrightarrow>
      storable s j es \<Longrightarrow> \<exists>s'. es_append S j v es s = (Ok (), s')"
begin

text \<open>A recorded stream folds to a job whose version is its length.\<close>

lemma loaded_job:
  assumes "inv s" and "es_load S j s = Ok xs"
  obtains job where "from_events xs = Ok job" "job_id job = j" "hist s j = xs"
    "job_version job = of_nat (length xs)" "xs \<noteq> []"
proof -
  from assms have xs: "hist s j = xs" "xs \<noteq> []"
    by (auto simp: load_law split: if_splits)
  with hist_folds [OF assms(1), of j] obtain job where "from_events xs = Ok job" "job_id job = j"
    by blast
  with xs from_events_frame [of xs job] show thesis
    by (intro that) auto
qed

text \<open>
  Optimistic concurrency: an append computed from an earlier reading of the stream is accepted
  in a later state only if nothing was recorded in between.
\<close>

lemma append_fresh_view:
  assumes "inv s" and "es_append S j (of_nat (length xs)) es s = (Ok u, s')"
    and "hist s j = xs @ ys" and "length xs + length ys < 2 ^ 64"
  shows "ys = []"
proof -
  have "unat (of_nat (length xs) :: u64) = length (xs @ ys)"
    using append_Ok [OF assms(1,2)] assms(3) by simp
  moreover have "unat (of_nat (length xs) :: u64) = length xs"
    using assms(4) by (simp add: unat_of_nat_small)
  ultimately show ?thesis
    by simp
qed

end

text \<open>A store that keeps every envelope as it is.\<close>

locale exact_store = event_store_contract S inv hist storable
  for S :: "('s, 'v) event_store" and inv hist storable +
  assumes append_exact: "inv s \<Longrightarrow> es_append S j v es s = (Ok u, s') \<Longrightarrow>
    hist s' = (hist s)(j := hist s j @ es)"

section \<open>The dispatcher contract\<close>

text \<open>The lease a stream's job is under, if any.\<close>

definition held_lease :: "JobState \<Rightarrow> LeaseId option" where
  "held_lease state =
     (case state of S_Leased _ l _ \<Rightarrow> Some l | S_Running _ l _ \<Rightarrow> Some l | _ \<Rightarrow> None)"

definition held :: "'v stream \<Rightarrow> LeaseId option" where
  "held xs = (case from_events xs of Ok job \<Rightarrow> held_lease (job_state job) | _ \<Rightarrow> None)"

text \<open>A job is due on a queue when its folded stream is pending there and its time has come.\<close>

definition due :: "'v Job \<Rightarrow> QueueName \<Rightarrow> date_time \<Rightarrow> bool" where
  "due job queue now \<longleftrightarrow> job_queue job = queue \<and>
     (case job_state job of S_Pending nb \<Rightarrow> is_none_or (\<lambda>t. t \<le> now) nb | _ \<Rightarrow> False)"

lemma due_lease:
  assumes "due job queue now"
  shows "lease C job worker l now ttl =
    (case from_std C ttl of
       None \<Rightarrow> Err InvalidTtl
     | Some d \<Rightarrow> (case checked_add_signed C now d of None \<Rightarrow> Panic | Some x \<Rightarrow> Ok (E_Leased worker l x)))"
  using assms
  by (cases "job_state job"; cases "from_std C ttl")
     (auto simp: due_def lease_def plus_or_panic_def split: option.split)

lemma due_lease_applies:
  assumes "due job queue now"
  shows "apply_all job [E_Leased worker l x] =
    Ok (job\<lparr>job_state := S_Leased worker l x, job_version := job_version job + 1\<rparr>)"
  using assms by (cases "job_state job") (simp_all add: due_def apply_event_def advance_def)

lemma held_Ok: "from_events xs = Ok job \<Longrightarrow> held xs = held_lease (job_state job)"
  by (simp add: held_def)

lemma due_unleased: "due job queue now \<Longrightarrow> held_lease (job_state job) = None"
  by (auto simp: due_def held_lease_def split: JobState.splits)

lemma held_live: "held_lease st \<noteq> None \<Longrightarrow> live_state st"
  by (auto simp: held_lease_def live_state_def split: JobState.splits)

lemma retire_state_unleased:
  assumes "expire_lease C job now seed = Ok evs" and "apply_all job evs = Ok job'"
  shows "held_lease (job_state job') = None"
proof -
  have "held_lease (retry_state ev) = None" for ev :: "'a JobEvent"
    by (auto simp: retry_state_def held_lease_def split: JobEvent.splits)
  with expire_lease_applies [OF assms(1)] assms(2) show ?thesis
    by auto
qed

definition leased_job_of ::
  "JobId \<Rightarrow> 'v Job \<Rightarrow> 'v stream \<Rightarrow> LeaseId \<Rightarrow> date_time \<Rightarrow> 'v LeasedJob" where
  "leased_job_of k job xs l x =
     \<lparr>lj_job_id = k, lj_queue = job_queue job, lj_payload = job_payload job, lj_attempt = job_attempt job,
      lj_lease = l, lj_expires_at = x, lj_correlation_id = fst (lineage_of xs),
      lj_traceparent = snd (snd (lineage_of xs))\<rparr>"

text \<open>
  What \<open>Dispatcher\<close> promises (ADRs 0011 and 0016), over the recorded streams alone: a claim
  records one \<open>leased\<close> event on an unleased job, an extension records nothing, a retirement
  records the expiry and its verdict on a leased job and leaves that job unleased.
\<close>

locale dispatcher_contract =
  fixes D :: "('w, 'v) dispatcher"
    and winv :: "'w \<Rightarrow> bool"
    and whist :: "'w \<Rightarrow> JobId \<Rightarrow> 'v stream"
  assumes finite_held: "winv w \<Longrightarrow> finite {j. held (whist w j) \<noteq> None}"
    and claim_Some: "winv w \<Longrightarrow> lease_next D q worker ttl w = (Ok (Some lj), w') \<Longrightarrow>
      winv w' \<and> held (whist w (lj_job_id lj)) = None \<and> held (whist w' (lj_job_id lj)) = Some (lj_lease lj)
      \<and> (\<exists>e. env_event e = E_Leased worker (lj_lease lj) (lj_expires_at lj)
            \<and> whist w' = (whist w)(lj_job_id lj := whist w (lj_job_id lj) @ [e]))"
    and claim_None: "winv w \<Longrightarrow> lease_next D q worker ttl w = (Ok None, w') \<Longrightarrow> winv w' \<and> whist w' = whist w"
    and claim_Err: "winv w \<Longrightarrow> lease_next D q worker ttl w = (Err x, w') \<Longrightarrow> winv w' \<and> whist w' = whist w"
    and extend_Ok: "winv w \<Longrightarrow> extend_lease D l ttl w = (Ok b, w') \<Longrightarrow>
      winv w' \<and> whist w' = whist w \<and> (b \<longrightarrow> (\<exists>j. held (whist w j) = Some l))"
    and retire_Some: "winv w \<Longrightarrow> retire_next_expired_lease D w = (Ok (Some j), w') \<Longrightarrow>
      winv w' \<and> held (whist w j) \<noteq> None \<and> held (whist w' j) = None
      \<and> (\<exists>es. whist w' = (whist w)(j := whist w j @ es))"
    and retire_None: "winv w \<Longrightarrow> retire_next_expired_lease D w = (Ok None, w') \<Longrightarrow> winv w' \<and> whist w' = whist w"
    and retire_Err: "winv w \<Longrightarrow> retire_next_expired_lease D w = (Err x, w') \<Longrightarrow> winv w' \<and> whist w' = whist w"
begin

text \<open>The number of leased jobs: what a retirement lowers and a claim raises by one.\<close>

definition lease_count :: "'w \<Rightarrow> nat" where
  "lease_count w = card {j. held (whist w j) \<noteq> None}"

lemma retire_count:
  assumes "winv w" and "retire_next_expired_lease D w = (Ok (Some j), w')"
  shows "winv w' \<and> lease_count w = Suc (lease_count w')"
proof -
  note r = retire_Some [OF assms]
  then have "{i. held (whist w i) \<noteq> None} = insert j {i. held (whist w' i) \<noteq> None}"
      and "held (whist w' j) = None"
    by (auto split: if_splits)
  moreover have "finite {i. held (whist w' i) \<noteq> None}"
    using r finite_held by blast
  ultimately show ?thesis
    using r by (simp add: lease_count_def)
qed

end

end
