(* ===== verification/Koine_Use_Cases.thy ===== *)
theory Koine_Use_Cases
  imports Koine_Ports
begin

text \<open>
  The use cases of \<open>koine-application/src/use_cases\<close>: enqueue, worker acks, cancel, lease,
  heartbeat and sweep.  Each is a function of the ports and of the pair of the store's state
  and the runtime's state.  The acks are split at their await point: \<open>ack_load\<close> reads the
  stream, and the \<open>_loaded\<close> part computes and appends, so that other clients' appends can be
  placed in between.  The lemmas are proved once, for any store that keeps the contract.
\<close>

section \<open>Enqueue\<close>

datatype EnqueueError = InvalidPolicy string | EnqueueStore EventStoreError

definition MAX_SANE_DELAY :: duration where
  "MAX_SANE_DELAY = from_secs (60 * 60 * 24 * 30)"

definition MAX_SANE_ATTEMPTS :: u32 where
  "MAX_SANE_ATTEMPTS = 10000"

definition validate_policy :: "RetryPolicy \<Rightarrow> (unit, EnqueueError) outcome" where
  "validate_policy policy =
     (if max_attempts policy = 0 then Err (InvalidPolicy ''max_attempts must be >= 1'')
      else if max_attempts policy > MAX_SANE_ATTEMPTS then Err (InvalidPolicy ''max_attempts above sane ceiling'')
      else if base_delay policy > max_delay policy then Err (InvalidPolicy ''base_delay exceeds max_delay'')
      else if max_delay policy > MAX_SANE_DELAY then Err (InvalidPolicy ''max_delay above 30-day ceiling'')
      else Ok ())"

record 'v EnqueueCommand =
  cmd_queue :: QueueName
  cmd_payload :: 'v
  cmd_priority :: Priority
  cmd_retry_policy :: RetryPolicy
  cmd_not_before :: "date_time option"
  cmd_lineage :: Lineage

definition enqueue_execute ::
  "('s, 'v) event_store \<Rightarrow> 'e runtime \<Rightarrow> 'v EnqueueCommand \<Rightarrow> 's \<times> 'e
   \<Rightarrow> (JobId, EnqueueError) outcome \<times> 's \<times> 'e" where
  "enqueue_execute S rt cmd w =
     (let (s, e) = w in
      case validate_policy (cmd_retry_policy cmd) of
        Err x \<Rightarrow> (Err x, s, e)
      | Panic \<Rightarrow> (Panic, s, e)
      | Ok _ \<Rightarrow>
          let (jid, e) = new_job_id rt e;
              (correlation, e) = (case lin_correlation_id (cmd_lineage cmd) of
                                    Some c \<Rightarrow> (c, e)
                                  | None \<Rightarrow> new_correlation_id rt e);
              event = initial_event (cmd_queue cmd) (cmd_payload cmd) (cmd_priority cmd)
                        (cmd_retry_policy cmd) (cmd_not_before cmd);
              (envelopes, e) = wrap_events rt jid 0 correlation
                        (lin_causation_id (cmd_lineage cmd)) (lin_traceparent (cmd_lineage cmd)) [event] e;
              (r, s) = es_append S jid 0 envelopes s
          in (and_then (map_err EnqueueStore r) (\<lambda>_. Ok jid), s, e))"

section \<open>Worker acks\<close>

datatype AckError = AckStore EventStoreError | AckDomain DomainError

datatype AckOutcome = Recorded | Conflict

definition ack_load ::
  "('s, 'v) event_store \<Rightarrow> JobId \<Rightarrow> 's \<Rightarrow> ('v Job \<times> 'v stream, AckError) outcome" where
  "ack_load S jid s =
     and_then (map_err AckStore (es_load S jid s)) (\<lambda>stream.
     and_then (map_err AckDomain (from_events stream)) (\<lambda>job.
       Ok (job, stream)))"

definition ack_append ::
  "('s, 'v) event_store \<Rightarrow> 'e runtime \<Rightarrow> 'v Job \<Rightarrow> 'v stream \<Rightarrow> 'v JobEvent list \<Rightarrow> 's \<times> 'e
   \<Rightarrow> (unit, EventStoreError) outcome \<times> 's \<times> 'e" where
  "ack_append S rt job stream events w =
     (let (s, e) = w;
          (correlation, causation, traceparent) = lineage_of stream;
          (envelopes, e) = wrap_events rt (job_id job) (job_version job) correlation causation traceparent events e;
          (r, s) = es_append S (job_id job) (job_version job) envelopes s
      in (r, s, e))"

definition record_conflict ::
  "('s, 'v) event_store \<Rightarrow> 'e runtime \<Rightarrow> 'v Job \<Rightarrow> 'v stream \<Rightarrow> WorkerId \<Rightarrow> LeaseId \<Rightarrow> ReportedOutcome
   \<Rightarrow> 's \<times> 'e \<Rightarrow> (unit, EventStoreError) outcome \<times> 's \<times> 'e" where
  "record_conflict S rt job stream worker lease_id reported w =
     ack_append S rt job stream [late_ack worker lease_id reported] w"

text \<open>The reply of an ack whose append returned \<open>r\<close>.\<close>

definition ack_reply ::
  "'a \<Rightarrow> (unit, EventStoreError) outcome \<times> 's \<times> 'e \<Rightarrow> ('a, AckError) outcome \<times> 's \<times> 'e" where
  "ack_reply a rw = (and_then (map_err AckStore (fst rw)) (\<lambda>_. Ok a), snd rw)"

definition ack_start_loaded ::
  "('s, 'v) event_store \<Rightarrow> 'e runtime \<Rightarrow> 'v Job \<Rightarrow> 'v stream \<Rightarrow> WorkerId \<Rightarrow> 's \<times> 'e
   \<Rightarrow> (unit, AckError) outcome \<times> 's \<times> 'e" where
  "ack_start_loaded S rt job stream worker w =
     (case start job worker of
        Ok event \<Rightarrow> ack_reply () (ack_append S rt job stream [event] w)
      | Err x \<Rightarrow> (Err (AckDomain x), w)
      | Panic \<Rightarrow> (Panic, w))"

definition ack_succeed_loaded ::
  "('s, 'v) event_store \<Rightarrow> 'e runtime \<Rightarrow> 'v Job \<Rightarrow> 'v stream \<Rightarrow> WorkerId \<Rightarrow> LeaseId \<Rightarrow> 'v option \<Rightarrow> 's \<times> 'e
   \<Rightarrow> (AckOutcome, AckError) outcome \<times> 's \<times> 'e" where
  "ack_succeed_loaded S rt job stream worker lease_id result w =
     (case succeed job lease_id result of
        Ok event \<Rightarrow> ack_reply Recorded (ack_append S rt job stream [event] w)
      | Err _ \<Rightarrow> ack_reply Conflict (record_conflict S rt job stream worker lease_id ReportedSucceeded w)
      | Panic \<Rightarrow> (Panic, w))"

definition ack_fail_loaded ::
  "chrono \<Rightarrow> ('s, 'v) event_store \<Rightarrow> 'e runtime \<Rightarrow> 'v Job \<Rightarrow> 'v stream \<Rightarrow> WorkerId \<Rightarrow> LeaseId \<Rightarrow> JobError
   \<Rightarrow> 's \<times> 'e \<Rightarrow> (AckOutcome, AckError) outcome \<times> 's \<times> 'e" where
  "ack_fail_loaded C S rt job stream worker lease_id error w =
     (let (s, e) = w;
          (now, e) = clock_now rt e;
          (seed, e) = jitter_seed rt e
      in case fail C job lease_id error now seed of
           Ok events \<Rightarrow> ack_reply Recorded (ack_append S rt job stream events (s, e))
         | Err _ \<Rightarrow> ack_reply Conflict (record_conflict S rt job stream worker lease_id ReportedFailed (s, e))
         | Panic \<Rightarrow> (Panic, s, e))"

text \<open>The \<open>?\<close> after the load.\<close>

definition ack_loaded ::
  "('s, 'v) event_store \<Rightarrow> JobId \<Rightarrow> ('v Job \<Rightarrow> 'v stream \<Rightarrow> 's \<times> 'e \<Rightarrow> ('a, AckError) outcome \<times> 's \<times> 'e)
   \<Rightarrow> 's \<times> 'e \<Rightarrow> ('a, AckError) outcome \<times> 's \<times> 'e" where
  "ack_loaded S jid k w =
     (case ack_load S jid (fst w) of
        Ok (job, stream) \<Rightarrow> k job stream w
      | Err x \<Rightarrow> (Err x, w)
      | Panic \<Rightarrow> (Panic, w))"

definition ack_start ::
  "('s, 'v) event_store \<Rightarrow> 'e runtime \<Rightarrow> JobId \<Rightarrow> WorkerId \<Rightarrow> 's \<times> 'e \<Rightarrow> (unit, AckError) outcome \<times> 's \<times> 'e" where
  "ack_start S rt jid worker =
     ack_loaded S jid (\<lambda>job stream. ack_start_loaded S rt job stream worker)"

definition ack_succeed ::
  "('s, 'v) event_store \<Rightarrow> 'e runtime \<Rightarrow> JobId \<Rightarrow> WorkerId \<Rightarrow> LeaseId \<Rightarrow> 'v option \<Rightarrow> 's \<times> 'e
   \<Rightarrow> (AckOutcome, AckError) outcome \<times> 's \<times> 'e" where
  "ack_succeed S rt jid worker lease_id result =
     ack_loaded S jid (\<lambda>job stream. ack_succeed_loaded S rt job stream worker lease_id result)"

definition ack_fail ::
  "chrono \<Rightarrow> ('s, 'v) event_store \<Rightarrow> 'e runtime \<Rightarrow> JobId \<Rightarrow> WorkerId \<Rightarrow> LeaseId \<Rightarrow> JobError \<Rightarrow> 's \<times> 'e
   \<Rightarrow> (AckOutcome, AckError) outcome \<times> 's \<times> 'e" where
  "ack_fail C S rt jid worker lease_id error =
     ack_loaded S jid (\<lambda>job stream. ack_fail_loaded C S rt job stream worker lease_id error)"

section \<open>Cancel\<close>

definition cancel_loaded ::
  "('s, 'v) event_store \<Rightarrow> 'e runtime \<Rightarrow> 'v Job \<Rightarrow> 'v stream \<Rightarrow> rstring option \<Rightarrow> 's \<times> 'e
   \<Rightarrow> (unit, AckError) outcome \<times> 's \<times> 'e" where
  "cancel_loaded S rt job stream reason w =
     (case cancel job reason of
        Ok event \<Rightarrow>
          let (s, e) = w;
              (correlation, causation, traceparent) = lineage_of stream;
              (envelopes, e) = wrap_events rt (job_id job) (job_version job) correlation causation traceparent [event] e;
              (r, s) = es_append S (job_id job) (job_version job) envelopes s
          in (map_err AckStore r, s, e)
      | Err x \<Rightarrow> (Err (AckDomain x), w)
      | Panic \<Rightarrow> (Panic, w))"

definition cancel_execute ::
  "('s, 'v) event_store \<Rightarrow> 'e runtime \<Rightarrow> JobId \<Rightarrow> rstring option \<Rightarrow> 's \<times> 'e \<Rightarrow> (unit, AckError) outcome \<times> 's \<times> 'e"
where
  "cancel_execute S rt jid reason =
     ack_loaded S jid (\<lambda>job stream. cancel_loaded S rt job stream reason)"

section \<open>Lease, heartbeat, sweep\<close>

definition lease_execute ::
  "('w, 'v) dispatcher \<Rightarrow> QueueName \<Rightarrow> WorkerId \<Rightarrow> duration \<Rightarrow> 'w
   \<Rightarrow> ('v LeasedJob option, DispatchError) outcome \<times> 'w" where
  "lease_execute D queue worker ttl = lease_next D queue worker ttl"

definition heartbeat_execute ::
  "('w, 'v) dispatcher \<Rightarrow> LeaseId \<Rightarrow> duration \<Rightarrow> 'w \<Rightarrow> (bool, DispatchError) outcome \<times> 'w" where
  "heartbeat_execute D lease_id ttl = extend_lease D lease_id ttl"

datatype SweepError = SweepDispatch DispatchError

partial_function (option) sweep_loop ::
  "('w, 'v) dispatcher \<Rightarrow> u32 \<Rightarrow> 'w \<Rightarrow> ((u32, SweepError) outcome \<times> 'w) option" where
  "sweep_loop D swept w =
     (case retire_next_expired_lease D w of
        (Ok (Some _), w') \<Rightarrow> sweep_loop D (swept + 1) w'
      | (Ok None, w') \<Rightarrow> Some (Ok swept, w')
      | (Err x, w') \<Rightarrow> Some (Err (SweepDispatch x), w')
      | (Panic, w') \<Rightarrow> Some (Panic, w'))"

declare sweep_loop.simps [code]

definition sweep_execute ::
  "('w, 'v) dispatcher \<Rightarrow> 'w \<Rightarrow> ((u32, SweepError) outcome \<times> 'w) option" where
  "sweep_execute D w = sweep_loop D 0 w"

text \<open>What every retirement respects, the sweep respects.\<close>

lemma sweep_loop_rel:
  fixes D :: "('w, 'v) dispatcher"
  assumes "sweep_loop D n w = Some (r, w')" and step: "\<And>w. R w (snd (retire_next_expired_lease D w))"
    and trans: "\<And>u v w. R u v \<Longrightarrow> R v w \<Longrightarrow> R u w"
  shows "R w w'"
proof -
  define P where "P D' (n :: u32) w y \<longleftrightarrow> (D' = D \<longrightarrow> R w (snd y))"
    for D' :: "('w, 'v) dispatcher" and n w and y :: "(u32, SweepError) outcome \<times> 'w"
  have "P D n w (r, w')"
  proof (rule sweep_loop.raw_induct [OF _ assms(1)])
    fix f D' n w y
    assume IH: "\<And>D' n w y. f D' n w = Some y \<Longrightarrow> P D' n w y"
      and body: "(case retire_next_expired_lease D' w of
          (Ok None, w') \<Rightarrow> Some (Ok n, w') | (Ok (Some x), w') \<Rightarrow> f D' (n + 1) w'
        | (Err x, w') \<Rightarrow> Some (Err (SweepDispatch x), w') | (Panic, w') \<Rightarrow> Some (Panic, w')) = Some y"
    obtain r1 w1 where r1: "retire_next_expired_lease D' w = (r1, w1)" by (metis surj_pair)
    have R: "R w w1" if "D' = D" using step [of w] r1 that by simp
    show "P D' n w y"
    proof (cases "\<exists>j. r1 = Ok (Some j)")
      case True
      with body r1 have "P D' (n + 1) w1 y" by (intro IH) auto
      with R trans show ?thesis by (auto simp: P_def)
    next
      case False
      with body r1 have "snd y = w1" by (auto split: outcome.splits option.splits)
      with R show ?thesis by (auto simp: P_def)
    qed
  qed
  then show ?thesis by (simp add: P_def)
qed

section \<open>What an append records\<close>

text \<open>
  \<open>extends h j evs h'\<close>: the histories \<open>h'\<close> are \<open>h\<close> with the events \<open>evs\<close> recorded at the
  end of stream \<open>j\<close>, in envelopes that carry the stream's lineage and the next versions.
\<close>

definition extends ::
  "(JobId \<Rightarrow> 'v stream) \<Rightarrow> JobId \<Rightarrow> 'v JobEvent list \<Rightarrow> (JobId \<Rightarrow> 'v stream) \<Rightarrow> bool" where
  "extends h j evs h' \<longleftrightarrow>
     (let (corr, caus, trace) = lineage_of (h j)
      in \<exists>es. h' = h(j := h j @ es) \<and> wrapped j (of_nat (length (h j))) corr caus trace evs es)"

lemma extends_events:
  assumes "extends h j evs h'"
  obtains es where "h' = h(j := h j @ es)" "map env_event es = evs"
  using assms by (auto simp: extends_def dest: wrappedD(1) split: prod.splits)

definition runs_under :: "'v Job \<Rightarrow> LeaseId \<Rightarrow> bool" where
  "runs_under job l \<longleftrightarrow> (case job_state job of S_Running _ l' _ \<Rightarrow> l' = l | _ \<Rightarrow> False)"

definition leased_to :: "'v Job \<Rightarrow> WorkerId \<Rightarrow> bool" where
  "leased_to job worker \<longleftrightarrow> (case job_state job of S_Leased w _ _ \<Rightarrow> w = worker | _ \<Rightarrow> False)"

lemma succeed_by_lease:
  "succeed job l res =
     (if runs_under job l then Ok (E_Succeeded res)
      else if \<exists>w l' x. job_state job = S_Running w l' x then Err LeaseMismatch
      else Err (IllegalTransition (state_name (job_state job)) ''succeeded''))"
  by (auto simp: succeed_def runs_under_def split: JobState.splits)

lemma start_by_holder:
  "start job w =
     (if leased_to job w then Ok (E_Started w)
      else if \<exists>w' l' x. job_state job = S_Leased w' l' x then Err LeaseMismatch
      else Err (IllegalTransition (state_name (job_state job)) ''started''))"
  by (auto simp: start_def leased_to_def split: JobState.splits)

lemma late_ack_applies: "\<exists>job'. apply_all job [late_ack w l r] = Ok job'"
  by (simp add: late_ack_def advance_def)

lemma fail_not_runs: "\<not> runs_under job l \<Longrightarrow> \<exists>x. fail C job l err now seed = Err x"
  by (auto simp: fail_def runs_under_def split: JobState.splits)

lemma ack_reply_eq [simp]:
  "ack_reply a (Ok u, w) = (Ok a, w)" "ack_reply a (Err x, w) = (Err (AckStore x), w)"
  by (simp_all add: ack_reply_def)

lemma cancel_loaded_eq:
  "cancel_loaded S rt job stream reason w =
     (case cancel job reason of
        Ok event \<Rightarrow> ack_reply () (ack_append S rt job stream [event] w)
      | Err x \<Rightarrow> (Err (AckDomain x), w)
      | Panic \<Rightarrow> (Panic, w))"
proof -
  have "map_err AckStore r = and_then (map_err AckStore r) (\<lambda>_. Ok ())" for r :: "(unit, EventStoreError) outcome"
    by (cases r) simp_all
  then show ?thesis
    by (simp add: cancel_loaded_def ack_append_def ack_reply_def Let_def split: outcome.split prod.split)
qed

context event_store_contract
begin

lemma ack_append_stale:
  assumes "inv s" and "from_events xs = Ok job" and "job_id job = j"
    and "hist s j = xs @ ys" and "ys \<noteq> []" and "length (hist s j) < 2 ^ 63"
  shows "\<exists>e'. ack_append S rt job xs evs (s, e) = (Err (VersionConflict j (job_version job)), s, e')"
proof -
  have "unat (job_version job) \<noteq> length (hist s j)"
    using from_events_frame [OF assms(2)] assms(4-6) by (simp add: unat_of_nat_small)
  note st = append_stale [OF assms(1,6) this]
  show ?thesis
    by (simp add: ack_append_def assms(3) Let_def st split: prod.split)
qed

lemma ack_load_known:
  assumes "inv s" and "from_events (hist s j) = Ok job"
  shows "ack_load S j s = Ok (job, hist s j)"
  using assms from_events_frame [OF assms(2)] by (simp add: ack_load_def load_law)

lemma ack_loaded_known:
  assumes "inv s" and "from_events (hist s j) = Ok job"
  shows "ack_loaded S j k (s, e) = k job (hist s j) (s, e)"
  using ack_load_known [OF assms] by (simp add: ack_loaded_def)

lemma ack_loaded_unknown:
  assumes "inv s" and "hist s j = []"
  shows "ack_loaded S j k (s, e) = (Err (AckStore (StreamNotFound j)), s, e)"
  using assms by (simp add: ack_loaded_def ack_load_def load_law)

lemma known_job_id:
  assumes "inv s" and "from_events (hist s j) = Ok job"
  shows "job_id job = j"
  using assms from_events_frame [OF assms(2)] hist_folds [OF assms(1), of j] by auto

end

context exact_store
begin

lemma ack_append_current:
  assumes "inv s" and "from_events (hist s j) = Ok job" and "job_id job = j"
    and "length (hist s j) < 2 ^ 64" and "apply_all job evs = Ok job'"
    and "\<And>es. storable s j es"
  obtains s' e' where "ack_append S rt job (hist s j) evs (s, e) = (Ok (), s', e')" "inv s'"
    "extends (hist s) j evs (hist s')" "from_events (hist s' j) = Ok job'"
proof -
  obtain corr caus trace where lin: "lineage_of (hist s j) = (corr, caus, trace)"
    by (cases "lineage_of (hist s j)") auto
  let ?v = "of_nat (length (hist s j)) :: u64"
  have v: "job_version job = ?v"
    using from_events_frame [OF assms(2)] by simp
  obtain es e' where es: "wrap_events rt j ?v corr caus trace evs e = (es, e')"
    by fastforce
  note w = wrap_events_wrapped [OF es]
  have fold: "from_events (hist s j @ es) = Ok job'"
    using assms(2,5) wrappedD(1,2) [OF w] by (simp add: from_events_snoc_cases v)
  have "unat ?v = length (hist s j)"
    using assms(4) by (simp add: unat_of_nat_small)
  then obtain s' where s': "es_append S j ?v es s = (Ok (), s')"
    using append_accepts [OF assms(1) _ wrappedD(2) [OF w] wrappedD(4) [OF w] fold assms(6)] by blast
  from append_Ok [OF assms(1) s'] have inv': "inv s'" by blast
  note hist' = append_exact [OF assms(1) s']
  have "ack_append S rt job (hist s j) evs (s, e) = (Ok (), s', e')"
    by (simp add: ack_append_def lin assms(3) v es s')
  moreover have "extends (hist s) j evs (hist s')"
    using w hist' by (auto simp: extends_def lin)
  moreover have "from_events (hist s' j) = Ok job'"
    using fold by (simp add: hist')
  ultimately show thesis
    using inv' by (intro that) auto
qed

text \<open>
  The acks on a known job.  A report under the running lease is recorded as reported; any
  other report is recorded as a conflict that leaves the job's state alone.
\<close>

lemma record_conflict_current:
  assumes "inv s" and "from_events (hist s j) = Ok job" and "length (hist s j) < 2 ^ 64"
    and "\<And>es. storable s j es"
  obtains s' e' where "record_conflict S rt job (hist s j) worker l r (s, e) = (Ok (), s', e')" "inv s'"
    "extends (hist s) j [E_LateAckConflict worker l r] (hist s')"
    "from_events (hist s' j) = Ok (job\<lparr>job_version := job_version job + 1\<rparr>)"
proof -
  have app: "apply_all job [late_ack worker l r] = Ok (job\<lparr>job_version := job_version job + 1\<rparr>)"
    by (simp add: late_ack_def advance_def)
  show thesis
    by (rule ack_append_current [OF assms(1,2) known_job_id [OF assms(1,2)] assms(3) app assms(4), of rt e])
       (rule that, simp_all add: record_conflict_def late_ack_def)
qed

lemma ack_succeed_known:
  assumes "inv s" and "from_events (hist s j) = Ok job" and "length (hist s j) < 2 ^ 64"
    and "\<And>es. storable s j es"
  shows "\<exists>s' e' job'. ack_succeed S rt j worker l res (s, e) =
      (Ok (if runs_under job l then Recorded else Conflict), s', e') \<and> inv s'
    \<and> extends (hist s) j
        [if runs_under job l then E_Succeeded res else E_LateAckConflict worker l ReportedSucceeded] (hist s')
    \<and> from_events (hist s' j) = Ok job'
    \<and> job_state job' = (if runs_under job l then S_Succeeded else job_state job)
    \<and> job_attempt job' = job_attempt job"
proof (cases "runs_under job l")
  case True
  let ?job' = "job\<lparr>job_state := S_Succeeded, job_version := job_version job + 1\<rparr>"
  from True have app: "apply_all job [E_Succeeded res] = Ok ?job'"
    by (auto simp: runs_under_def apply_event_def advance_def split: JobState.splits)
  obtain s' e' where "ack_append S rt job (hist s j) [E_Succeeded res] (s, e) = (Ok (), s', e')"
      "inv s'" "extends (hist s) j [E_Succeeded res] (hist s')" "from_events (hist s' j) = Ok ?job'"
    by (rule ack_append_current [OF assms(1,2) known_job_id [OF assms(1,2)] assms(3) app assms(4)])
  with True show ?thesis
    by (simp add: ack_succeed_def ack_loaded_known [OF assms(1,2)] ack_succeed_loaded_def succeed_by_lease)
next
  case False
  obtain s' e' where "record_conflict S rt job (hist s j) worker l ReportedSucceeded (s, e) = (Ok (), s', e')"
      "inv s'" "extends (hist s) j [E_LateAckConflict worker l ReportedSucceeded] (hist s')"
      "from_events (hist s' j) = Ok (job\<lparr>job_version := job_version job + 1\<rparr>)"
    by (rule record_conflict_current [OF assms])
  with False show ?thesis
    by (simp add: ack_succeed_def ack_loaded_known [OF assms(1,2)] ack_succeed_loaded_def succeed_by_lease)
qed

lemma ack_fail_known:
  assumes "inv s" and "from_events (hist s j) = Ok job" and "length (hist s j) < 2 ^ 64"
    and "\<And>es. storable s j es"
    and "clock_now rt e = (now, e1)" and "jitter_seed rt e1 = (seed, e2)"
  shows "\<exists>s' e' job'. ack_fail C S rt j worker l err (s, e) =
      (Ok (if is_ok (fail C job l err now seed) then Recorded else Conflict), s', e') \<and> inv s'
    \<and> extends (hist s) j
        (case fail C job l err now seed of Ok evs \<Rightarrow> evs | _ \<Rightarrow> [E_LateAckConflict worker l ReportedFailed]) (hist s')
    \<and> from_events (hist s' j) = Ok job'
    \<and> (if is_ok (fail C job l err now seed) then job_attempt job' = job_attempt job + 1
        else job_state job' = job_state job \<and> job_attempt job' = job_attempt job)"
proof (cases "fail C job l err now seed")
  case (Ok evs)
  from fail_applies [OF Ok] obtain job' where app: "apply_all job evs = Ok job'"
      and att: "job_attempt job' = job_attempt job + 1" by auto
  obtain s' e' where "ack_append S rt job (hist s j) evs (s, e2) = (Ok (), s', e')"
      "inv s'" "extends (hist s) j evs (hist s')" "from_events (hist s' j) = Ok job'"
    by (rule ack_append_current [OF assms(1,2) known_job_id [OF assms(1,2)] assms(3) app assms(4)])
  with Ok att show ?thesis
    by (simp add: ack_fail_def ack_loaded_known [OF assms(1,2)] ack_fail_loaded_def assms(5,6))
next
  case (Err x)
  obtain s' e' where "record_conflict S rt job (hist s j) worker l ReportedFailed (s, e2) = (Ok (), s', e')"
      "inv s'" "extends (hist s) j [E_LateAckConflict worker l ReportedFailed] (hist s')"
      "from_events (hist s' j) = Ok (job\<lparr>job_version := job_version job + 1\<rparr>)"
    by (rule record_conflict_current [OF assms(1-4)])
  with Err show ?thesis
    by (simp add: ack_fail_def ack_loaded_known [OF assms(1,2)] ack_fail_loaded_def assms(5,6))
qed simp

lemma ack_start_known:
  assumes "inv s" and "from_events (hist s j) = Ok job" and "length (hist s j) < 2 ^ 64"
    and "\<And>es. storable s j es" and "job_state job = S_Leased worker l x"
  shows "\<exists>s' e' job'. ack_start S rt j worker (s, e) = (Ok (), s', e') \<and> inv s'
    \<and> extends (hist s) j [E_Started worker] (hist s')
    \<and> from_events (hist s' j) = Ok job' \<and> job_state job' = S_Running worker l x"
proof -
  let ?job' = "job\<lparr>job_state := S_Running worker l x, job_version := job_version job + 1\<rparr>"
  have app: "apply_all job [E_Started worker] = Ok ?job'"
    using assms(5) by (simp add: apply_event_def advance_def)
  obtain s' e' where "ack_append S rt job (hist s j) [E_Started worker] (s, e) = (Ok (), s', e')"
      "inv s'" "extends (hist s) j [E_Started worker] (hist s')" "from_events (hist s' j) = Ok ?job'"
    by (rule ack_append_current [OF assms(1,2) known_job_id [OF assms(1,2)] assms(3) app assms(4)])
  with assms(5) show ?thesis
    by (simp add: ack_start_def ack_loaded_known [OF assms(1,2)] ack_start_loaded_def start_def)
qed

lemma cancel_known:
  assumes "inv s" and "from_events (hist s j) = Ok job" and "length (hist s j) < 2 ^ 64"
    and "\<And>es. storable s j es"
  shows "if job_state job \<in> {S_Succeeded, S_Cancelled}
    then cancel_execute S rt j reason (s, e) =
      (Err (AckDomain (IllegalTransition (state_name (job_state job)) ''cancelled'')), s, e)
    else \<exists>s' e' job'. cancel_execute S rt j reason (s, e) = (Ok (), s', e') \<and> inv s'
      \<and> extends (hist s) j [E_Cancelled reason] (hist s')
      \<and> from_events (hist s' j) = Ok job' \<and> job_state job' = S_Cancelled"
proof (cases "job_state job \<in> {S_Succeeded, S_Cancelled}")
  case True
  then show ?thesis
    by (auto simp: cancel_execute_def ack_loaded_known [OF assms(1,2)] cancel_loaded_def cancel_def)
next
  case False
  let ?job' = "job\<lparr>job_state := S_Cancelled, job_version := job_version job + 1\<rparr>"
  from False have c: "cancel job reason = Ok (E_Cancelled reason)"
    by (simp add: cancel_eq_Ok)
  then have app: "apply_all job [E_Cancelled reason] = Ok ?job'"
    using single_commands_apply(4) [OF c] by (simp add: advance_def)
  obtain s' e' where "ack_append S rt job (hist s j) [E_Cancelled reason] (s, e) = (Ok (), s', e')"
      "inv s'" "extends (hist s) j [E_Cancelled reason] (hist s')" "from_events (hist s' j) = Ok ?job'"
    by (rule ack_append_current [OF assms(1,2) known_job_id [OF assms(1,2)] assms(3) app assms(4)])
  with False c show ?thesis
    by (simp add: cancel_execute_def ack_loaded_known [OF assms(1,2)] cancel_loaded_eq)
qed

end

lemma validate_policy_eq_Ok:
  "validate_policy p = Ok u \<longleftrightarrow>
     1 \<le> max_attempts p \<and> max_attempts p \<le> MAX_SANE_ATTEMPTS \<and> base_delay p \<le> max_delay p
     \<and> max_delay p \<le> MAX_SANE_DELAY"
proof -
  have "max_attempts p \<noteq> 0 \<longleftrightarrow> 1 \<le> max_attempts p"
    by (simp add: word_le_nat_alt Suc_le_eq unat_gt_0)
  then show ?thesis
    by (auto simp: validate_policy_def)
qed

lemma validate_policy_not_Panic [simp]: "validate_policy p \<noteq> Panic"
  by (simp add: validate_policy_def)

text \<open>The \<open>enqueued\<close> event of a command and the job it opens.\<close>

definition command_event :: "'v EnqueueCommand \<Rightarrow> 'v JobEvent" where
  "command_event cmd = initial_event (cmd_queue cmd) (cmd_payload cmd) (cmd_priority cmd)
     (cmd_retry_policy cmd) (cmd_not_before cmd)"

definition command_job :: "'v EnqueueCommand \<Rightarrow> JobId \<Rightarrow> 'v Job" where
  "command_job cmd jid =
     \<lparr>job_id = jid, job_queue = cmd_queue cmd, job_priority = cmd_priority cmd,
      job_payload = cmd_payload cmd, job_retry_policy = cmd_retry_policy cmd, job_attempt = 0,
      job_state = S_Pending (cmd_not_before cmd), job_version = 1\<rparr>"

lemma command_event_exact: "exact_event (command_event cmd)"
  by (simp add: command_event_def initial_event_def exact_event_def split: option.split)

lemma command_event_opens:
  assumes "wrapped jid 0 corr caus trace [command_event cmd] es"
  shows "\<exists>env. es = [env] \<and> env_event env = command_event cmd
    \<and> from_events es = Ok (command_job cmd jid) \<and> env_correlation_id env = corr
    \<and> env_causation_id env = caus \<and> env_traceparent env = trace"
  using assms
  by (cases es)
     (auto simp: wrapped_def command_event_def command_job_def initial_event_def from_events_def)

lemma wrapped_lineage:
  "wrapped j v corr caus trace evs es \<Longrightarrow> e \<in> set es \<Longrightarrow>
     env_stream_id e = j \<and> env_correlation_id e = corr \<and> env_causation_id e = caus \<and> env_traceparent e = trace"
  by (auto simp: wrapped_def list_all_iff)

text \<open>
  Optimistic concurrency at the await point.  A commit computed from an earlier reading of the
  stream is exactly the atomic use case when nothing was recorded in between, and a version
  conflict that changes nothing otherwise.
\<close>

definition commits_or_conflicts ::
  "JobId \<Rightarrow> u64 \<Rightarrow> bool \<Rightarrow> ('a, AckError) outcome \<times> 's \<times> 'e \<Rightarrow> ('a, AckError) outcome \<times> 's \<times> 'e \<Rightarrow> 's \<Rightarrow> bool"
where
  "commits_or_conflicts j v current r atomic s \<longleftrightarrow>
     (if current then r = atomic
      else fst r = Err (AckStore (VersionConflict j v)) \<and> fst (snd r) = s)"

context event_store_contract
begin

lemma enqueue_invalid:
  assumes "validate_policy (cmd_retry_policy cmd) = Err x"
  shows "enqueue_execute S rt cmd (s, e) = (Err x, s, e)"
  by (simp add: enqueue_execute_def assms)

text \<open>
  A valid command opens a stream under the generated id when that id is new, and changes
  nothing when the id is taken.
\<close>

lemma enqueue_valid:
  assumes "inv s" and "validate_policy (cmd_retry_policy cmd) = Ok ()"
    and "new_job_id rt e = (jid, e1)" and "length (hist s jid) < 2 ^ 63" and "\<And>es. storable s jid es"
  shows "if hist s jid = []
    then \<exists>s' e' env. enqueue_execute S rt cmd (s, e) = (Ok jid, s', e') \<and> inv s'
      \<and> hist s' = (hist s)(jid := [env]) \<and> env_event env = command_event cmd
      \<and> from_events (hist s' jid) = Ok (command_job cmd jid)
      \<and> (\<forall>c. lin_correlation_id (cmd_lineage cmd) = Some c \<longrightarrow> env_correlation_id env = c)
      \<and> env_causation_id env = lin_causation_id (cmd_lineage cmd)
      \<and> env_traceparent env = lin_traceparent (cmd_lineage cmd)
    else \<exists>e'. enqueue_execute S rt cmd (s, e) = (Err (EnqueueStore (VersionConflict jid 0)), s, e')"
proof -
  define ce where "ce = (case lin_correlation_id (cmd_lineage cmd) of Some c \<Rightarrow> (c, e1) | None \<Rightarrow> new_correlation_id rt e1)"
  obtain corr e2 where ce': "ce = (corr, e2)" by (cases ce)
  obtain es e3 where es: "wrap_events rt jid 0 corr (lin_causation_id (cmd_lineage cmd))
      (lin_traceparent (cmd_lineage cmd)) [command_event cmd] e2 = (es, e3)" by fastforce
  have run: "enqueue_execute S rt cmd (s, e) =
      (let (r, s') = es_append S jid 0 es s in (and_then (map_err EnqueueStore r) (\<lambda>_. Ok jid), s', e3))"
    using es ce' by (simp add: enqueue_execute_def assms(2,3) command_event_def [symmetric] ce_def [symmetric])
  note w = wrap_events_wrapped [OF es]
  obtain env where env: "es = [env]" "env_event env = command_event cmd"
      "from_events es = Ok (command_job cmd jid)" "env_correlation_id env = corr"
      "env_causation_id env = lin_causation_id (cmd_lineage cmd)"
      "env_traceparent env = lin_traceparent (cmd_lineage cmd)"
    using command_event_opens [OF w] by blast
  have corr: "corr = c" if "lin_correlation_id (cmd_lineage cmd) = Some c" for c
    using that ce' by (simp add: ce_def)
  show ?thesis
  proof (cases "hist s jid = []")
    case True
    with append_accepts [OF assms(1) _ wrappedD(2) [OF w] wrappedD(4) [OF w] _ assms(5)] env(3)
    obtain s' where s': "es_append S jid 0 es s = (Ok (), s')"
      by auto
    have "enqueue_execute S rt cmd (s, e) = (Ok jid, s', e3)"
      by (simp add: run s')
    moreover obtain es' where s'_facts: "inv s'" "list_all2 kept_as es es'" "hist s' = (hist s)(jid := es')"
      using append_Ok [OF assms(1) s'] True by auto
    moreover obtain env' where "es' = [env']" "kept_as env env'"
      using s'_facts(2) by (auto simp: env(1) list_all2_Cons1)
    moreover have "from_events es' = Ok (command_job cmd jid)"
      using from_events_kept [OF s'_facts(2)] env(1-3) exact_event_keeps_payload [OF command_event_exact [of cmd]] by simp
    moreover have "env_event env' = env_event env"
      using kept_as_event [OF calculation(6)] by (simp add: env(2) kept_event_exact [OF command_event_exact [of cmd]])
    ultimately show ?thesis
      using True env corr by (auto simp: kept_asD)
  next
    case False
    then have "unat (0 :: u64) \<noteq> length (hist s jid)" by simp
    from append_stale [OF assms(1,4) this] False show ?thesis
      by (simp add: run)
  qed
qed

lemma ack_reply_stale:
  assumes "inv s" and "from_events xs = Ok job" and "job_id job = j"
    and "hist s j = xs @ ys" and "ys \<noteq> []" and "length (hist s j) < 2 ^ 63"
  shows "commits_or_conflicts j (job_version job) False
    (ack_reply a (ack_append S rt job xs evs (s, e))) atomic s"
proof -
  obtain e' where "ack_append S rt job xs evs (s, e) = (Err (VersionConflict j (job_version job)), s, e')"
    using ack_append_stale [OF assms, of rt evs e] by blast
  then show ?thesis
    by (simp add: commits_or_conflicts_def)
qed

lemma succeed_interleaved:
  assumes "inv s" and "from_events xs = Ok job" and "job_id job = j"
    and "hist s j = xs @ ys" and "length (hist s j) < 2 ^ 63"
  shows "commits_or_conflicts j (job_version job) (ys = [])
    (ack_succeed_loaded S rt job xs worker l res (s, e)) (ack_succeed S rt j worker l res (s, e)) s"
proof (cases "ys = []")
  case True
  with assms show ?thesis
    by (simp add: commits_or_conflicts_def ack_succeed_def ack_loaded_known)
next
  case False
  then show ?thesis
    by (simp add: ack_succeed_loaded_def record_conflict_def succeed_by_lease
          ack_reply_stale [OF assms(1-4) False assms(5)])
qed

lemma fail_interleaved:
  assumes "inv s" and "from_events xs = Ok job" and "job_id job = j"
    and "hist s j = xs @ ys" and "length (hist s j) < 2 ^ 63"
  shows "commits_or_conflicts j (job_version job) (ys = [])
    (ack_fail_loaded C S rt job xs worker l err (s, e)) (ack_fail C S rt j worker l err (s, e)) s"
proof (cases "ys = []")
  case True
  with assms show ?thesis
    by (simp add: commits_or_conflicts_def ack_fail_def ack_loaded_known)
next
  case False
  then show ?thesis
    by (simp add: ack_fail_loaded_def record_conflict_def Let_def
          ack_reply_stale [OF assms(1-4) False assms(5)] split: prod.split outcome.split)
qed

end

context dispatcher_contract
begin

text \<open>The sweep always returns, after at most one round per leased job, and counts its rounds.\<close>

definition swept_to :: "u32 \<Rightarrow> 'w \<Rightarrow> u32 \<Rightarrow> 'w \<Rightarrow> bool" where
  "swept_to n w m w' \<longleftrightarrow>
     winv w' \<and> m = n + of_nat (lease_count w - lease_count w') \<and> lease_count w' \<le> lease_count w
     \<and> (\<exists>w''. winv w'' \<and> whist w'' = whist w' \<and> retire_next_expired_lease D w'' = (Ok None, w'))"

lemma swept_to_step:
  assumes "lease_count w = Suc (lease_count w1)" and "swept_to (n + 1) w1 m w'"
  shows "swept_to n w m w'"
  using assms by (simp add: swept_to_def Suc_diff_le)

lemma swept_to_None:
  assumes "winv w" and "retire_next_expired_lease D w = (Ok None, w')"
  shows "swept_to n w n w'"
  using assms retire_None [OF assms] by (auto simp: swept_to_def lease_count_def)

lemma sweep_loop_returns:
  assumes "winv w"
  shows "\<exists>r w'. sweep_loop D n w = Some (r, w') \<and> (\<forall>m. r = Ok m \<longrightarrow> swept_to n w m w')"
  using assms
proof (induction "lease_count w" arbitrary: n w rule: less_induct)
  case less
  obtain r w' where rw: "retire_next_expired_lease D w = (r, w')" by fastforce
  consider (none) "r = Ok None" | (some) j where "r = Ok (Some j)" | (err) x where "r = Err x" | (panic) "r = Panic"
    by (metis option.exhaust outcome.exhaust)
  then show ?case
  proof cases
    case none
    with rw have "retire_next_expired_lease D w = (Ok None, w')" by simp
    from swept_to_None [OF less.prems this] this show ?thesis
      by (subst sweep_loop.simps) simp
  next
    case some
    with rw retire_count [OF less.prems] have w': "winv w'" "lease_count w = Suc (lease_count w')"
      by auto
    from less.hyps [OF _ w'(1), of "n + 1"] w'(2) obtain r2 w2 where
        "sweep_loop D (n + 1) w' = Some (r2, w2)" "\<forall>m. r2 = Ok m \<longrightarrow> swept_to (n + 1) w' m w2"
      by auto
    with some rw swept_to_step [OF w'(2)] show ?thesis
      by (subst sweep_loop.simps) simp
  qed (use rw in \<open>subst sweep_loop.simps, simp\<close>)+
qed

text \<open>
  Fencing across the retirement: once a lease is retired, its holder's heartbeats are refused
  for ever, because only one job held the lease and a heartbeat needs a holder.
\<close>

lemma retired_lease_refused:
  assumes "winv w" and "held (whist w j) = Some l" and "\<forall>k. held (whist w k) = Some l \<longrightarrow> k = j"
    and "retire_next_expired_lease D w = (Ok (Some j), w1)"
    and "winv w2" and "whist w2 = whist w1" and "extend_lease D l ttl w2 = (Ok found, w3)"
  shows "\<not> found"
proof
  assume found
  with extend_Ok [OF assms(5,7)] obtain k where k: "held (whist w1 k) = Some l"
    by (auto simp: assms(6))
  from retire_Some [OF assms(1,4)] obtain es where r: "held (whist w1 j) = None"
      "whist w1 = (whist w)(j := whist w j @ es)"
    by auto
  with k have "k \<noteq> j" "held (whist w k) = Some l"
    by (auto split: if_splits)
  with assms(3) show False
    by blast
qed

end

text \<open>A command for the concrete evaluations.\<close>

definition sample_command :: "nat EnqueueCommand" where
  "sample_command =
     \<lparr>cmd_queue = QueueName (lit ''default''), cmd_payload = 7, cmd_priority = Priority 3,
      cmd_retry_policy = sample_policy, cmd_not_before = None, cmd_lineage = lineage_default\<rparr>"

end
