(* ===== verification/Memory_Store.thy ===== *)
theory Memory_Store
  imports Koine_Use_Cases
begin

text \<open>
  The in-memory event store of \<open>koine-store-memory/src/store.rs\<close>: an append-only stream per
  job and a dispatch index that is re-derived from the folded job with every append, behind
  one mutex.  A \<open>HashMap\<close> is an association list with distinct keys where the code iterates
  over it (the index) and a map where it only looks up (the streams).  \<open>Inner.seq\<close> is a
  counter that moves at most once per append and is kept unbounded.  A panic inside the
  critical section poisons the mutex for good.
\<close>

record LeaseState =
  ls_lease :: LeaseId
  ls_worker :: WorkerId
  ls_expires_at :: date_time

record DispatchEntry =
  de_queue :: QueueName
  de_priority :: Priority
  de_seq :: nat
  de_not_before :: "date_time option"
  de_lease :: "LeaseState option"

record 'v Inner =
  streams :: "JobId \<rightharpoonup> 'v stream"
  index :: "(JobId \<times> DispatchEntry) list"
  inner_seq :: nat

datatype 'v InMemoryEventStore = Store (inner: "'v Inner") | Poisoned

definition inner_default :: "'v Inner" where
  "inner_default = \<lparr>streams = Map.empty, index = [], inner_seq = 0\<rparr>"

definition store_new :: "'v InMemoryEventStore" where
  "store_new = Store inner_default"

definition locked ::
  "('v Inner \<Rightarrow> 'x \<Rightarrow> ('a, EventStoreError) outcome \<times> 'v Inner \<times> 'x)
   \<Rightarrow> 'v InMemoryEventStore \<Rightarrow> 'x \<Rightarrow> ('a, EventStoreError) outcome \<times> 'v InMemoryEventStore \<times> 'x" where
  "locked f st x =
     (case st of
        Store i \<Rightarrow>
          (case f i x of
             (Panic, i', x') \<Rightarrow> (Panic, Poisoned, x')
           | (r, i', x') \<Rightarrow> (r, Store i', x'))
      | Poisoned \<Rightarrow> (Err (StoreBackend (Msg ''store mutex poisoned'')), Poisoned, x))"

definition project_locked :: "'v Inner \<Rightarrow> 'v Job \<Rightarrow> 'v Inner" where
  "project_locked i job =
     (let (seq, i) = (case map_of (index i) (job_id job) of
                        None \<Rightarrow> (inner_seq i + 1, i\<lparr>inner_seq := inner_seq i + 1\<rparr>)
                      | Some entry \<Rightarrow> (de_seq entry, i));
          insert_leased = (\<lambda>worker lease_id expires_at.
            i\<lparr>index := AList.update (job_id job)
                 \<lparr>de_queue = job_queue job, de_priority = job_priority job, de_seq = seq,
                  de_not_before = None,
                  de_lease = Some \<lparr>ls_lease = lease_id, ls_worker = worker,
                                   ls_expires_at = expires_at\<rparr>\<rparr> (index i)\<rparr>)
      in case job_state job of
           S_Pending not_before \<Rightarrow>
             i\<lparr>index := AList.update (job_id job)
                  \<lparr>de_queue = job_queue job, de_priority = job_priority job, de_seq = seq,
                   de_not_before = not_before, de_lease = None\<rparr> (index i)\<rparr>
         | S_Leased worker lease_id expires_at \<Rightarrow> insert_leased worker lease_id expires_at
         | S_Running worker lease_id expires_at \<Rightarrow> insert_leased worker lease_id expires_at
         | _ \<Rightarrow> i\<lparr>index := AList.delete (job_id job) (index i)\<rparr>)"

definition stream_or_default :: "'v Inner \<Rightarrow> JobId \<Rightarrow> 'v stream" where
  "stream_or_default i k = (case streams i k of None \<Rightarrow> [] | Some xs \<Rightarrow> xs)"

primrec batch_ok :: "JobId \<Rightarrow> u64 \<Rightarrow> 'v stream \<Rightarrow> bool" where
  "batch_ok stream next [] = True"
| "batch_ok stream next (envelope # envelopes) =
     (let next = next + 1
      in if env_version envelope \<noteq> next \<or> env_stream_id envelope \<noteq> stream then False
         else batch_ok stream next envelopes)"

definition append_locked ::
  "JobId \<Rightarrow> u64 \<Rightarrow> 'v stream \<Rightarrow> 'v Inner \<Rightarrow> (unit, EventStoreError) outcome \<times> 'v Inner" where
  "append_locked stream expected_version envelopes i =
     (case u64_try_from (length (stream_or_default i stream)) of
        None \<Rightarrow> (Err (StoreBackend (Msg ''stream too long'')), i)
      | Some current \<Rightarrow>
          if current \<noteq> expected_version then (Err (VersionConflict stream expected_version), i)
          else if \<not> batch_ok stream current envelopes
          then (Err (StoreBackend (Msg_id ''malformed envelope batch for'' stream)), i)
          else let combined = stream_or_default i stream @ envelopes
               in case from_events combined of
                    Ok folded \<Rightarrow>
                      (Ok (), project_locked (i\<lparr>streams := (streams i)(stream \<mapsto> combined)\<rparr>) folded)
                  | Err e \<Rightarrow> (Err (StoreBackend (Msg_error ''batch does not fold'' e)), i)
                  | Panic \<Rightarrow> (Panic, i))"

definition memory_append ::
  "JobId \<Rightarrow> u64 \<Rightarrow> 'v stream \<Rightarrow> 'v InMemoryEventStore \<Rightarrow> (unit, EventStoreError) outcome \<times> 'v InMemoryEventStore"
where
  "memory_append stream expected_version envelopes st =
     (let (r, st', _) =
        locked (\<lambda>i x. let (r, i') = append_locked stream expected_version envelopes i in (r, i', x)) st ()
      in (r, st'))"

definition memory_load :: "JobId \<Rightarrow> 'v InMemoryEventStore \<Rightarrow> ('v stream, EventStoreError) outcome" where
  "memory_load stream st =
     fst (locked (\<lambda>i x. (ok_or (StreamNotFound stream) (streams i stream), i, x)) st ())"

definition memory_store :: "('v InMemoryEventStore, 'v) event_store" where
  "memory_store = \<lparr>es_append = memory_append, es_load = memory_load\<rparr>"

section \<open>The invariant\<close>

text \<open>The index entry that a folded job calls for; the deadline of a lease is free.\<close>

definition entry_matches :: "'v Job \<Rightarrow> DispatchEntry option \<Rightarrow> bool" where
  "entry_matches job oe \<longleftrightarrow>
     (case oe of
        None \<Rightarrow> \<not> live_state (job_state job)
      | Some de \<Rightarrow>
          de_queue de = job_queue job \<and> de_priority de = job_priority job \<and>
          (case job_state job of
             S_Pending nb \<Rightarrow> de_not_before de = nb \<and> de_lease de = None
           | S_Leased w l x \<Rightarrow> de_not_before de = None \<and> map_option (\<lambda>ls. (ls_worker ls, ls_lease ls)) (de_lease de) = Some (w, l)
           | S_Running w l x \<Rightarrow> de_not_before de = None \<and> map_option (\<lambda>ls. (ls_worker ls, ls_lease ls)) (de_lease de) = Some (w, l)
           | _ \<Rightarrow> False))"

definition stream_inv :: "'v Inner \<Rightarrow> JobId \<Rightarrow> bool" where
  "stream_inv i k \<longleftrightarrow>
     (case streams i k of
        None \<Rightarrow> map_of (index i) k = None
      | Some xs \<Rightarrow>
          list_all (\<lambda>e. env_stream_id e = k) xs \<and>
          (case from_events xs of
             Ok job \<Rightarrow> job_id job = k \<and> entry_matches job (map_of (index i) k)
           | _ \<Rightarrow> False))"

definition index_inv :: "'v Inner \<Rightarrow> bool" where
  "index_inv i \<longleftrightarrow>
     distinct (map fst (index i))
     \<and> (\<forall>k de. map_of (index i) k = Some de \<longrightarrow> de_seq de \<le> inner_seq i)
     \<and> (\<forall>k k' de de'. map_of (index i) k = Some de \<and> map_of (index i) k' = Some de'
           \<and> de_seq de = de_seq de' \<longrightarrow> k = k')"

definition inner_inv :: "'v Inner \<Rightarrow> bool" where
  "inner_inv i \<longleftrightarrow> index_inv i \<and> (\<forall>k. stream_inv i k)"

definition store_inv :: "'v InMemoryEventStore \<Rightarrow> bool" where
  "store_inv st \<longleftrightarrow> (case st of Store i \<Rightarrow> inner_inv i | Poisoned \<Rightarrow> False)"

definition store_hist :: "'v InMemoryEventStore \<Rightarrow> JobId \<Rightarrow> 'v stream" where
  "store_hist st k = (case st of Store i \<Rightarrow> stream_or_default i k | Poisoned \<Rightarrow> [])"

section \<open>Projection\<close>

definition projected_entry :: "'v Job \<Rightarrow> nat \<Rightarrow> DispatchEntry option" where
  "projected_entry job seq =
     (let entry = \<lparr>de_queue = job_queue job, de_priority = job_priority job, de_seq = seq,
                   de_not_before = None, de_lease = None\<rparr>
      in case job_state job of
           S_Pending nb \<Rightarrow> Some (entry\<lparr>de_not_before := nb\<rparr>)
         | S_Leased w l x \<Rightarrow> Some (entry\<lparr>de_lease := Some \<lparr>ls_lease = l, ls_worker = w, ls_expires_at = x\<rparr>\<rparr>)
         | S_Running w l x \<Rightarrow> Some (entry\<lparr>de_lease := Some \<lparr>ls_lease = l, ls_worker = w, ls_expires_at = x\<rparr>\<rparr>)
         | _ \<Rightarrow> None)"

definition projected_seq :: "'v Inner \<Rightarrow> JobId \<Rightarrow> nat" where
  "projected_seq i k = (case map_of (index i) k of None \<Rightarrow> inner_seq i + 1 | Some de \<Rightarrow> de_seq de)"

lemma project_streams [simp]: "streams (project_locked i job) = streams i"
  by (auto simp: project_locked_def Let_def split: option.splits JobState.splits)

lemma project_index:
  "map_of (index (project_locked i job)) =
     (map_of (index i))(job_id job := projected_entry job (projected_seq i (job_id job)))"
  by (auto simp: project_locked_def projected_entry_def projected_seq_def Let_def update_conv' delete_conv'
        fun_eq_iff split: option.splits JobState.splits)

lemma project_index_distinct:
  "distinct (map fst (index i)) \<Longrightarrow> distinct (map fst (index (project_locked i job)))"
  by (auto simp: project_locked_def Let_def distinct_update distinct_delete
        split: option.splits JobState.splits)

lemma project_seq:
  "inner_seq (project_locked i job) =
     (if map_of (index i) (job_id job) = None then inner_seq i + 1 else inner_seq i)"
  by (auto simp: project_locked_def Let_def split: option.splits JobState.splits)

lemma projected_entry_seq: "projected_entry job n = Some de \<Longrightarrow> de_seq de = n"
  by (auto simp: projected_entry_def Let_def split: JobState.splits)

lemma projected_entry_matches: "entry_matches job (projected_entry job n)"
  by (auto simp: projected_entry_def entry_matches_def live_state_def Let_def split: JobState.splits)

lemma index_inv_project:
  assumes "index_inv i"
  shows "index_inv (project_locked i job)"
proof -
  let ?k = "job_id job" and ?n = "projected_seq i (job_id job)"
  have le: "de_seq de \<le> inner_seq i" if "map_of (index i) k = Some de" for k de
    using assms that by (auto simp: index_inv_def)
  have inj: "k = k'" if "map_of (index i) k = Some de" "map_of (index i) k' = Some de'"
      "de_seq de = de_seq de'" for k k' de de'
    using assms that unfolding index_inv_def by blast
  have new: "de_seq de \<noteq> ?n" if "map_of (index i) k = Some de" "k \<noteq> ?k" for k de
  proof (cases "map_of (index i) ?k")
    case None
    then show ?thesis using le [OF that(1)] by (simp add: projected_seq_def)
  next
    case (Some de0)
    then show ?thesis using inj [OF that(1) Some] that(2) by (auto simp: projected_seq_def)
  qed
  have bound: "?n \<le> inner_seq (project_locked i job)" "inner_seq i \<le> inner_seq (project_locked i job)"
    using le by (auto simp: projected_seq_def project_seq split: option.splits)
  show ?thesis
    unfolding index_inv_def project_index
  proof (intro conjI allI impI)
    show "distinct (map fst (index (project_locked i job)))"
      using assms by (simp add: index_inv_def project_index_distinct)
  next
    fix k de
    assume "((map_of (index i))(?k := projected_entry job ?n)) k = Some de"
    then show "de_seq de \<le> inner_seq (project_locked i job)"
      using bound le by (auto dest: projected_entry_seq order_trans split: if_splits)
  next
    fix k k' de de'
    assume "((map_of (index i))(?k := projected_entry job ?n)) k = Some de \<and>
        ((map_of (index i))(?k := projected_entry job ?n)) k' = Some de' \<and> de_seq de = de_seq de'"
    then show "k = k'"
      using new inj by (metis fun_upd_other fun_upd_same projected_entry_seq)
  qed
qed

section \<open>Appending\<close>

lemma batch_ok_iff:
  "batch_ok stream v es \<longleftrightarrow> sequential v es \<and> list_all (\<lambda>e. env_stream_id e = stream) es"
  by (induction es arbitrary: v) (auto simp: Let_def)

lemma append_locked_eq_Ok:
  "append_locked k v es i = (Ok u, i') \<longleftrightarrow>
     u64_try_from (length (stream_or_default i k)) = Some v \<and> sequential v es
     \<and> list_all (\<lambda>e. env_stream_id e = k) es
     \<and> (\<exists>job. from_events (stream_or_default i k @ es) = Ok job
          \<and> i' = project_locked (i\<lparr>streams := (streams i)(k \<mapsto> stream_or_default i k @ es)\<rparr>) job)"
  by (auto simp: append_locked_def Let_def batch_ok_iff split: option.splits outcome.splits if_splits)

lemma append_locked_Err_same:
  "append_locked k v es i = (Err e, i') \<Longrightarrow> i' = i"
  by (auto simp: append_locked_def Let_def split: option.splits outcome.splits if_splits)

lemma append_locked_not_Panic: "fst (append_locked k v es i) \<noteq> Panic"
  by (auto simp: append_locked_def Let_def split: option.splits outcome.splits if_splits)

lemma inner_inv_stream:
  assumes "inner_inv i" and "streams i k = Some xs"
  obtains job where "from_events xs = Ok job" "job_id job = k" "entry_matches job (map_of (index i) k)"
    "list_all (\<lambda>e. env_stream_id e = k) xs"
proof -
  from assms have "stream_inv i k"
    by (simp add: inner_inv_def)
  with assms(2) that show thesis
    by (cases "from_events xs") (auto simp: stream_inv_def)
qed

lemma stream_or_default_ids:
  assumes "inner_inv i"
  shows "list_all (\<lambda>e. env_stream_id e = k) (stream_or_default i k)"
proof (cases "streams i k")
  case (Some xs)
  from assms this show ?thesis
    by (rule inner_inv_stream) (simp add: stream_or_default_def Some)
qed (simp add: stream_or_default_def)

lemma stream_inv_cong:
  assumes "map_of (index i') k = map_of (index i) k" and "streams i' k = streams i k"
  shows "stream_inv i' k = stream_inv i k"
  using assms by (simp add: stream_inv_def cong: option.case_cong outcome.case_cong)

lemma append_locked_inv:
  assumes inv: "inner_inv i" and app: "append_locked k v es i = (Ok u, i')"
  shows "inner_inv i'"
proof -
  let ?xs = "stream_or_default i k @ es"
  let ?i = "i\<lparr>streams := (streams i)(k \<mapsto> ?xs)\<rparr>"
  from app obtain job where job: "from_events ?xs = Ok job" and i': "i' = project_locked ?i job"
      and es: "list_all (\<lambda>e. env_stream_id e = k) es"
    by (auto simp: append_locked_eq_Ok)
  have ids: "list_all (\<lambda>e. env_stream_id e = k) ?xs"
    using stream_or_default_ids [OF inv, of k] es by simp
  then have k: "job_id job = k"
    using job by (rule folded_job_id [rotated])
  have "index_inv ?i"
    using inv by (simp add: inner_inv_def index_inv_def)
  then have "index_inv i'"
    unfolding i' by (rule index_inv_project)
  moreover have "stream_inv i' k'" for k'
  proof (cases "k' = k")
    case True
    with job ids k show ?thesis
      by (simp add: stream_inv_def i' project_index projected_entry_matches)
  next
    case False
    moreover have "stream_inv i k'"
      using inv by (simp add: inner_inv_def)
    moreover have "map_of (index i') k' = map_of (index i) k'" "streams i' k' = streams i k'"
      using False by (simp_all add: i' project_index k)
    ultimately show ?thesis
      using stream_inv_cong by metis
  qed
  ultimately show ?thesis
    by (simp add: inner_inv_def)
qed

lemma inner_inv_default: "inner_inv inner_default"
  by (simp add: inner_inv_def index_inv_def stream_inv_def inner_default_def)

section \<open>The memory store implements the contract\<close>


lemma memory_append_Store:
  "memory_append k v es (Store i) =
     (case append_locked k v es i of (Panic, i') \<Rightarrow> (Panic, Poisoned) | (r, i') \<Rightarrow> (r, Store i'))"
  by (auto simp: memory_append_def locked_def split: prod.splits outcome.splits)

lemma memory_load_Store: "memory_load k (Store i) = ok_or (StreamNotFound k) (streams i k)"
  by (cases "streams i k") (simp_all add: memory_load_def locked_def)

lemma memory_append_eq_Ok:
  "memory_append k v es st = (Ok u, st') \<longleftrightarrow>
     (\<exists>i i'. st = Store i \<and> st' = Store i' \<and> append_locked k v es i = (Ok u, i'))"
proof (cases st)
  case (Store i)
  then show ?thesis
    by (cases "append_locked k v es i")
       (auto simp: memory_append_Store split: outcome.splits)
qed (simp add: memory_append_def locked_def)

lemma store_invE:
  assumes "store_inv st"
  obtains i where "st = Store i" "inner_inv i"
  using assms by (cases st) (auto simp: store_inv_def)

lemma stream_nonempty:
  assumes "inner_inv i" and "streams i k = Some xs"
  shows "xs \<noteq> []"
proof -
  from assms obtain job where "from_events xs = Ok job" by (rule inner_inv_stream)
  then show ?thesis using from_events_frame by blast
qed

lemma memory_append_hist:
  assumes "store_inv st" and "memory_append k v es st = (Ok u, st')"
  shows "store_inv st' \<and> store_hist st' = (store_hist st)(k := store_hist st k @ es)
    \<and> unat v = length (store_hist st k)"
proof -
  from assms obtain i i' where i: "st = Store i" "st' = Store i'" "inner_inv i"
      "append_locked k v es i = (Ok u, i')"
    by (auto simp: memory_append_eq_Ok elim: store_invE)
  have "store_inv st'"
    using append_locked_inv [OF i(3,4)] by (simp add: store_inv_def i)
  moreover have "store_hist st' = (store_hist st)(k := store_hist st k @ es)"
    using i(4) by (auto simp: append_locked_eq_Ok store_hist_def i(1,2) stream_or_default_def fun_eq_iff)
  moreover have "unat v = length (store_hist st k)"
    using i(4) by (simp add: append_locked_eq_Ok u64_try_from_eq_Some store_hist_def i(1))
  ultimately show ?thesis by blast
qed

lemma memory_append_law:
  assumes "store_inv st" and "memory_append k v es st = (Ok u, st')"
  shows "store_inv st' \<and> unat v = length (store_hist st k)
    \<and> (\<exists>es'. list_all2 kept_as es es' \<and> store_hist st' = (store_hist st)(k := store_hist st k @ es'))"
proof -
  have "list_all2 kept_as es es" by (rule list_all2_refl) simp
  with memory_append_hist [OF assms] show ?thesis by blast
qed

lemma memory_append_Err:
  assumes "memory_append k v es st = (Err e, st')"
  shows "st' = st"
proof (cases st)
  case (Store i)
  with assms show ?thesis
    by (cases "append_locked k v es i")
       (auto simp: memory_append_Store split: outcome.splits dest: append_locked_Err_same)
qed (use assms in \<open>auto simp: memory_append_def locked_def\<close>)

lemma memory_append_not_Panic: "fst (memory_append k v es st) \<noteq> Panic"
proof (cases st)
  case (Store i)
  then show ?thesis
    using append_locked_not_Panic [of k v es i]
    by (cases "append_locked k v es i") (auto simp: memory_append_Store split: outcome.splits)
qed (simp add: memory_append_def locked_def)

lemma memory_append_stale:
  assumes "store_inv st" and "length (store_hist st k) < 2 ^ 63" and "unat v \<noteq> length (store_hist st k)"
  shows "memory_append k v es st = (Err (VersionConflict k v), st)"
proof -
  from assms(1) obtain i where i: "st = Store i" by (rule store_invE)
  have len: "length (stream_or_default i k) < 2 ^ 64"
    using assms(2) by (simp add: store_hist_def i)
  then have "of_nat (length (stream_or_default i k)) \<noteq> v"
    using assms(3) by (auto simp: store_hist_def i unat_of_nat_small)
  with len show ?thesis
    by (simp add: i memory_append_Store append_locked_def u64_try_from_def)
qed

lemma memory_append_accepts:
  assumes "store_inv st" and "unat v = length (store_hist st k)" and "sequential v es"
    and "list_all (\<lambda>e. env_stream_id e = k) es" and "from_events (store_hist st k @ es) = Ok job"
  shows "\<exists>st'. memory_append k v es st = (Ok (), st')"
proof -
  from assms(1) obtain i where i: "st = Store i" by (rule store_invE)
  with assms have "\<exists>i'. append_locked k v es i = (Ok (), i')"
    by (simp add: append_locked_eq_Ok store_hist_def u64_try_from_eq_Some)
  then show ?thesis
    by (auto simp: memory_append_eq_Ok i)
qed

lemma memory_load_law:
  assumes "store_inv st"
  shows "memory_load k st =
    (if store_hist st k = [] then Err (StreamNotFound k) else Ok (store_hist st k))"
proof -
  from assms obtain i where i: "st = Store i" "inner_inv i" by (rule store_invE)
  then show ?thesis
    using stream_nonempty [OF i(2), of k]
    by (cases "streams i k") (simp_all add: memory_load_Store store_hist_def stream_or_default_def)
qed

lemma memory_hist_folds:
  assumes "store_inv st" and "store_hist st k \<noteq> []"
  shows "\<exists>job. from_events (store_hist st k) = Ok job \<and> job_id job = k"
proof -
  from assms(1) obtain i where i: "st = Store i" "inner_inv i" by (rule store_invE)
  with assms(2) obtain xs where xs: "streams i k = Some xs"
    by (auto simp: store_hist_def stream_or_default_def split: option.splits)
  with i(2) obtain job where "from_events xs = Ok job" "job_id job = k"
    by (rule inner_inv_stream)
  with i(1) xs show ?thesis
    by (simp add: store_hist_def stream_or_default_def)
qed

interpretation memory: exact_store memory_store store_inv store_hist "\<lambda>_ _ _. True"
  apply unfold_locales
         apply (erule (1) memory_hist_folds)
        apply (simp add: memory_store_def memory_load_law)
       apply (unfold memory_store_def event_store.simps)
       apply (erule (1) memory_append_law)
      apply (erule memory_append_Err)
     apply (rule memory_append_not_Panic)
    apply (erule (2) memory_append_stale)
   apply (erule (4) memory_append_accepts)
  apply (simp add: memory_append_hist)
  done

end
