(* ===== verification/Memory_Dispatcher.thy ===== *)
theory Memory_Dispatcher
  imports Memory_Store
begin

text \<open>
  The in-memory dispatcher of \<open>koine-store-memory/src/dispatcher.rs\<close>: claim, lease extension
  and lease retirement, each atomic under the store's mutex.  The iteration order of the index
  \<open>HashMap\<close> is unspecified: \<open>iterate hash\<close> lists the entries in the order of an arbitrary
  function \<open>hash\<close> of the keys, a parameter of every operation.
\<close>

section \<open>Iterators\<close>

definition iterate :: "(JobId \<Rightarrow> nat) \<Rightarrow> (JobId \<times> 'b) list \<Rightarrow> (JobId \<times> 'b) list" where
  "iterate hash m = sort_key (\<lambda>(k, _). hash k) m"

text \<open>\<open>Iterator::min\<close>.\<close>

definition iter_min :: "'a::linorder list \<Rightarrow> 'a option" where
  "iter_min xs = (case xs of [] \<Rightarrow> None | x # xs \<Rightarrow> Some (foldl min x xs))"

text \<open>The order of the keys \<open>(priority, Reverse(seq))\<close>.\<close>

definition key_le :: "DispatchEntry \<Rightarrow> DispatchEntry \<Rightarrow> bool" where
  "key_le a b \<longleftrightarrow> de_priority a < de_priority b \<or> (de_priority a = de_priority b \<and> de_seq b \<le> de_seq a)"

section \<open>Claim\<close>

definition entry_eligible :: "QueueName \<Rightarrow> date_time \<Rightarrow> DispatchEntry \<Rightarrow> bool" where
  "entry_eligible queue now entry \<longleftrightarrow>
     de_queue entry = queue \<and> de_lease entry = None \<and> is_none_or (\<lambda>t. t \<le> now) (de_not_before entry)"

definition pick_eligible :: "(JobId \<Rightarrow> nat) \<Rightarrow> 'v Inner \<Rightarrow> QueueName \<Rightarrow> date_time \<Rightarrow> JobId option" where
  "pick_eligible hash i queue now =
     map_option fst
       (max_by (\<lambda>a b. key_le (snd a) (snd b))
         (filter (\<lambda>(_, entry). entry_eligible queue now entry) (iterate hash (index i))))"

definition claim_locked ::
  "chrono \<Rightarrow> 'e runtime \<Rightarrow> (JobId \<Rightarrow> nat) \<Rightarrow> QueueName \<Rightarrow> WorkerId \<Rightarrow> duration \<Rightarrow> date_time
   \<Rightarrow> 'v Inner \<Rightarrow> 'e \<Rightarrow> ('v LeasedJob option, EventStoreError) outcome \<times> 'v Inner \<times> 'e" where
  "claim_locked C rt hash queue worker ttl now i e =
     (case pick_eligible hash i queue now of
        None \<Rightarrow> (Ok None, i, e)
      | Some jid \<Rightarrow>
     (case streams i jid of
        None \<Rightarrow> (Err (StreamNotFound jid), i, e)
      | Some stream \<Rightarrow>
     (case from_events stream of
        Err x \<Rightarrow> (Err (StoreBackend (Msg_error ''fold'' x)), i, e)
      | Panic \<Rightarrow> (Panic, i, e)
      | Ok job \<Rightarrow>
          let (lease_id, e) = new_lease_id rt e
          in case lease C job worker lease_id now ttl of
               Err x \<Rightarrow> (Err (StoreBackend (Msg_error ''index/state drift'' x)), i, e)
             | Panic \<Rightarrow> (Panic, i, e)
             | Ok event \<Rightarrow>
                 let (correlation_id, causation_id, traceparent) = lineage_of stream;
                     (envelopes, e) = wrap_events rt jid (job_version job) correlation_id causation_id
                                        traceparent [event] e
                 in case envelopes of
                      [] \<Rightarrow> (Panic, i, e)
                    | first # _ \<Rightarrow>
                        (case env_event first of
                           E_Leased _ _ expires_at \<Rightarrow>
                             (case append_locked jid (job_version job) envelopes i of
                                (Ok _, i) \<Rightarrow>
                                  (Ok (Some \<lparr>lj_job_id = jid, lj_queue = job_queue job,
                                             lj_payload = job_payload job, lj_attempt = job_attempt job,
                                             lj_lease = lease_id, lj_expires_at = expires_at,
                                             lj_correlation_id = correlation_id,
                                             lj_traceparent = traceparent\<rparr>), i, e)
                              | (Err x, i) \<Rightarrow> (Err x, i, e)
                              | (Panic, i) \<Rightarrow> (Panic, i, e))
                         | _ \<Rightarrow> (Err (StoreBackend (Msg ''lease produced non-lease'')), i, e)))))"

type_synonym ('v, 'e) world = "'v InMemoryEventStore \<times> 'e"

definition claim ::
  "chrono \<Rightarrow> 'e runtime \<Rightarrow> (JobId \<Rightarrow> nat) \<Rightarrow> QueueName \<Rightarrow> WorkerId \<Rightarrow> duration \<Rightarrow> ('v, 'e) world
   \<Rightarrow> ('v LeasedJob option, DispatchError) outcome \<times> ('v, 'e) world" where
  "claim C rt hash queue worker ttl w =
     (let (st, e) = w;
          (now, e) = clock_now rt e;
          (r, w') = locked (claim_locked C rt hash queue worker ttl now) st e
      in (map_err DispatchStore r, w'))"

section \<open>Retirement\<close>

definition entry_expired :: "date_time \<Rightarrow> DispatchEntry \<Rightarrow> bool" where
  "entry_expired now entry \<longleftrightarrow>
     (case de_lease entry of Some l \<Rightarrow> ls_expires_at l \<le> now | None \<Rightarrow> False)"

definition retire_locked ::
  "chrono \<Rightarrow> 'e runtime \<Rightarrow> (JobId \<Rightarrow> nat) \<Rightarrow> 'v Inner \<Rightarrow> 'e
   \<Rightarrow> ((JobId option, DomainError) outcome, EventStoreError) outcome \<times> 'v Inner \<times> 'e" where
  "retire_locked C rt hash i e =
     (let (now, e) = clock_now rt e
      in case iter_min (map fst (filter (\<lambda>(_, entry). entry_expired now entry) (iterate hash (index i)))) of
           None \<Rightarrow> (Ok (Ok None), i, e)
         | Some jid \<Rightarrow>
        (case streams i jid of
           None \<Rightarrow> (Err (StreamNotFound jid), i, e)
         | Some stream \<Rightarrow>
        (case from_events stream of
           Err x \<Rightarrow> (Ok (Err x), i, e)
         | Panic \<Rightarrow> (Panic, i, e)
         | Ok job \<Rightarrow>
             let (seed, e) = jitter_seed rt e
             in case expire_lease C job now seed of
                  Err x \<Rightarrow> (Ok (Err x), i, e)
                | Panic \<Rightarrow> (Panic, i, e)
                | Ok events \<Rightarrow>
                    let (correlation_id, causation_id, traceparent) = lineage_of stream;
                        (envelopes, e) = wrap_events rt jid (job_version job) correlation_id causation_id
                                           traceparent events e
                    in case append_locked jid (job_version job) envelopes i of
                         (Ok _, i) \<Rightarrow> (Ok (Ok (Some jid)), i, e)
                       | (Err x, i) \<Rightarrow> (Err x, i, e)
                       | (Panic, i) \<Rightarrow> (Panic, i, e))))"

definition retire_one ::
  "chrono \<Rightarrow> 'e runtime \<Rightarrow> (JobId \<Rightarrow> nat) \<Rightarrow> ('v, 'e) world
   \<Rightarrow> (JobId option, DispatchError) outcome \<times> ('v, 'e) world" where
  "retire_one C rt hash w =
     (let (st, e) = w;
          (r, w') = locked (retire_locked C rt hash) st e
      in (and_then (map_err DispatchStore r) (map_err DispatchDomain), w'))"

section \<open>Extension\<close>

primrec extend_loop ::
  "LeaseId \<Rightarrow> date_time \<Rightarrow> date_time \<Rightarrow> 'v Inner \<Rightarrow> (JobId \<times> DispatchEntry) list \<Rightarrow> bool \<times> 'v Inner" where
  "extend_loop lease_id now deadline i [] = (False, i)"
| "extend_loop lease_id now deadline i (kv # rest) =
     (let (k, entry) = kv
      in case de_lease entry of
           Some state \<Rightarrow>
             if ls_lease state = lease_id
             then if ls_expires_at state \<le> now then (False, i)
                  else (True, i\<lparr>index := AList.update k
                          (entry\<lparr>de_lease := Some (state\<lparr>ls_expires_at := deadline\<rparr>)\<rparr>) (index i)\<rparr>)
             else extend_loop lease_id now deadline i rest
         | None \<Rightarrow> extend_loop lease_id now deadline i rest)"

definition extend_locked ::
  "chrono \<Rightarrow> 'e runtime \<Rightarrow> (JobId \<Rightarrow> nat) \<Rightarrow> LeaseId \<Rightarrow> duration \<Rightarrow> 'v Inner \<Rightarrow> 'e
   \<Rightarrow> ((bool, DispatchError) outcome, EventStoreError) outcome \<times> 'v Inner \<times> 'e" where
  "extend_locked C rt hash lease_id ttl i e =
     (let (now, e) = clock_now rt e
      in case from_std C ttl of
           None \<Rightarrow> (Ok (Err (DispatchBackend (Msg ''ttl out of range''))), i, e)
         | Some delta \<Rightarrow>
             (case plus_or_panic C now delta of
                Ok deadline \<Rightarrow>
                  let (found, i) = extend_loop lease_id now deadline i (iterate hash (index i))
                  in (Ok (Ok found), i, e)
              | Err x \<Rightarrow> (Err x, i, e)
              | Panic \<Rightarrow> (Panic, i, e)))"

definition memory_extend_lease ::
  "chrono \<Rightarrow> 'e runtime \<Rightarrow> (JobId \<Rightarrow> nat) \<Rightarrow> LeaseId \<Rightarrow> duration \<Rightarrow> ('v, 'e) world
   \<Rightarrow> (bool, DispatchError) outcome \<times> ('v, 'e) world" where
  "memory_extend_lease C rt hash lease_id ttl w =
     (let (st, e) = w;
          (r, w') = locked (extend_locked C rt hash lease_id ttl) st e
      in (and_then (map_err DispatchStore r) (\<lambda>r. r), w'))"

definition memory_dispatcher ::
  "chrono \<Rightarrow> 'e runtime \<Rightarrow> (JobId \<Rightarrow> nat) \<Rightarrow> (('v, 'e) world, 'v) dispatcher" where
  "memory_dispatcher C rt hash =
     \<lparr>lease_next = claim C rt hash,
      extend_lease = memory_extend_lease C rt hash,
      retire_next_expired_lease = retire_one C rt hash\<rparr>"

section \<open>Facts about the iterators\<close>

lemma set_iterate [simp]: "set (iterate hash m) = set m"
  by (simp add: iterate_def)

lemma iter_min_eq: "iter_min xs = (if xs = [] then None else Some (Min (set xs)))"
proof (cases xs)
  case (Cons x ys)
  have "(\<lambda>x y. min y x) = (min :: 'a \<Rightarrow> 'a \<Rightarrow> 'a)"
    by (intro ext) (rule min.commute)
  then have "foldl min x ys = fold min ys x"
    by (simp add: foldl_conv_fold)
  then show ?thesis
    using Min.set_eq_fold [of x ys] by (simp add: Cons iter_min_def)
qed (simp add: iter_min_def)

lemma key_le_trans: "transp (\<lambda>a b. key_le (f a) (f b))"
  by (rule transpI) (auto simp: key_le_def)

lemma key_le_total: "\<forall>a b. key_le (f a) (f b) \<or> key_le (f b) (f a)"
  by (auto simp: key_le_def)

lemma index_member:
  assumes "index_inv i"
  shows "(k, de) \<in> set (index i) \<longleftrightarrow> map_of (index i) k = Some de"
  using assms by (simp add: index_inv_def)

text \<open>\<open>best i queue now k\<close>: \<open>k\<close> is the eligible job of highest priority and, of those, first in.\<close>

definition best :: "'v Inner \<Rightarrow> QueueName \<Rightarrow> date_time \<Rightarrow> JobId \<Rightarrow> bool" where
  "best i queue now k \<longleftrightarrow>
     (\<exists>de. map_of (index i) k = Some de \<and> entry_eligible queue now de
       \<and> (\<forall>k' de'. map_of (index i) k' = Some de' \<and> entry_eligible queue now de' \<and> k' \<noteq> k \<longrightarrow>
             de_priority de' < de_priority de \<or> (de_priority de' = de_priority de \<and> de_seq de < de_seq de')))"

lemma best_unique: "best i queue now k \<Longrightarrow> best i queue now k' \<Longrightarrow> k = k'"
  unfolding best_def by (elim exE conjE) (metis less_asym' option.sel)

lemma pick_eligible_Some:
  assumes inv: "index_inv i" and pick: "pick_eligible hash i queue now = Some k"
  shows "best i queue now k"
proof -
  let ?xs = "filter (\<lambda>(_, entry). entry_eligible queue now entry) (iterate hash (index i))"
  from pick obtain de where m: "max_by (\<lambda>a b. key_le (snd a) (snd b)) ?xs = Some (k, de)"
    by (auto simp: pick_eligible_def)
  have sp: "(k, de) \<in> set ?xs" "\<forall>y \<in> set ?xs. key_le (snd y) de"
    using max_by_eq_Some [OF key_le_trans key_le_total m] by auto
  have de: "map_of (index i) k = Some de" "entry_eligible queue now de"
    using sp(1) by (auto simp: index_member [OF inv])
  moreover have "de_priority de' < de_priority de \<or> (de_priority de' = de_priority de \<and> de_seq de < de_seq de')"
    if o: "map_of (index i) k' = Some de'" "entry_eligible queue now de'" "k' \<noteq> k" for k' de'
  proof -
    have "(k', de') \<in> set ?xs"
      using o by (simp add: index_member [OF inv])
    then have "key_le de' de" using sp(2) by fastforce
    moreover have "de_seq de' \<noteq> de_seq de"
      using inv o de unfolding index_inv_def by blast
    ultimately show ?thesis by (auto simp: key_le_def)
  qed
  ultimately show ?thesis
    unfolding best_def by blast
qed

lemma pick_eligible_None:
  assumes "index_inv i"
  shows "pick_eligible hash i queue now = None \<longleftrightarrow>
    (\<forall>k de. map_of (index i) k = Some de \<longrightarrow> \<not> entry_eligible queue now de)"
  by (auto simp: pick_eligible_def filter_empty_conv index_member [OF assms])

lemma pick_eligible_iff:
  assumes "index_inv i"
  shows "pick_eligible hash i queue now = Some k \<longleftrightarrow> best i queue now k"
proof
  assume b: "best i queue now k"
  then have "pick_eligible hash i queue now \<noteq> None"
    unfolding pick_eligible_None [OF assms] by (auto simp: best_def)
  then obtain k' where "pick_eligible hash i queue now = Some k'" by blast
  with b pick_eligible_Some [OF assms this] show "pick_eligible hash i queue now = Some k"
    by (metis best_unique)
qed (rule pick_eligible_Some [OF assms])

section \<open>The index mirrors the streams\<close>

lemma index_entry_job:
  assumes "inner_inv i" and "map_of (index i) k = Some de"
  obtains xs job where "streams i k = Some xs" "from_events xs = Ok job" "job_id job = k"
    "entry_matches job (Some de)"
proof -
  have "stream_inv i k" using assms(1) by (simp add: inner_inv_def)
  with assms(2) obtain xs where xs: "streams i k = Some xs"
    by (auto simp: stream_inv_def split: option.splits)
  with assms(1) obtain job where "from_events xs = Ok job" "job_id job = k"
      "entry_matches job (map_of (index i) k)"
    by (rule inner_inv_stream)
  with assms(2) xs show thesis
    by (intro that) simp_all
qed

lemma entry_matches_eligible:
  "entry_matches job (Some de) \<Longrightarrow> entry_eligible queue now de \<longleftrightarrow> due job queue now"
  by (auto simp: entry_matches_def entry_eligible_def due_def split: JobState.splits)

lemma entry_matches_leased:
  "entry_matches job (Some de) \<Longrightarrow> map_option ls_lease (de_lease de) = held_lease (job_state job)"
  by (cases "job_state job") (auto simp: entry_matches_def held_lease_def)

lemma entry_of_due:
  assumes "entry_matches job oe" and "due job queue now"
  obtains de where "oe = Some de"
  using assms by (cases oe) (auto simp: entry_matches_def due_def live_state_def split: JobState.splits)

section \<open>Appending under the lock\<close>

text \<open>The events of a command, wrapped and appended to the stream they were computed from.\<close>

lemma projected_seq_streams [simp]: "projected_seq (i\<lparr>streams := m\<rparr>) k = projected_seq i k"
  by (simp add: projected_seq_def cong: option.case_cong)

lemma append_locked_current:
  assumes "inner_inv i" and "streams i k = Some xs" and "from_events xs = Ok job"
    and "apply_all job evs = Ok job'" and "wrapped k (job_version job) corr caus trace evs es"
    and "append_locked k (job_version job) es i = (r, i')"
  shows "(r = Ok () \<and> inner_inv i' \<and> streams i' = (streams i)(k \<mapsto> xs @ es) \<and> from_events (xs @ es) = Ok job'
      \<and> map_of (index i') = (map_of (index i))(k := projected_entry job' (projected_seq i k)))
    \<or> (\<exists>x. r = Err x \<and> i' = i \<and> 2 ^ 64 \<le> length xs)"
proof (cases "length xs < 2 ^ 64")
  case True
  have k: "job_id job' = k"
    using inner_inv_stream [OF assms(1,2)] assms(3) apply_all_frame [OF assms(4)] by (metis outcome.inject(1))
  have "job_version job = of_nat (length xs)"
    using from_events_frame [OF assms(3)] by simp
  then have v: "u64_try_from (length xs) = Some (job_version job)"
    using True by (simp add: u64_try_from_def)
  have fold: "from_events (xs @ es) = Ok job'"
    using assms(3,4) wrappedD(1,2) [OF assms(5)] by (simp add: from_events_snoc_cases)
  have "append_locked k (job_version job) es i =
      (Ok (), project_locked (i\<lparr>streams := (streams i)(k \<mapsto> xs @ es)\<rparr>) job')"
    using wrappedD(2,4) [OF assms(5)] v fold assms(2) by (simp add: append_locked_eq_Ok stream_or_default_def)
  moreover from this assms(1) have "inner_inv (project_locked (i\<lparr>streams := (streams i)(k \<mapsto> xs @ es)\<rparr>) job')"
    by (rule append_locked_inv [rotated])
  ultimately show ?thesis
    using assms(6) fold by (simp add: project_index k)
next
  case False
  then have "append_locked k (job_version job) es i = (Err (StoreBackend (Msg ''stream too long'')), i)"
    using assms(2) by (simp add: append_locked_def stream_or_default_def u64_try_from_def)
  with assms(6) False show ?thesis
    by auto
qed

section \<open>Claim under the lock\<close>

lemma best_job:
  assumes "inner_inv i" and "best i queue now k"
  obtains xs job where "streams i k = Some xs" "from_events xs = Ok job" "job_id job = k" "due job queue now"
proof -
  from assms(2) obtain de where de: "map_of (index i) k = Some de" "entry_eligible queue now de"
    by (auto simp: best_def)
  from assms(1) de(1) obtain xs job where "streams i k = Some xs" "from_events xs = Ok job" "job_id job = k"
      "entry_matches job (Some de)"
    by (rule index_entry_job)
  with de(2) show thesis
    by (intro that) (simp_all add: entry_matches_eligible)
qed

lemma claim_locked_None:
  assumes "index_inv i" and "\<forall>k. \<not> best i queue now k"
  shows "claim_locked C rt hash queue worker ttl now i e = (Ok None, i, e)"
proof -
  have "pick_eligible hash i queue now = None"
    using assms pick_eligible_Some by (metis option.exhaust)
  then show ?thesis by (simp add: claim_locked_def)
qed

lemma claim_locked_best:
  assumes "inner_inv i" and "best i queue now k" and "streams i k = Some xs" and "from_events xs = Ok job"
    and "due job queue now" and "new_lease_id rt e = (l, e1)"
  shows "claim_locked C rt hash queue worker ttl now i e =
    (case from_std C ttl of
       None \<Rightarrow> (Err (StoreBackend (Msg_error ''index/state drift'' InvalidTtl)), i, e1)
     | Some d \<Rightarrow>
         (case checked_add_signed C now d of
            None \<Rightarrow> (Panic, i, e1)
          | Some x \<Rightarrow>
              let (es, e2) = wrap_events rt k (job_version job) (fst (lineage_of xs)) (fst (snd (lineage_of xs)))
                               (snd (snd (lineage_of xs))) [E_Leased worker l x] e1;
                  (r, i') = append_locked k (job_version job) es i
              in (and_then r (\<lambda>_. Ok (Some (leased_job_of k job xs l x))), i', e2)))"
proof -
  have pick: "pick_eligible hash i queue now = Some k"
    using assms(1,2) by (simp add: pick_eligible_iff inner_inv_def)
  obtain corr caus trace where lin: "lineage_of xs = (corr, caus, trace)"
    by (cases "lineage_of xs") auto
  have hd: "\<exists>env es'. es = env # es' \<and> env_event env = ev"
    if "wrap_events rt k v corr caus trace [ev] e1 = (es, e2)" for ev es e2 v
    using wrappedD(1) [OF wrap_events_wrapped [OF that]] by (cases es) auto
  show ?thesis
    by (auto simp: claim_locked_def pick assms(3,4,6) due_lease [OF assms(5)] lin leased_job_of_def Let_def
          split: option.split prod.split outcome.split dest!: hd)
qed

section \<open>The world\<close>

definition world_inv :: "('v, 'e) world \<Rightarrow> bool" where
  "world_inv w \<longleftrightarrow> store_inv (fst w)"

definition world_hist :: "('v, 'e) world \<Rightarrow> JobId \<Rightarrow> 'v stream" where
  "world_hist w = store_hist (fst w)"

definition short_streams :: "'v InMemoryEventStore \<Rightarrow> bool" where
  "short_streams st \<longleftrightarrow> (\<forall>k. length (store_hist st k) < 2 ^ 63)"

lemma claim_eq:
  "clock_now rt e = (now, e1) \<Longrightarrow> claim C rt hash queue worker ttl (st, e) =
     (let (r, w') = locked (claim_locked C rt hash queue worker ttl now) st e1 in (map_err DispatchStore r, w'))"
  by (simp add: claim_def)

lemma store_hist_upd:
  assumes "streams i k = Some xs" and "streams i' = (streams i)(k \<mapsto> xs @ es)"
  shows "store_hist (Store i') = (store_hist (Store i))(k := store_hist (Store i) k @ es)"
  using assms by (auto simp: store_hist_def stream_or_default_def fun_eq_iff)

lemma extends_upd:
  assumes "streams i k = Some xs" and "streams i' = (streams i)(k \<mapsto> xs @ es)" and "from_events xs = Ok job"
    and "lineage_of xs = (corr, caus, trace)" and "wrapped k (job_version job) corr caus trace evs es"
  shows "extends (store_hist (Store i)) k evs (store_hist (Store i'))"
proof -
  have "store_hist (Store i) k = xs"
    using assms(1) by (simp add: store_hist_def stream_or_default_def)
  with assms from_events_frame [OF assms(3)] show ?thesis
    unfolding store_hist_upd [OF assms(1,2)] by (auto simp: extends_def)
qed

text \<open>
  Every outcome of a claim on a consistent store: nothing due; or the best due job, which is
  leased, or the store is left alone with an error (a ttl that does not convert, a stream at
  the length limit), or the deadline is out of range and the panic poisons the store.
\<close>

lemma claim_cases:
  fixes i :: "'v Inner"
  assumes inv: "inner_inv i" and now: "clock_now rt e = (now, e1)" and l: "new_lease_id rt e1 = (l, e2)"
    and run: "claim C rt hash queue worker ttl (Store i, e) = (r, st', e')"
  obtains
    (none) "\<forall>k. \<not> best i queue now k" "r = Ok None" "st' = Store i"
  | (err) x where "r = Err x" "st' = Store i"
      "from_std C ttl = None \<or> (\<exists>k. best i queue now k \<and> 2 ^ 64 \<le> length (store_hist (Store i) k))"
  | (panic) d where "from_std C ttl = Some d" "checked_add_signed C now d = None" "r = Panic" "st' = Poisoned"
  | (leased) k xs job i' d x where "best i queue now k" "streams i k = Some xs" "from_events xs = Ok job"
      "job_id job = k" "due job queue now" "from_std C ttl = Some d" "checked_add_signed C now d = Some x"
      "r = Ok (Some (leased_job_of k job xs l x))" "st' = Store i'" "inner_inv i'"
      "extends (store_hist (Store i)) k [E_Leased worker l x] (store_hist (Store i'))"
      "from_events (store_hist (Store i') k) =
         Ok (job\<lparr>job_state := S_Leased worker l x, job_version := job_version job + 1\<rparr>)"
proof (cases "\<exists>k. best i queue now k")
  case False
  with inv have "claim_locked C rt hash queue worker ttl now i e1 = (Ok None, i, e1)"
    by (simp add: claim_locked_None inner_inv_def)
  with False run show thesis
    by (intro none) (simp_all add: claim_eq [OF now] locked_def)
next
  case True
  then obtain k where k: "best i queue now k" ..
  with inv obtain xs job where xs: "streams i k = Some xs" and job: "from_events xs = Ok job"
      and id: "job_id job = k" and due: "due job queue now"
    by (rule best_job)
  note c = claim_locked_best [OF inv k xs job due l, of C hash worker ttl]
  show thesis
  proof (cases "from_std C ttl")
    case None
    with c run show ?thesis
      by (intro err [of "DispatchStore (StoreBackend (Msg_error ''index/state drift'' InvalidTtl))"])
         (simp_all add: claim_eq [OF now] locked_def)
  next
    case d: (Some d)
    show ?thesis
    proof (cases "checked_add_signed C now d")
      case None
      with c d run panic show ?thesis
        by (simp add: claim_eq [OF now] locked_def)
    next
      case x: (Some x)
      obtain corr caus trace where lin: "lineage_of xs = (corr, caus, trace)"
        by (cases "lineage_of xs") auto
      obtain es :: "'v stream" and e3 where
          es: "wrap_events rt k (job_version job) corr caus trace [E_Leased worker l x] e2 = (es, e3)"
        by fastforce
      obtain r' i' where ap: "append_locked k (job_version job) es i = (r', i')" by fastforce
      have run': "claim C rt hash queue worker ttl (Store i, e) =
          (let (r, w') = (case and_then r' (\<lambda>_. Ok (Some (leased_job_of k job xs l x))) of
              Panic \<Rightarrow> (Panic, Poisoned, e3) | r \<Rightarrow> (r, Store i', e3)) in (map_err DispatchStore r, w'))"
        by (simp add: claim_eq [OF now] locked_def c d x lin es ap split: outcome.split)
      note w = wrap_events_wrapped [OF es]
      from append_locked_current [OF inv xs job due_lease_applies [OF due] w ap]
      show ?thesis
      proof (elim disjE conjE exE)
        assume ok: "r' = Ok ()" "inner_inv i'" "streams i' = (streams i)(k \<mapsto> xs @ es)"
          "from_events (xs @ es) = Ok (job\<lparr>job_state := S_Leased worker l x, job_version := job_version job + 1\<rparr>)"
        then have "store_hist (Store i') k = xs @ es"
          by (simp add: store_hist_def stream_or_default_def)
        with ok run run' show thesis
          by (intro leased [OF k xs job id due d x _ _ ok(2) extends_upd [OF xs ok(3) job lin w]]) simp_all
      next
        fix y
        assume "r' = Err y" "i' = i" "2 ^ 64 \<le> length xs"
        with run run' k xs show thesis
          by (intro err [of "DispatchStore y"]) (auto simp: store_hist_def stream_or_default_def)
      qed
    qed
  qed
qed

section \<open>Extension under the lock\<close>

definition set_deadline :: "'v Inner \<Rightarrow> JobId \<Rightarrow> DispatchEntry \<Rightarrow> LeaseState \<Rightarrow> date_time \<Rightarrow> 'v Inner" where
  "set_deadline i k de ls deadline =
     i\<lparr>index := AList.update k (de\<lparr>de_lease := Some (ls\<lparr>ls_expires_at := deadline\<rparr>)\<rparr>) (index i)\<rparr>"

lemma extend_loop_cases:
  assumes "extend_loop l now deadline i xs = (found, i')"
  obtains (same) "\<not> found" "i' = i"
      "\<exists>k de ls. (k, de) \<in> set xs \<and> de_lease de = Some ls \<and> ls_lease ls = l \<Longrightarrow>
       \<exists>k de ls. (k, de) \<in> set xs \<and> de_lease de = Some ls \<and> ls_lease ls = l \<and> ls_expires_at ls \<le> now"
  | (extended) k de ls where "found" "(k, de) \<in> set xs" "de_lease de = Some ls" "ls_lease ls = l"
      "now < ls_expires_at ls" "i' = set_deadline i k de ls deadline"
proof -
  have "(\<not> found \<and> i' = i
      \<and> ((\<exists>k de ls. (k, de) \<in> set xs \<and> de_lease de = Some ls \<and> ls_lease ls = l) \<longrightarrow>
       (\<exists>k de ls. (k, de) \<in> set xs \<and> de_lease de = Some ls \<and> ls_lease ls = l \<and> ls_expires_at ls \<le> now)))
    \<or> (\<exists>k de ls. found \<and> (k, de) \<in> set xs \<and> de_lease de = Some ls \<and> ls_lease ls = l
        \<and> now < ls_expires_at ls \<and> i' = set_deadline i k de ls deadline)"
    using assms
  proof (induction xs)
    case (Cons kv xs)
    obtain k de where kv: "kv = (k, de)" by (cases kv)
    show ?case
    proof (cases "\<exists>ls. de_lease de = Some ls \<and> ls_lease ls = l")
      case True
      then obtain ls where ls: "de_lease de = Some ls" "ls_lease ls = l" by blast
      show ?thesis
      proof (cases "ls_expires_at ls \<le> now")
        case True
        with Cons.prems kv ls have "\<not> found \<and> i' = i" by simp
        moreover have "(k, de) \<in> set (kv # xs)" by (simp add: kv)
        ultimately show ?thesis using ls True by blast
      next
        case False
        with Cons.prems kv ls have "found \<and> i' = set_deadline i k de ls deadline"
          by (simp add: set_deadline_def)
        moreover have "(k, de) \<in> set (kv # xs)" by (simp add: kv)
        moreover have "now < ls_expires_at ls" using False by simp
        ultimately show ?thesis using ls by blast
      qed
    next
      case False
      then have step: "extend_loop l now deadline i xs = (found, i')"
        using Cons.prems by (auto simp: kv split: option.splits)
      show ?thesis
        using Cons.IH [OF step] False unfolding kv by (metis list.set_intros(2) set_ConsD prod.inject)
    qed
  qed simp
  then show thesis
    using same extended by blast
qed

lemma set_deadline_index:
  "map_of (index (set_deadline i k de ls dl)) =
     (map_of (index i))(k \<mapsto> de\<lparr>de_lease := Some (ls\<lparr>ls_expires_at := dl\<rparr>)\<rparr>)"
  by (simp add: set_deadline_def update_conv')

lemma set_deadline_streams [simp]: "streams (set_deadline i k de ls dl) = streams i"
  by (simp add: set_deadline_def)

lemma set_deadline_inv:
  assumes inv: "inner_inv i" and de: "map_of (index i) k = Some de" and ls: "de_lease de = Some ls"
  shows "inner_inv (set_deadline i k de ls dl)"
proof -
  let ?i = "set_deadline i k de ls dl" and ?de = "de\<lparr>de_lease := Some (ls\<lparr>ls_expires_at := dl\<rparr>)\<rparr>"
  have ix: "index_inv i" using inv by (simp add: inner_inv_def)
  have "distinct (map fst (index ?i))"
    using ix by (simp add: index_inv_def set_deadline_def distinct_update)
  moreover have seq: "\<exists>de0. map_of (index i) k' = Some de0 \<and> de_seq de0 = de_seq de'"
    if "map_of (index ?i) k' = Some de'" for k' de'
    using that de by (auto simp: set_deadline_index split: if_splits)
  moreover have "inner_seq ?i = inner_seq i"
    by (simp add: set_deadline_def)
  ultimately have "index_inv ?i"
    using ix unfolding index_inv_def by metis
  moreover have "stream_inv ?i k'" for k'
  proof (cases "k' = k")
    case True
    obtain xs job where xs: "streams i k = Some xs" "from_events xs = Ok job" "job_id job = k"
        "entry_matches job (Some de)"
      using inv de by (rule index_entry_job)
    then have "entry_matches job (Some ?de)"
      using ls by (cases "job_state job") (auto simp: entry_matches_def)
    with xs True stream_or_default_ids [OF inv, of k] show ?thesis
      by (simp add: stream_inv_def set_deadline_index stream_or_default_def)
  next
    case False
    then have "stream_inv ?i k' = stream_inv i k'"
      by (intro stream_inv_cong) (simp_all add: set_deadline_index)
    with inv show ?thesis by (simp add: inner_inv_def)
  qed
  ultimately show ?thesis
    by (simp add: inner_inv_def)
qed

lemma extend_eq:
  assumes "clock_now rt e = (now, e1)"
  shows "memory_extend_lease C rt hash l ttl (Store i, e) =
    (case from_std C ttl of
       None \<Rightarrow> (Err (DispatchBackend (Msg ''ttl out of range'')), Store i, e1)
     | Some d \<Rightarrow>
         (case checked_add_signed C now d of
            None \<Rightarrow> (Panic, Poisoned, e1)
          | Some x \<Rightarrow> let (found, i') = extend_loop l now x i (iterate hash (index i)) in (Ok found, Store i', e1)))"
  by (simp add: memory_extend_lease_def locked_def extend_locked_def assms plus_or_panic_def
        split: option.split prod.split)

lemma extend_cases:
  assumes inv: "inner_inv i" and now: "clock_now rt e = (now, e1)"
    and run: "memory_extend_lease C rt hash l ttl (Store i, e) = (Ok found, st', e')"
  obtains (same) "\<not> found" "st' = Store i" "e' = e1"
      "(\<exists>k de ls. map_of (index i) k = Some de \<and> de_lease de = Some ls \<and> ls_lease ls = l) \<Longrightarrow>
       \<exists>k de ls. map_of (index i) k = Some de \<and> de_lease de = Some ls \<and> ls_lease ls = l \<and> ls_expires_at ls \<le> now"
  | (extended) k de ls d x where "found" "map_of (index i) k = Some de" "de_lease de = Some ls" "ls_lease ls = l"
      "now < ls_expires_at ls" "from_std C ttl = Some d" "checked_add_signed C now d = Some x"
      "st' = Store (set_deadline i k de ls x)" "inner_inv (set_deadline i k de ls x)" "e' = e1"
proof -
  from run obtain d x i' where dx: "from_std C ttl = Some d" "checked_add_signed C now d = Some x"
      and loop: "extend_loop l now x i (iterate hash (index i)) = (found, i')" and st: "st' = Store i'" "e' = e1"
    by (auto simp: extend_eq [OF now] split: option.splits prod.splits)
  have ix: "index_inv i" using inv by (simp add: inner_inv_def)
  from loop show thesis
  proof (cases rule: extend_loop_cases)
    case same
    then show thesis
      using that(1) st by (simp add: index_member [OF ix])
  next
    case (extended k de ls)
    then show thesis
      using that(2) dx st set_deadline_inv [OF inv] by (simp add: index_member [OF ix])
  qed
qed

section \<open>Retirement under the lock\<close>

text \<open>The job is indexed under a lease whose deadline has come.\<close>

definition expired :: "'v Inner \<Rightarrow> date_time \<Rightarrow> JobId \<Rightarrow> bool" where
  "expired i now k \<longleftrightarrow> (\<exists>de l. map_of (index i) k = Some de \<and> de_lease de = Some l \<and> ls_expires_at l \<le> now)"

lemma expired_set:
  assumes "index_inv i"
  shows "set (map fst (filter (\<lambda>(_, entry). entry_expired now entry) (iterate hash (index i)))) = {k. expired i now k}"
  by (force simp: expired_def entry_expired_def index_member [OF assms] split: option.splits)

lemma expired_finite:
  assumes "index_inv i"
  shows "finite {k. expired i now k}"
  using expired_set [OF assms, of now undefined] by (metis List.finite_set)

lemma expired_job:
  assumes "inner_inv i" and "expired i now k"
  obtains xs job where "streams i k = Some xs" "from_events xs = Ok job" "job_id job = k"
    "held_lease (job_state job) \<noteq> None"
proof -
  from assms(2) obtain de where de: "map_of (index i) k = Some de" "de_lease de \<noteq> None"
    by (auto simp: expired_def entry_expired_def split: option.splits)
  from assms(1) de(1) obtain xs job where "streams i k = Some xs" "from_events xs = Ok job" "job_id job = k"
      "entry_matches job (Some de)"
    by (rule index_entry_job)
  with de(2) show thesis
    using entry_matches_leased [of job de] by (intro that) (auto dest: sym)
qed

lemma retire_locked_None:
  assumes "index_inv i" and "clock_now rt e = (now, e1)" and "\<forall>k. \<not> expired i now k"
  shows "retire_locked C rt hash i e = (Ok (Ok None), i, e1)"
proof -
  have "map fst (filter (\<lambda>(_, entry). entry_expired now entry) (iterate hash (index i))) = []"
    using expired_set [OF assms(1), of now hash] assms(3) by (metis Collect_empty_eq set_empty)
  then have "filter (\<lambda>(_, entry). entry_expired now entry) (iterate hash (index i)) = []"
    by simp
  then show ?thesis
    by (simp add: retire_locked_def assms(2) iter_min_def)
qed

lemma retire_locked_least:
  assumes "inner_inv i" and "clock_now rt e = (now, e1)" and "expired i now k" and "\<forall>k'. expired i now k' \<longrightarrow> k \<le> k'"
    and "streams i k = Some xs" and "from_events xs = Ok job" and "jitter_seed rt e1 = (seed, e2)"
  shows "retire_locked C rt hash i e =
    (case expire_lease C job now seed of
       Ok evs \<Rightarrow>
         let (es, e3) = wrap_events rt k (job_version job) (fst (lineage_of xs)) (fst (snd (lineage_of xs)))
                          (snd (snd (lineage_of xs))) evs e2;
             (r, i') = append_locked k (job_version job) es i
         in (and_then r (\<lambda>_. Ok (Ok (Some k))), i', e3)
     | Err x \<Rightarrow> (Ok (Err x), i, e2)
     | Panic \<Rightarrow> (Panic, i, e2))"
proof -
  let ?ks = "map fst (filter (\<lambda>(_, entry). entry_expired now entry) (iterate hash (index i)))"
  have ix: "index_inv i" using assms(1) by (simp add: inner_inv_def)
  have "Min {k. expired i now k} = k"
    using assms(3,4) expired_finite [OF ix] by (intro Min_eqI) auto
  moreover have "?ks \<noteq> []"
    using expired_set [OF ix, of now hash] assms(3) by (metis empty_iff empty_set mem_Collect_eq)
  ultimately have pick: "iter_min ?ks = Some k"
    unfolding iter_min_eq expired_set [OF ix] by (simp only: if_False)
  obtain corr caus trace where lin: "lineage_of xs = (corr, caus, trace)"
    by (cases "lineage_of xs") auto
  show ?thesis
    unfolding retire_locked_def
    by (simp add: assms(2) pick assms(5-7) lin Let_def split: prod.split outcome.split)
qed

lemma least_expired:
  assumes "index_inv i" and "\<exists>k. expired i now k"
  obtains k where "expired i now k" "\<forall>k'. expired i now k' \<longrightarrow> k \<le> k'"
proof
  show "expired i now (Min {k. expired i now k})"
    using Min_in [OF expired_finite [OF assms(1)]] assms(2) by blast
  show "\<forall>k'. expired i now k' \<longrightarrow> Min {k. expired i now k} \<le> k'"
    using Min_le [OF expired_finite [OF assms(1)]] by blast
qed

lemma retire_eq:
  "retire_one C rt hash (Store i, e) =
     (let (r, i', e') = retire_locked C rt hash i e
      in (and_then (map_err DispatchStore r) (map_err DispatchDomain),
          (case r of Panic \<Rightarrow> Poisoned | _ \<Rightarrow> Store i'), e'))"
  by (simp add: retire_one_def locked_def split: prod.split outcome.split)

lemma retire_cases:
  fixes i :: "'v Inner"
  assumes inv: "inner_inv i" and now: "clock_now rt e = (now, e1)" and sd: "jitter_seed rt e1 = (seed, e2)"
    and run: "retire_one C rt hash (Store i, e) = (r, st', e')"
  obtains
    (none) "\<forall>k. \<not> expired i now k" "r = Ok None" "st' = Store i"
  | (err) k job x where "expired i now k" "\<forall>k'. expired i now k' \<longrightarrow> k \<le> k'"
      "from_events (store_hist (Store i) k) = Ok job" "r = Err x" "st' = Store i"
      "expire_lease C job now seed = Err InvalidTtl \<and> x = DispatchDomain InvalidTtl
        \<or> 2 ^ 64 \<le> length (store_hist (Store i) k)"
  | (retired) k job evs job' i' where "expired i now k" "\<forall>k'. expired i now k' \<longrightarrow> k \<le> k'"
      "from_events (store_hist (Store i) k) = Ok job" "job_id job = k" "held_lease (job_state job) \<noteq> None"
      "expire_lease C job now seed = Ok evs" "apply_all job evs = Ok job'"
      "r = Ok (Some k)" "st' = Store i'" "inner_inv i'"
      "extends (store_hist (Store i)) k evs (store_hist (Store i'))"
      "from_events (store_hist (Store i') k) = Ok job'"
      "map_of (index i') = (map_of (index i))(k := projected_entry job' (projected_seq i k))"
proof (cases "\<exists>k. expired i now k")
  case False
  with inv run show thesis
    by (intro none) (simp_all add: retire_eq retire_locked_None [OF _ now] inner_inv_def)
next
  case True
  then obtain k where k: "expired i now k" "\<forall>k'. expired i now k' \<longrightarrow> k \<le> k'"
    using inv by (auto simp: inner_inv_def elim: least_expired)
  from inv k(1) obtain xs job where xs: "streams i k = Some xs" and job: "from_events xs = Ok job"
      and id: "job_id job = k" and held: "held_lease (job_state job) \<noteq> None"
    by (rule expired_job)
  have h: "store_hist (Store i) k = xs"
    using xs by (simp add: store_hist_def stream_or_default_def)
  note c = retire_locked_least [OF inv now k xs job sd, of C hash]
  show thesis
  proof (cases "expire_lease C job now seed")
    case (Err x)
    then have "x = InvalidTtl"
      using held by (auto simp: expire_lease_def held_lease_def retry_decision_event_def Let_def outcome_simps
          split: JobState.splits RetryDecision.splits option.splits)
    with Err c run job h show ?thesis
      by (intro err [OF k, of job "DispatchDomain x"]) (simp_all add: retire_eq)
  next
    case Panic
    then show ?thesis by simp
  next
    case (Ok evs)
    then obtain job' where app: "apply_all job evs = Ok job'"
      using expire_lease_applies [OF Ok] by auto
    obtain corr caus trace where lin: "lineage_of xs = (corr, caus, trace)"
      by (cases "lineage_of xs") auto
    obtain es :: "'v stream" and e3 where es: "wrap_events rt k (job_version job) corr caus trace evs e2 = (es, e3)"
      by fastforce
    obtain r' i' where ap: "append_locked k (job_version job) es i = (r', i')" by fastforce
    note w = wrap_events_wrapped [OF es]
    have run': "retire_locked C rt hash i e = (and_then r' (\<lambda>_. Ok (Ok (Some k))), i', e3)"
      by (simp add: c Ok lin es ap)
    from append_locked_current [OF inv xs job app w ap] show ?thesis
    proof (elim disjE conjE exE)
      assume ok: "r' = Ok ()" "inner_inv i'" "streams i' = (streams i)(k \<mapsto> xs @ es)"
        "from_events (xs @ es) = Ok job'"
        "map_of (index i') = (map_of (index i))(k := projected_entry job' (projected_seq i k))"
      then have "store_hist (Store i') k = xs @ es"
        by (simp add: store_hist_def stream_or_default_def)
      with ok run run' job h show thesis
        by (intro retired [OF k _ id held Ok app _ _ ok(2) extends_upd [OF xs ok(3) job lin w] _ ok(5)])
           (simp_all add: retire_eq)
    next
      fix y
      assume "r' = Err y" "i' = i" "2 ^ 64 \<le> length xs"
      with run run' job h show thesis
        by (intro err [OF k, of job "DispatchStore y"]) (simp_all add: retire_eq)
    qed
  qed
qed

section \<open>The memory dispatcher implements the contract\<close>

lemma world_invE:
  assumes "world_inv w"
  obtains i e where "w = (Store i, e)" "inner_inv i"
  using assms by (cases w) (auto simp: world_inv_def elim: store_invE)

lemma held_indexed:
  assumes "inner_inv i" and "held (store_hist (Store i) k) \<noteq> None"
  obtains de where "map_of (index i) k = Some de" "map_option ls_lease (de_lease de) = held (store_hist (Store i) k)"
proof -
  from assms(2) obtain xs where xs: "streams i k = Some xs" "store_hist (Store i) k = xs"
    by (auto simp: store_hist_def stream_or_default_def held_def from_events_def split: option.splits)
  from assms(1) xs(1) obtain job where job: "from_events xs = Ok job" "entry_matches job (map_of (index i) k)"
    by (rule inner_inv_stream)
  with assms(2) xs(2) have "live_state (job_state job)"
    by (auto simp: held_Ok intro: held_live)
  with job(2) obtain de where "map_of (index i) k = Some de"
    by (auto simp: entry_matches_def split: option.splits)
  with job xs(2) that show thesis
    by (simp add: held_Ok entry_matches_leased)
qed

lemma indexed_held:
  assumes "inner_inv i" and "map_of (index i) k = Some de" and "de_lease de = Some ls"
  shows "held (store_hist (Store i) k) = Some (ls_lease ls)"
proof -
  from assms(1,2) obtain xs job where "streams i k = Some xs" "from_events xs = Ok job" "entry_matches job (Some de)"
    by (rule index_entry_job)
  with assms(3) show ?thesis
    using entry_matches_leased [of job de] by (simp add: store_hist_def stream_or_default_def held_Ok)
qed

lemma world_finite_held:
  assumes "world_inv w"
  shows "finite {k. held (world_hist w k) \<noteq> None}"
proof -
  from assms obtain i e where w: "w = (Store i, e)" "inner_inv i" by (rule world_invE)
  have "{k. held (world_hist w k) \<noteq> None} \<subseteq> fst ` set (index i)"
  proof
    fix k
    assume "k \<in> {k. held (world_hist w k) \<noteq> None}"
    then have "held (store_hist (Store i) k) \<noteq> None"
      by (simp add: w world_hist_def)
    with w(2) obtain de where "map_of (index i) k = Some de"
      by (rule held_indexed)
    then show "k \<in> fst ` set (index i)"
      by (metis domI dom_map_of_conv_image_fst)
  qed
  then show ?thesis
    by (rule finite_subset) simp
qed

lemma claim_Some_law:
  assumes "world_inv w" and "claim C rt hash q worker ttl w = (Ok (Some lj), w')"
  shows "world_inv w' \<and> held (world_hist w (lj_job_id lj)) = None
    \<and> held (world_hist w' (lj_job_id lj)) = Some (lj_lease lj)
    \<and> (\<exists>e. env_event e = E_Leased worker (lj_lease lj) (lj_expires_at lj)
          \<and> world_hist w' = (world_hist w)(lj_job_id lj := world_hist w (lj_job_id lj) @ [e]))"
proof -
  from assms(1) obtain i e where w: "w = (Store i, e)" "inner_inv i" by (rule world_invE)
  obtain now e1 l e2 st' e' where r: "clock_now rt e = (now, e1)" "new_lease_id rt e1 = (l, e2)" "w' = (st', e')"
    by (metis surj_pair)
  from assms(2) have run: "claim C rt hash q worker ttl (Store i, e) = (Ok (Some lj), st', e')"
    by (simp add: w r)
  show ?thesis
  proof (rule claim_cases [OF w(2) r(1,2) run])
    fix k xs job i' d x
    assume a: "streams i k = Some xs" "from_events xs = Ok job" "due job q now"
      "Ok (Some lj) = (Ok (Some (leased_job_of k job xs l x)) :: ('a LeasedJob option, DispatchError) outcome)"
      "st' = Store i'" "inner_inv i'" "extends (store_hist (Store i)) k [E_Leased worker l x] (store_hist (Store i'))"
      "from_events (store_hist (Store i') k) =
         Ok (job\<lparr>job_state := S_Leased worker l x, job_version := job_version job + 1\<rparr>)"
    from a(7) obtain es where es: "store_hist (Store i') = (store_hist (Store i))(k := store_hist (Store i) k @ es)"
        "map env_event es = [E_Leased worker l x]"
      by (rule extends_events)
    then obtain ev where ev: "es = [ev]" "env_event ev = E_Leased worker l x" by auto
    have lj: "lj_job_id lj = k" "lj_lease lj = l" "lj_expires_at lj = x"
      using a(4) by (auto simp: leased_job_of_def)
    have "held (store_hist (Store i) k) = None"
      using a(1-3) due_unleased [of job q now] by (simp add: store_hist_def stream_or_default_def held_Ok)
    moreover have "held (store_hist (Store i') k) = Some l"
      using held_Ok [OF a(8)] by (simp add: held_lease_def)
    moreover have "world_inv w'"
      using a(5,6) r(3) by (simp add: world_inv_def store_inv_def)
    ultimately show ?thesis
      using a(5) r(3) w(1) es(1) ev unfolding lj world_hist_def by (intro conjI exI [of _ ev]) simp_all
  qed simp_all
qed

lemma claim_same_law:
  assumes "world_inv w" and "claim C rt hash q worker ttl w = (r, w')" and "r = Ok None \<or> (\<exists>x. r = Err x)"
  shows "world_inv w' \<and> world_hist w' = world_hist w"
proof -
  from assms(1) obtain i e where w: "w = (Store i, e)" "inner_inv i" by (rule world_invE)
  obtain now e1 l e2 st' e' where r: "clock_now rt e = (now, e1)" "new_lease_id rt e1 = (l, e2)" "w' = (st', e')"
    by (metis surj_pair)
  from assms(2) have run: "claim C rt hash q worker ttl (Store i, e) = (r, st', e')"
    by (simp add: w r)
  have "st' = Store i"
    by (rule claim_cases [OF w(2) r(1,2) run]) (use assms(3) in simp_all)
  with w r(3) show ?thesis
    by (simp add: world_inv_def world_hist_def store_inv_def)
qed

lemma extend_Ok_law:
  assumes "world_inv w" and "memory_extend_lease C rt hash l ttl w = (Ok found, w')"
  shows "world_inv w' \<and> world_hist w' = world_hist w \<and> (found \<longrightarrow> (\<exists>j. held (world_hist w j) = Some l))"
proof -
  from assms(1) obtain i e where w: "w = (Store i, e)" "inner_inv i" by (rule world_invE)
  obtain now e1 st' e' where r: "clock_now rt e = (now, e1)" "w' = (st', e')"
    by (metis surj_pair)
  from assms(2) have run: "memory_extend_lease C rt hash l ttl (Store i, e) = (Ok found, st', e')"
    by (simp add: w r)
  from w(2) r(1) run show ?thesis
  proof (cases rule: extend_cases)
    case same
    with w r(2) show ?thesis
      by (simp add: world_inv_def world_hist_def store_inv_def)
  next
    case (extended k de ls d x)
    with w r(2) indexed_held [OF w(2) extended(2,3)] show ?thesis
      by (auto simp: world_inv_def world_hist_def store_inv_def store_hist_def stream_or_default_def fun_eq_iff)
  qed
qed

lemma retire_Some_law:
  assumes "world_inv w" and "retire_one C rt hash w = (Ok (Some j), w')"
  shows "world_inv w' \<and> held (world_hist w j) \<noteq> None \<and> held (world_hist w' j) = None
    \<and> (\<exists>es. world_hist w' = (world_hist w)(j := world_hist w j @ es))"
proof -
  from assms(1) obtain i e where w: "w = (Store i, e)" "inner_inv i" by (rule world_invE)
  obtain now e1 seed e2 st' e' where r: "clock_now rt e = (now, e1)" "jitter_seed rt e1 = (seed, e2)" "w' = (st', e')"
    by (metis surj_pair)
  from assms(2) have run: "retire_one C rt hash (Store i, e) = (Ok (Some j), st', e')"
    by (simp add: w r)
  from w(2) r(1,2) run show ?thesis
  proof (cases rule: retire_cases)
    case (retired k job evs job' i')
    then have k: "j = k" by simp
    have "held (store_hist (Store i') k) = None"
      using held_Ok [OF retired(12)] retire_state_unleased [OF retired(6,7)] by simp
    moreover have "held (store_hist (Store i) k) \<noteq> None"
      using held_Ok [OF retired(3)] retired(5) by simp
    moreover obtain es where "store_hist (Store i') = (store_hist (Store i))(k := store_hist (Store i) k @ es)"
      using retired(11) by (rule extends_events)
    ultimately show ?thesis
      using retired(9,10) r(3) w(1) k by (auto simp: world_inv_def world_hist_def store_inv_def)
  qed simp_all
qed

lemma retire_same_law:
  assumes "world_inv w" and "retire_one C rt hash w = (r, w')" and "r = Ok None \<or> (\<exists>x. r = Err x)"
  shows "world_inv w' \<and> world_hist w' = world_hist w"
proof -
  from assms(1) obtain i e where w: "w = (Store i, e)" "inner_inv i" by (rule world_invE)
  obtain now e1 seed e2 st' e' where r: "clock_now rt e = (now, e1)" "jitter_seed rt e1 = (seed, e2)" "w' = (st', e')"
    by (metis surj_pair)
  from assms(2) have run: "retire_one C rt hash (Store i, e) = (r, st', e')"
    by (simp add: w r)
  have "st' = Store i"
    by (rule retire_cases [OF w(2) r(1,2) run]) (use assms(3) in simp_all)
  with w r(3) show ?thesis
    by (simp add: world_inv_def world_hist_def store_inv_def)
qed

interpretation memory_disp: dispatcher_contract "memory_dispatcher C rt hash" world_inv world_hist
  for C rt hash
  apply unfold_locales
         apply (erule world_finite_held)
        apply (unfold memory_dispatcher_def dispatcher.simps)
        apply (erule (1) claim_Some_law)
       apply (erule (1) claim_same_law, simp)
      apply (erule (1) claim_same_law, simp)
     apply (erule (1) extend_Ok_law)
    apply (erule (1) retire_Some_law)
   apply (erule (1) retire_same_law, simp)
  apply (erule (1) retire_same_law, simp)
  done

end
