(* ===== verification/Test_Support.thy ===== *)
theory Test_Support
  imports Koine_Ports
begin

text \<open>
  The deterministic clock and id generator of \<open>koine-store-memory/src/test_support.rs\<close>, as a
  concrete \<open>runtime\<close>: time moves only by \<open>advance\<close>, and every id embeds the seed above a
  counter.  The concrete evaluations of the development run on it.
\<close>

record test_env =
  fixed_now :: date_time
  ids_seed :: u64
  ids_counter :: u64

definition fixed_at :: "date_time \<Rightarrow> u64 \<Rightarrow> test_env" where
  "fixed_at instant seed = \<lparr>fixed_now = instant, ids_seed = seed, ids_counter = 1\<rparr>"

text \<open>\<open>FixedClock::advance\<close>; \<open>delta_max\<close> is \<open>TimeDelta::MAX\<close>.\<close>

definition clock_advance :: "chrono \<Rightarrow> time_delta \<Rightarrow> duration \<Rightarrow> test_env \<Rightarrow> (test_env, unit) outcome" where
  "clock_advance C delta_max d e =
     (let delta = (case from_std C d of Some delta \<Rightarrow> delta | None \<Rightarrow> delta_max)
      in and_then (plus_or_panic C (fixed_now e) delta) (\<lambda>t. Ok (e\<lparr>fixed_now := t\<rparr>)))"

definition seeded_next :: "test_env \<Rightarrow> uuid \<times> test_env" where
  "seeded_next e =
     (push_bit 64 (ucast (ids_seed e)) OR ucast (ids_counter e), e\<lparr>ids_counter := ids_counter e + 1\<rparr>)"

definition test_runtime :: "test_env runtime" where
  "test_runtime = \<lparr>
     clock_now = (\<lambda>e. (fixed_now e, e)),
     new_job_id = (\<lambda>e. map_prod JobId (\<lambda>x. x) (seeded_next e)),
     new_event_id = (\<lambda>e. map_prod EventId (\<lambda>x. x) (seeded_next e)),
     new_lease_id = (\<lambda>e. map_prod LeaseId (\<lambda>x. x) (seeded_next e)),
     new_correlation_id = (\<lambda>e. map_prod CorrelationId (\<lambda>x. x) (seeded_next e)),
     jitter_seed = (\<lambda>e. (ids_seed e, e))\<rparr>"

text \<open>Ids of one generator never repeat while its counter has not wrapped.\<close>

lemma seeded_next_inj:
  assumes "ids_seed e = ids_seed e'" and "fst (seeded_next e) = fst (seeded_next e')"
  shows "ids_counter e = ids_counter e'"
proof (rule bit_word_eqI)
  fix n
  assume "n < LENGTH(64)"
  then have n: "n < 64" by simp
  have "bit (fst (seeded_next e)) n = bit (fst (seeded_next e')) n"
    using assms(2) by simp
  with n show "bit (ids_counter e) n = bit (ids_counter e') n"
    by (simp add: seeded_next_def bit_simps)
qed

lemma test_runtime_sel [simp]:
  "clock_now test_runtime e = (fixed_now e, e)"
  "jitter_seed test_runtime e = (ids_seed e, e)"
  by (simp_all add: test_runtime_def)

end
