(* ===== verification/Memory_Broker.thy ===== *)
theory Memory_Broker
  imports Memory_Dispatcher Test_Support
begin

text \<open>
  The broker over the in-memory adapters: the use cases of \<open>koine-application\<close> on the store
  and the dispatcher of \<open>koine-store-memory\<close>, their interleavings, and the properties a
  worker or an operator sees.
\<close>

section \<open>Interleavings\<close>

text \<open>
  One atomic step of any client: an append (how every use case that writes ends), a claim, a
  lease extension or a retirement.  Loads change nothing and are not steps.
\<close>

inductive broker_step ::
  "chrono \<Rightarrow> 'e runtime \<Rightarrow> 'v InMemoryEventStore \<Rightarrow> 'v InMemoryEventStore \<Rightarrow> bool"
  for C :: chrono and rt :: "'e runtime" where
  step_append: "memory_append k v es st = (r, st') \<Longrightarrow> broker_step C rt st st'"
| step_claim: "claim C rt hash q worker ttl (st, e) = (r, st', e') \<Longrightarrow> broker_step C rt st st'"
| step_extend: "memory_extend_lease C rt hash l ttl (st, e) = (r, st', e') \<Longrightarrow> broker_step C rt st st'"
| step_retire: "retire_one C rt hash (st, e) = (r, st', e') \<Longrightarrow> broker_step C rt st st'"

text \<open>What a step of the healthy broker keeps: the invariant, and every recorded event.\<close>

definition grows :: "'v InMemoryEventStore \<Rightarrow> 'v InMemoryEventStore \<Rightarrow> bool" where
  "grows st st' \<longleftrightarrow> store_inv st' \<and> (\<forall>k. \<exists>ys. store_hist st' k = store_hist st k @ ys)"

lemma grows_refl: "store_inv st \<Longrightarrow> grows st st"
  by (simp add: grows_def)

lemma grows_trans: "grows st st1 \<Longrightarrow> grows st1 st2 \<Longrightarrow> grows st st2"
  by (simp add: grows_def) (metis append.assoc)

lemma grows_upd: "store_inv st' \<Longrightarrow> store_hist st' = (store_hist st)(k := store_hist st k @ es) \<Longrightarrow> grows st st'"
  by (simp add: grows_def)

lemma claim_grows:
  assumes "store_inv st" and "claim C rt hash q worker ttl (st, e) = (r, st', e')"
  shows "st' = Poisoned \<or> grows st st'"
proof -
  from assms(1) have w: "world_inv (st, e)" by (simp add: world_inv_def)
  consider (some) lj where "r = Ok (Some lj)" | (same) "r = Ok None \<or> (\<exists>x. r = Err x)" | (panic) "r = Panic"
    by (metis option.exhaust outcome.exhaust)
  then show ?thesis
  proof cases
    case some
    from claim_Some_law [OF w assms(2) [unfolded some]] show ?thesis
      by (auto simp: world_inv_def world_hist_def intro: grows_upd)
  next
    case same
    from claim_same_law [OF w assms(2) same] show ?thesis
      by (auto simp: world_inv_def world_hist_def grows_def)
  next
    case panic
    from assms(1) obtain i where "st = Store i" by (rule store_invE)
    with assms(2) panic show ?thesis
      by (auto simp: claim_def locked_def outcome_simps Let_def split: prod.splits outcome.splits)
  qed
qed

lemma extend_grows:
  assumes "store_inv st" and "memory_extend_lease C rt hash l ttl (st, e) = (r, st', e')"
  shows "st' = Poisoned \<or> grows st st'"
proof -
  from assms(1) have w: "world_inv (st, e)" by (simp add: world_inv_def)
  obtain now e1 where now: "clock_now rt e = (now, e1)" by fastforce
  from assms(1) obtain i where i: "st = Store i" by (rule store_invE)
  show ?thesis
  proof (cases r)
    case (Ok found)
    from extend_Ok_law [OF w assms(2) [unfolded Ok]] show ?thesis
      by (auto simp: world_inv_def world_hist_def grows_def)
  next
    case (Err x)
    with assms i show ?thesis
      by (auto simp: extend_eq [OF now] grows_refl split: option.splits prod.splits)
  next
    case Panic
    with assms i show ?thesis
      by (auto simp: extend_eq [OF now] split: option.splits prod.splits)
  qed
qed

lemma retire_grows:
  assumes "store_inv st" and "retire_one C rt hash (st, e) = (r, st', e')"
  shows "grows st st'"
proof -
  from assms(1) have w: "world_inv (st, e)" by (simp add: world_inv_def)
  from assms(1) obtain i where i: "st = Store i" "inner_inv i" by (rule store_invE)
  obtain now e1 seed e2 where "clock_now rt e = (now, e1)" "jitter_seed rt e1 = (seed, e2)" by fastforce
  with i(2) assms(2) have "r \<noteq> Panic"
    unfolding i(1) by (auto elim: retire_cases)
  then consider (some) k where "r = Ok (Some k)" | (same) "r = Ok None \<or> (\<exists>x. r = Err x)"
    by (metis option.exhaust outcome.exhaust)
  then show ?thesis
  proof cases
    case some
    from retire_Some_law [OF w assms(2) [unfolded some]] show ?thesis
      by (auto simp: world_inv_def world_hist_def intro: grows_upd)
  next
    case same
    from retire_same_law [OF w assms(2) same] show ?thesis
      by (auto simp: world_inv_def world_hist_def grows_def)
  qed
qed

lemma append_grows:
  assumes "store_inv st" and "memory_append k v es st = (r, st')"
  shows "grows st st'"
proof (cases r)
  case (Ok u)
  with memory_append_hist [OF assms(1), of k v es u st'] assms(2) show ?thesis
    by (auto intro: grows_upd)
next
  case (Err x)
  with memory_append_Err assms have "st' = st" by blast
  with assms(1) show ?thesis by (simp add: grows_refl)
next
  case Panic
  with memory_append_not_Panic [of k v es st] assms(2) show ?thesis by simp
qed

lemma broker_step_Poisoned: "broker_step C rt Poisoned st' \<Longrightarrow> st' = Poisoned"
  by (auto simp: broker_step.simps memory_append_def claim_def memory_extend_lease_def retire_one_def
        locked_def Let_def split: prod.splits)

lemma broker_step_grows:
  assumes "broker_step C rt st st'" and "store_inv st"
  shows "st' = Poisoned \<or> grows st st'"
  using assms by cases (blast dest: append_grows claim_grows extend_grows retire_grows)+

lemma broker_steps_grow:
  assumes "(broker_step C rt)\<^sup>*\<^sup>* st st'" and "store_inv st"
  shows "st' = Poisoned \<or> grows st st'"
  using assms(1)
proof (induction rule: rtranclp_induct)
  case base
  then show ?case using assms(2) by (simp add: grows_refl)
next
  case (step st1 st2)
  then show ?case
    using broker_step_Poisoned broker_step_grows grows_trans by (metis grows_def)
qed

lemma store_inv_new: "store_inv store_new"
  by (simp add: store_inv_def store_new_def inner_inv_default)

section \<open>Sample stores for the concrete evaluations\<close>

definition sample_store :: "nat stream \<Rightarrow> nat InMemoryEventStore" where
  "sample_store xs = snd (memory_append (JobId 1) 0 xs store_new)"

lemma sample_store_facts:
  assumes "from_events xs = Ok job" and "list_all (\<lambda>e. env_stream_id e = JobId 1) xs"
  shows "store_inv (sample_store xs)" and "store_hist (sample_store xs) = (\<lambda>_. [])(JobId 1 := xs)"
proof -
  have h: "store_hist (store_new :: nat InMemoryEventStore) = (\<lambda>_. [])"
    by (simp add: fun_eq_iff store_hist_def store_new_def inner_default_def stream_or_default_def)
  have "\<exists>st. memory_append (JobId 1) 0 xs store_new = (Ok (), st)"
    using memory_append_accepts [OF store_inv_new, of 0 "JobId 1" xs job] assms from_events_frame [OF assms(1)]
    by (simp add: h)
  then have a: "memory_append (JobId 1) 0 xs store_new = (Ok (), sample_store xs)"
    by (auto simp: sample_store_def)
  from memory_append_hist [OF store_inv_new a] show "store_inv (sample_store xs)"
      "store_hist (sample_store xs) = (\<lambda>_. [])(JobId 1 := xs)"
    by (simp_all add: h)
qed

lemma sample_stores:
  "store_inv (sample_store sample_pending)" "store_hist (sample_store sample_pending) (JobId 1) = sample_pending"
  "store_inv (sample_store sample_leased)" "store_hist (sample_store sample_leased) (JobId 1) = sample_leased"
  "store_inv (sample_store sample_running)" "store_hist (sample_store sample_running) (JobId 1) = sample_running"
  using sample_store_facts [OF sample_folds(1)] sample_store_facts [OF sample_folds(2)]
    sample_store_facts [OF sample_folds(3)]
  by (simp_all add: sample_streams sample_envelope_def)

lemma sample_not_Poisoned: "sample_store xs \<noteq> Poisoned"
  using memory_append_not_Panic [of "JobId 1" 0 xs store_new]
  by (auto simp: sample_store_def store_new_def memory_append_Store split: outcome.splits prod.splits)

section \<open>The broker stays consistent\<close>

text \<open>
  C3. Whatever the clients do, in whatever interleaving, a broker that has not been poisoned by
  a panic is consistent: every stream folds to a job of its own id, the dispatch index is
  exactly the projection of the streams (pending jobs unleased, leased and running jobs under
  the lease they recorded, nothing else), and dispatch sequence numbers are distinct.
\<close>

theorem reachable_consistent:
  assumes "(broker_step C rt)\<^sup>*\<^sup>* store_new st"
  shows "st = Poisoned \<or> store_inv st"
  using broker_steps_grow [OF assms store_inv_new] by (auto simp: grows_def)

theorem reachable_consistent_witness: "store_inv (sample_store sample_running)"
proof -
  have "broker_step chrono_doc test_runtime store_new (sample_store sample_running)"
    by (rule broker_step.step_append [where k = "JobId 1" and v = 0 and es = sample_running
          and r = "fst (memory_append (JobId 1) 0 sample_running store_new)"])
       (simp add: sample_store_def)
  then have "(broker_step chrono_doc test_runtime)\<^sup>*\<^sup>* store_new (sample_store sample_running)"
    by (rule r_into_rtranclp)
  from reachable_consistent [OF this] show ?thesis
    by (simp add: sample_not_Poisoned)
qed

text \<open>
  C25. History is append-only: along any interleaving of clients, no recorded event is lost,
  changed or reordered.
\<close>

theorem history_append_only:
  assumes "(broker_step C rt)\<^sup>*\<^sup>* st st'" and "store_inv st" and "st' \<noteq> Poisoned"
  shows "\<exists>ys. store_hist st' k = store_hist st k @ ys"
  using broker_steps_grow [OF assms(1,2)] assms(3) by (auto simp: grows_def)

theorem history_append_only_witness:
  "\<exists>ys. store_hist (sample_store sample_pending) (JobId 1) = store_hist store_new (JobId 1) @ ys"
proof (rule history_append_only [where C = chrono_doc and rt = test_runtime])
  show "(broker_step chrono_doc test_runtime)\<^sup>*\<^sup>* store_new (sample_store sample_pending)"
    by (rule r_into_rtranclp, rule broker_step.step_append [where k = "JobId 1" and v = 0 and es = sample_pending
          and r = "fst (memory_append (JobId 1) 0 sample_pending store_new)"])
       (simp add: sample_store_def)
  show "sample_store sample_pending \<noteq> Poisoned"
    by (rule sample_not_Poisoned)
qed (rule store_inv_new)

text \<open>
  C4. The acks are atomic although they load and append in two steps.  Take any interleaving
  between a worker's load and its commit: if the stream is as it was, the commit is exactly the
  use case run atomically in the later state; if anything was recorded in between, the commit
  is refused with a version conflict and changes nothing.
\<close>

theorem succeed_commit_atomic:
  assumes "store_inv st" and "ack_load memory_store j st = Ok (job, xs)"
    and "(broker_step C rt)\<^sup>*\<^sup>* st st'" and "st' \<noteq> Poisoned" and "length (store_hist st' j) < 2 ^ 63"
  shows "commits_or_conflicts j (job_version job) (store_hist st' j = store_hist st j)
    (ack_succeed_loaded memory_store rt job xs worker l res (st', e))
    (ack_succeed memory_store rt j worker l res (st', e)) st'"
proof -
  have load: "es_load memory_store j st = Ok xs" and fold: "from_events xs = Ok job"
    using assms(2) by (auto simp: ack_load_def outcome_simps)
  obtain id: "job_id job = j" and h: "store_hist st j = xs"
    using memory.loaded_job [OF assms(1) load] fold by (metis outcome.inject(1))
  obtain ys where ys: "store_hist st' j = xs @ ys" and inv: "store_inv st'"
    using broker_steps_grow [OF assms(3,1)] assms(4) h by (auto simp: grows_def)
  have "(store_hist st' j = store_hist st j) = (ys = [])"
    by (simp add: ys h)
  with memory.succeed_interleaved [OF inv fold id ys assms(5)] show ?thesis
    by simp
qed

theorem succeed_commit_atomic_witness:
  "commits_or_conflicts (JobId 1) 3 True
     (ack_succeed_loaded memory_store test_runtime (sample_job (S_Running sample_worker (LeaseId 50) 30) 0 3)
        sample_running sample_worker (LeaseId 50) (Some 8) (sample_store sample_running, fixed_at 20 5))
     (ack_succeed memory_store test_runtime (JobId 1) sample_worker (LeaseId 50) (Some 8)
        (sample_store sample_running, fixed_at 20 5))
     (sample_store sample_running)"
proof -
  let ?st = "sample_store sample_running"
  have load: "ack_load memory_store (JobId 1) ?st = Ok (sample_job (S_Running sample_worker (LeaseId 50) 30) 0 3, sample_running)"
    using memory.ack_load_known [OF sample_stores(5), of "JobId 1"] sample_stores(6) sample_folds(3) by simp
  have "length (store_hist ?st (JobId 1)) < 2 ^ 63"
    unfolding sample_stores(6) by (simp add: sample_streams)
  moreover have "?st \<noteq> Poisoned"
    by (rule sample_not_Poisoned)
  ultimately show ?thesis
    using succeed_commit_atomic [OF sample_stores(5) load rtranclp.rtrancl_refl [of "broker_step chrono_doc test_runtime"],
        where worker = sample_worker and l = "LeaseId 50" and res = "Some 8" and e = "fixed_at 20 5"]
    by (simp add: sample_job_def)
qed

section \<open>The use cases over the memory store\<close>

text \<open>
  C26. A success report is never lost.  On every known job the ack is accepted: under the lease the
  job is running with it records \<open>succeeded\<close> and answers \<open>Recorded\<close>; in every other state, or
  under any other lease, it records a late-ack conflict, answers \<open>Conflict\<close> and leaves state and
  attempts of the job as they were.  Either way exactly one event is recorded, with the stream's
  lineage, and the store stays consistent.
\<close>

theorem ack_succeed_recorded:
  assumes "store_inv st" and "from_events (store_hist st j) = Ok job" and "length (store_hist st j) < 2 ^ 64"
  shows "\<exists>st' e' job'. ack_succeed memory_store rt j worker l res (st, e) =
      (Ok (if runs_under job l then Recorded else Conflict), st', e') \<and> store_inv st'
    \<and> extends (store_hist st) j
        [if runs_under job l then E_Succeeded res else E_LateAckConflict worker l ReportedSucceeded] (store_hist st')
    \<and> from_events (store_hist st' j) = Ok job'
    \<and> job_state job' = (if runs_under job l then S_Succeeded else job_state job)
    \<and> job_attempt job' = job_attempt job"
  using assms by (rule memory.ack_succeed_known) simp

lemma sample_short:
  "length (store_hist (sample_store sample_pending) (JobId 1)) < 2 ^ 63"
  "length (store_hist (sample_store sample_leased) (JobId 1)) < 2 ^ 63"
  "length (store_hist (sample_store sample_running) (JobId 1)) < 2 ^ 63"
  unfolding sample_stores(2,4,6) by (simp_all add: sample_streams)

lemma sample_short64:
  "length (store_hist (sample_store sample_leased) (JobId 1)) < 2 ^ 64"
  "length (store_hist (sample_store sample_running) (JobId 1)) < 2 ^ 64"
  unfolding sample_stores(4,6) by (simp_all add: sample_streams)

lemma sample_hist_folds:
  "from_events (store_hist (sample_store sample_pending) (JobId 1)) = Ok (sample_job (S_Pending None) 0 1)"
  "from_events (store_hist (sample_store sample_leased) (JobId 1)) =
     Ok (sample_job (S_Leased sample_worker (LeaseId 50) 30) 0 2)"
  "from_events (store_hist (sample_store sample_running) (JobId 1)) =
     Ok (sample_job (S_Running sample_worker (LeaseId 50) 30) 0 3)"
  unfolding sample_stores(2,4,6) by (rule sample_folds)+

theorem ack_succeed_recorded_witness:
  "\<exists>st' e'. ack_succeed memory_store test_runtime (JobId 1) sample_worker (LeaseId 51) (Some 8)
      (sample_store sample_running, fixed_at 20 5) = (Ok Conflict, st', e') \<and> store_inv st'"
proof -
  have "\<not> runs_under (sample_job (S_Running sample_worker (LeaseId 50) 30) 0 3) (LeaseId 51)"
    by (simp add: runs_under_def sample_job_def)
  then show ?thesis
    using ack_succeed_recorded [OF sample_stores(5) sample_hist_folds(3) sample_short64(2),
        where rt = test_runtime and worker = sample_worker and l = "LeaseId 51" and res = "Some 8" and e = "fixed_at 20 5"]
    by auto
qed

text \<open>
  C27. A failure report is never lost either.  When \<open>Job::fail\<close> accepts it, the failure and the
  retry verdict are recorded in one append and the attempt is counted; in every other case (no
  such lease, not running, or a retry date that cannot be represented) it is a recorded conflict.
\<close>

theorem ack_fail_recorded:
  assumes "store_inv st" and "from_events (store_hist st j) = Ok job" and "length (store_hist st j) < 2 ^ 64"
    and "clock_now rt e = (now, e1)" and "jitter_seed rt e1 = (seed, e2)"
  shows "\<exists>st' e' job'. ack_fail C memory_store rt j worker l err (st, e) =
      (Ok (if is_ok (fail C job l err now seed) then Recorded else Conflict), st', e') \<and> store_inv st'
    \<and> extends (store_hist st) j
        (case fail C job l err now seed of Ok evs \<Rightarrow> evs | _ \<Rightarrow> [E_LateAckConflict worker l ReportedFailed])
        (store_hist st')
    \<and> from_events (store_hist st' j) = Ok job'
    \<and> (if is_ok (fail C job l err now seed) then job_attempt job' = job_attempt job + 1
        else job_state job' = job_state job \<and> job_attempt job' = job_attempt job)"
  using assms(1-3) _ assms(4,5) by (rule memory.ack_fail_known) simp

theorem ack_fail_recorded_witness:
  "\<exists>st' e' job'. ack_fail chrono_doc memory_store test_runtime (JobId 1) sample_worker (LeaseId 50)
      (sample_error False) (sample_store sample_running, fixed_at 20 5) = (Ok Recorded, st', e')
    \<and> from_events (store_hist st' (JobId 1)) = Ok job' \<and> job_attempt job' = 1"
proof -
  let ?job = "sample_job (S_Running sample_worker (LeaseId 50) 30) 0 3"
  have f: "fail chrono_doc ?job (LeaseId 50) (sample_error False) 20 5 =
      Ok [E_Failed (sample_error False) 1, E_Parked NonRetryableError]"
    by (simp add: fail_def sample_defs)
  have rt: "clock_now test_runtime (fixed_at 20 5) = (20, fixed_at 20 5)"
      "jitter_seed test_runtime (fixed_at 20 5) = (5, fixed_at 20 5)"
    by (simp_all add: fixed_at_def)
  have "job_attempt ?job = 0"
    by (simp add: sample_job_def)
  with f ack_fail_recorded [OF sample_stores(5) sample_hist_folds(3) sample_short64(2) rt,
      where worker = sample_worker and l = "LeaseId 50" and C = chrono_doc and err = "sample_error False"]
  show ?thesis
    by auto
qed

text \<open>
  Cancelling works in every state but \<open>succeeded\<close> and \<open>cancelled\<close>: there it is refused
  with the transition error and nothing is recorded; everywhere else (parked, suspended and
  awaiting jobs included) one \<open>cancelled\<close> event is recorded and the job ends cancelled.
\<close>

lemma cancel_outcome:
  assumes "store_inv st" and "from_events (store_hist st j) = Ok job" and "length (store_hist st j) < 2 ^ 64"
  shows "if job_state job \<in> {S_Succeeded, S_Cancelled}
    then cancel_execute memory_store rt j reason (st, e) =
      (Err (AckDomain (IllegalTransition (state_name (job_state job)) ''cancelled'')), st, e)
    else \<exists>st' e' job'. cancel_execute memory_store rt j reason (st, e) = (Ok (), st', e') \<and> store_inv st'
      \<and> extends (store_hist st) j [E_Cancelled reason] (store_hist st')
      \<and> from_events (store_hist st' j) = Ok job' \<and> job_state job' = S_Cancelled"
  using assms by (rule memory.cancel_known) simp

text \<open>
  C28. Enqueue opens exactly one stream.  A policy outside the sanity bounds is refused before
  anything else happens; under a fresh job id the store then holds the one \<open>enqueued\<close> event,
  with the caller's correlation, causation and trace context, and folds to a pending job at
  attempt zero; an id that is taken is a version conflict that changes nothing.
\<close>

theorem enqueue_outcome:
  assumes "store_inv st" and "new_job_id rt e = (jid, e1)" and "length (store_hist st jid) < 2 ^ 63"
  shows "case validate_policy (cmd_retry_policy cmd) of
      Ok _ \<Rightarrow>
        if store_hist st jid = []
        then \<exists>st' e' env. enqueue_execute memory_store rt cmd (st, e) = (Ok jid, st', e') \<and> store_inv st'
          \<and> store_hist st' = (store_hist st)(jid := [env]) \<and> env_event env = command_event cmd
          \<and> from_events (store_hist st' jid) = Ok (command_job cmd jid)
          \<and> (\<forall>c. lin_correlation_id (cmd_lineage cmd) = Some c \<longrightarrow> env_correlation_id env = c)
          \<and> env_causation_id env = lin_causation_id (cmd_lineage cmd)
          \<and> env_traceparent env = lin_traceparent (cmd_lineage cmd)
        else \<exists>e'. enqueue_execute memory_store rt cmd (st, e) = (Err (EnqueueStore (VersionConflict jid 0)), st, e')
    | Err x \<Rightarrow> enqueue_execute memory_store rt cmd (st, e) = (Err x, st, e)
    | Panic \<Rightarrow> False"
proof (cases "validate_policy (cmd_retry_policy cmd)")
  case (Ok u)
  then have "validate_policy (cmd_retry_policy cmd) = Ok ()" by simp
  from memory.enqueue_valid [OF assms(1) this assms(2,3)] show ?thesis
    by (simp add: Ok)
next
  case (Err x)
  then show ?thesis by (simp add: memory.enqueue_invalid)
qed simp

theorem enqueue_outcome_witness:
  "\<exists>st' e'. enqueue_execute memory_store test_runtime sample_command (store_new, fixed_at 20 0)
     = (Ok (JobId 1), st', e') \<and> store_inv st'"
proof -
  have id: "new_job_id test_runtime (fixed_at 20 0) = (JobId 1, (fixed_at 20 0)\<lparr>ids_counter := 2\<rparr>)"
    by (simp add: test_runtime_def seeded_next_def fixed_at_def)
  have h: "store_hist (store_new :: nat InMemoryEventStore) (JobId 1) = []"
    by (simp add: store_hist_def store_new_def inner_default_def stream_or_default_def)
  have "validate_policy (cmd_retry_policy sample_command) = Ok ()"
    by (simp add: validate_policy_def sample_command_def sample_policy_def MAX_SANE_ATTEMPTS_def
          MAX_SANE_DELAY_def from_secs_def)
  with enqueue_outcome [OF store_inv_new id, of sample_command] h show ?thesis
    by auto
qed

end
