(* ===== verification/Lease_Properties.thy ===== *)
theory Lease_Properties
  imports Memory_Broker
begin

text \<open>
  The lease protocol over the in-memory adapters, as ADRs 0011 and 0016 and
  \<open>docs/formal/lease_protocol.tla\<close> state it: which job a claim serves, what a heartbeat
  guarantees against the sweep, what a retirement records, and that the sweep ends.
\<close>

section \<open>Claiming\<close>

lemma due_best:
  assumes "inner_inv i" and "from_events (store_hist (Store i) k) = Ok job" and "due job queue now"
  shows "\<exists>k. best i queue now k"
proof -
  have ix: "index_inv i" using assms(1) by (simp add: inner_inv_def)
  obtain xs where xs: "streams i k = Some xs" "store_hist (Store i) k = xs"
    using assms(2) by (auto simp: store_hist_def stream_or_default_def from_events_def split: option.splits)
  from assms(1) xs(1) obtain job' where "from_events xs = Ok job'" "entry_matches job' (map_of (index i) k)"
    by (rule inner_inv_stream)
  with assms(2) xs(2) have m: "entry_matches job (map_of (index i) k)" by simp
  from m assms(3) obtain de where de: "map_of (index i) k = Some de"
    by (rule entry_of_due)
  with m assms(3) have "entry_eligible queue now de"
    by (simp add: entry_matches_eligible)
  with de have "pick_eligible undefined i queue now \<noteq> None"
    by (auto simp: pick_eligible_None [OF ix])
  then show ?thesis
    using pick_eligible_Some [OF ix] by blast
qed

text \<open>
  C18. The claim serves the right job.  When some job of the queue is due, the claim takes the one
  of highest priority that was indexed first, records one \<open>leased\<close> event on it with the new lease
  id and the deadline now plus ttl, and hands out that job's payload, attempt and lineage; when no
  job of the queue is due, and only then, it answers \<open>None\<close> and records nothing.
\<close>

theorem claim_picks_best:
  assumes "store_inv (Store i)" and "short_streams (Store i)" and "clock_now rt e = (now, e1)"
    and "new_lease_id rt e1 = (l, e2)" and "from_std C ttl = Some d" and "checked_add_signed C now d = Some x"
  shows "if \<exists>k job. from_events (store_hist (Store i) k) = Ok job \<and> due job queue now
    then \<exists>k job i' e'. best i queue now k \<and> from_events (store_hist (Store i) k) = Ok job \<and> due job queue now
      \<and> claim C rt hash queue worker ttl (Store i, e) =
          (Ok (Some (leased_job_of k job (store_hist (Store i) k) l x)), Store i', e')
      \<and> store_inv (Store i') \<and> extends (store_hist (Store i)) k [E_Leased worker l x] (store_hist (Store i'))
    else \<exists>e'. claim C rt hash queue worker ttl (Store i, e) = (Ok None, Store i, e')"
proof -
  from assms(1) have inv: "inner_inv i" by (simp add: store_inv_def)
  obtain r st' e' where run: "claim C rt hash queue worker ttl (Store i, e) = (r, st', e')"
    by (metis surj_pair)
  from inv assms(3,4) run show ?thesis
  proof (cases rule: claim_cases)
    case none
    with due_best [OF inv] have "\<not> (\<exists>k job. from_events (store_hist (Store i) k) = Ok job \<and> due job queue now)"
      by blast
    with none run show ?thesis by simp
  next
    case (err y)
    with assms(5) obtain k where "2 ^ 64 \<le> length (store_hist (Store i) k)"
      by auto
    moreover have "length (store_hist (Store i) k) < 2 ^ 63"
      using assms(2) by (simp add: short_streams_def)
    ultimately have False
      by simp
    then show ?thesis ..
  next
    case (panic d)
    with assms(5,6) show ?thesis by simp
  next
    case (leased k xs job i' d' x')
    have h: "store_hist (Store i) k = xs"
      using leased(2) by (simp add: store_hist_def stream_or_default_def)
    with leased assms(5,6) run have "claim C rt hash queue worker ttl (Store i, e) =
        (Ok (Some (leased_job_of k job (store_hist (Store i) k) l x)), Store i', e')"
        "from_events (store_hist (Store i) k) = Ok job" "store_inv (Store i')"
        "extends (store_hist (Store i)) k [E_Leased worker l x] (store_hist (Store i'))"
      by (simp_all add: store_inv_def)
    moreover from this leased(5) have "\<exists>k job. from_events (store_hist (Store i) k) = Ok job \<and> due job queue now"
      by blast
    ultimately show ?thesis
      unfolding if_P [OF \<open>\<exists>k job. _ k job\<close>] using leased(1,5) by blast
  qed
qed

lemma option_eqI:
  assumes "\<And>k. a = Some k \<longleftrightarrow> b = Some k"
  shows "a = b"
  using assms [of "the a"] assms [of "the b"] by (cases a; cases b) auto

lemma iter_min_cong:
  assumes "set xs = set ys"
  shows "iter_min xs = iter_min ys"
proof -
  have "xs = [] \<longleftrightarrow> ys = []"
    using assms by (cases xs; cases ys) auto
  with assms show ?thesis
    by (simp add: iter_min_eq)
qed

text \<open>
  C24. The iteration order of the index \<open>HashMap\<close> does not show: claims and retirements give the
  same answer and the same store whatever the hash function.
\<close>

theorem dispatch_order_independent:
  assumes "store_inv st"
  shows "claim C rt hash queue worker ttl (st, e) = claim C rt hash' queue worker ttl (st, e)
    \<and> retire_one C rt hash (st, e) = retire_one C rt hash' (st, e)"
proof -
  from assms obtain i where i: "st = Store i" "inner_inv i" by (rule store_invE)
  then have ix: "index_inv i" by (simp add: inner_inv_def)
  have "pick_eligible hash i queue now = pick_eligible hash' i queue now" for now
    by (rule option_eqI) (simp only: pick_eligible_iff [OF ix])
  then have "claim_locked C rt hash queue worker ttl now i e' = claim_locked C rt hash' queue worker ttl now i e'" for now e'
    by (simp add: claim_locked_def)
  moreover have "iter_min (map fst (filter (\<lambda>(_, entry). entry_expired now entry) (iterate hash (index i)))) =
      iter_min (map fst (filter (\<lambda>(_, entry). entry_expired now entry) (iterate hash' (index i))))" for now
    by (rule iter_min_cong) (simp only: expired_set [OF ix])
  then have "retire_locked C rt hash i e' = retire_locked C rt hash' i e'" for e'
    by (simp add: retire_locked_def)
  ultimately show ?thesis
    by (simp add: i claim_def retire_one_def locked_def)
qed

section \<open>Heartbeat and retirement\<close>

lemma retired_expired:
  assumes "inner_inv i" and "clock_now rt e = (t, e1)" and "retire_one C rt hash (Store i, e) = (Ok (Some k), w')"
  shows "expired i t k"
proof -
  obtain st' e' where w': "w' = (st', e')" by (cases w')
  obtain seed e2 where seed: "jitter_seed rt e1 = (seed, e2)" by fastforce
  from assms(1,2) seed assms(3) [unfolded w'] show ?thesis
    by (cases rule: retire_cases) simp_all
qed

text \<open>
  C19. The heartbeat fence (ADR 0016): once the dispatcher has accepted a heartbeat, the sweep
  that follows it does not retire that lease before the deadline the heartbeat was granted.
\<close>

theorem heartbeat_fence:
  assumes "store_inv (Store i)" and "held (store_hist (Store i) k) = Some l"
    and "\<forall>k'. held (store_hist (Store i) k') = Some l \<longrightarrow> k' = k"
    and "clock_now rt e = (now, e1)" and "from_std C ttl = Some d" and "checked_add_signed C now d = Some x"
    and "memory_extend_lease C rt hash l ttl (Store i, e) = (Ok True, st1, e2)"
    and "clock_now rt e3 = (t, e4)" and "t < x"
  shows "fst (retire_one C rt hash (st1, e3)) \<noteq> Ok (Some k)"
proof -
  from assms(1) have inv: "inner_inv i" by (simp add: store_inv_def)
  obtain de ls where de: "map_of (index i) k = Some de" "de_lease de = Some ls"
      "st1 = Store (set_deadline i k de ls x)" "inner_inv (set_deadline i k de ls x)"
    using inv assms(4,7)
  proof (cases rule: extend_cases)
    case (extended k' de ls d' x')
    then have "k' = k"
      using indexed_held [OF inv extended(2,3)] assms(3) by simp
    with extended assms(5,6) show thesis
      by (intro that) simp_all
  qed simp
  have "\<not> expired (set_deadline i k de ls x) t k"
    using assms(9) by (simp add: expired_def set_deadline_index)
  then show ?thesis
    using retired_expired [OF de(4) assms(8), of C hash k] unfolding de(3)
    by (cases "retire_one C rt hash (Store (set_deadline i k de ls x), e3)") auto
qed

text \<open>
  C23. The other order: once a lease has been retired, a heartbeat for it is refused, whatever
  happens on the clock, so the worker learns that it must stop.
\<close>

theorem retired_lease_heartbeat_refused:
  assumes "store_inv st" and "held (store_hist st j) = Some l"
    and "\<forall>k. held (store_hist st k) = Some l \<longrightarrow> k = j"
    and "retire_one C rt hash (st, e) = (Ok (Some j), st1, e1)"
    and "heartbeat_execute (memory_dispatcher C rt hash) l ttl (st1, e2) = (Ok found, w3)"
  shows "\<not> found"
proof -
  let ?D = "memory_dispatcher C rt hash"
  have w: "world_inv (st, e)" using assms(1) by (simp add: world_inv_def)
  have r: "retire_next_expired_lease ?D (st, e) = (Ok (Some j), (st1, e1))"
    using assms(4) by (simp add: memory_dispatcher_def)
  have "world_inv (st1, e1)"
    by (rule memory_disp.retire_Some [OF w r, THEN conjunct1])
  then have w2: "world_inv (st1, e2)" "world_hist (st1, e2) = world_hist (st1, e1)"
    by (simp_all add: world_inv_def world_hist_def)
  have h: "held (world_hist (st, e) j) = Some l" "\<forall>k. held (world_hist (st, e) k) = Some l \<longrightarrow> k = j"
    unfolding world_hist_def fst_conv by (fact assms(2), fact assms(3))
  have "extend_lease ?D l ttl (st1, e2) = (Ok found, w3)"
    using assms(5) by (simp add: heartbeat_execute_def)
  then show ?thesis
    by (rule memory_disp.retired_lease_refused [OF w h r w2])
qed

section \<open>Sample states\<close>

definition sample_entry :: "LeaseState option \<Rightarrow> DispatchEntry" where
  "sample_entry ls =
     \<lparr>de_queue = QueueName (lit ''default''), de_priority = Priority 3, de_seq = 1, de_not_before = None,
      de_lease = ls\<rparr>"

definition sample_lease :: "date_time \<Rightarrow> LeaseState" where
  "sample_lease x = \<lparr>ls_lease = LeaseId 50, ls_worker = sample_worker, ls_expires_at = x\<rparr>"

definition sample_inner :: "nat stream \<Rightarrow> LeaseState option \<Rightarrow> nat Inner" where
  "sample_inner xs ls = \<lparr>streams = [JobId 1 \<mapsto> xs], index = [(JobId 1, sample_entry ls)], inner_seq = 1\<rparr>"

lemma sample_store_eq:
  "sample_store sample_pending = Store (sample_inner sample_pending None)"
  "sample_store sample_leased = Store (sample_inner sample_leased (Some (sample_lease 30)))"
proof -
  have ids: "batch_ok (JobId 1) 0 sample_pending" "batch_ok (JobId 1) 0 sample_leased"
    by (simp_all add: sample_streams sample_envelope_def)
  show "sample_store sample_pending = Store (sample_inner sample_pending None)"
    using ids(1) sample_folds(1)
    by (simp add: sample_store_def store_new_def memory_append_Store append_locked_def u64_try_from_def
          stream_or_default_def inner_default_def project_locked_def sample_inner_def sample_entry_def
          sample_job_def)
  show "sample_store sample_leased = Store (sample_inner sample_leased (Some (sample_lease 30)))"
    using ids(2) sample_folds(2)
    by (simp add: sample_store_def store_new_def memory_append_Store append_locked_def u64_try_from_def
          stream_or_default_def inner_default_def project_locked_def sample_inner_def sample_entry_def
          sample_lease_def sample_job_def)
qed

lemma sample_held:
  "held (store_hist (Store (sample_inner sample_leased (Some (sample_lease 30)))) k) = Some l \<longleftrightarrow>
     k = JobId 1 \<and> l = LeaseId 50"
proof -
  have "store_hist (Store (sample_inner sample_leased (Some (sample_lease 30)))) k =
      (if k = JobId 1 then sample_leased else [])"
    by (simp add: store_hist_def sample_inner_def stream_or_default_def)
  then show ?thesis
    using held_Ok [OF sample_folds(2)] by (auto simp: held_def from_events_def sample_job_def held_lease_def)
qed

lemma sample_extend:
  "memory_extend_lease chrono_doc test_runtime (\<lambda>_. 0) (LeaseId 50) 100
     (Store (sample_inner sample_leased (Some (sample_lease 30))), fixed_at 20 5) =
   (Ok True, Store (sample_inner sample_leased (Some (sample_lease 120))), fixed_at 20 5)"
  by (simp add: extend_eq [OF test_runtime_sel(1)] fixed_at_def chrono_doc_def sample_inner_def sample_entry_def
        sample_lease_def iterate_def)

theorem heartbeat_fence_witness:
  "fst (retire_one chrono_doc test_runtime (\<lambda>_. 0)
     (Store (sample_inner sample_leased (Some (sample_lease 120))), fixed_at 50 5)) \<noteq> Ok (Some (JobId 1))"
proof (rule heartbeat_fence [OF _ _ _ _ _ _ sample_extend])
  show "store_inv (Store (sample_inner sample_leased (Some (sample_lease 30))))"
    using sample_stores(3) by (simp add: sample_store_eq)
  show "clock_now test_runtime (fixed_at 20 5) = (20, fixed_at 20 5)"
    "clock_now test_runtime (fixed_at 50 5) = (50, fixed_at 50 5)"
    by (simp_all add: fixed_at_def)
  show "from_std chrono_doc 100 = Some 100" "checked_add_signed chrono_doc 20 100 = Some 120" "(50 :: int) < 120"
    by (simp_all add: chrono_doc_def)
qed (simp_all add: sample_held)

theorem claim_picks_best_witness:
  "\<exists>k job i' e'. claim chrono_doc test_runtime (\<lambda>_. 0) (QueueName (lit ''default'')) sample_worker 100
     (Store (sample_inner sample_pending None), fixed_at 20 5) =
     (Ok (Some (leased_job_of k job (store_hist (Store (sample_inner sample_pending None)) k)
        (LeaseId (fst (seeded_next (fixed_at 20 5)))) 120)), Store i', e')
     \<and> store_inv (Store i')"
proof -
  let ?i = "sample_inner sample_pending None"
  have inv: "store_inv (Store ?i)" and h: "store_hist (Store ?i) (JobId 1) = sample_pending"
    using sample_stores(1,2) by (simp_all add: sample_store_eq)
  have short: "short_streams (Store ?i)"
    by (simp add: short_streams_def store_hist_def stream_or_default_def sample_inner_def sample_pending_def)
  have rt: "clock_now test_runtime (fixed_at 20 5) = (20, fixed_at 20 5)"
      "new_lease_id test_runtime (fixed_at 20 5) =
        (LeaseId (fst (seeded_next (fixed_at 20 5))), snd (seeded_next (fixed_at 20 5)))"
      "from_std chrono_doc 100 = Some 100" "checked_add_signed chrono_doc 20 100 = Some 120"
    by (simp_all add: fixed_at_def chrono_doc_def test_runtime_def map_prod_def split: prod.split)
  have "\<exists>k job. from_events (store_hist (Store ?i) k) = Ok job \<and> due job (QueueName (lit ''default'')) 20"
    using h sample_folds(1) by (intro exI [of _ "JobId 1"]) (simp add: due_def sample_job_def)
  with claim_picks_best [OF inv short rt, of "QueueName (lit ''default'')" "\<lambda>_. 0" sample_worker] show ?thesis
    by auto
qed

theorem dispatch_order_independent_witness:
  "retire_one chrono_doc test_runtime (\<lambda>_. 0) (sample_store sample_leased, fixed_at 50 5) =
   retire_one chrono_doc test_runtime (\<lambda>k. unat (job_uuid k)) (sample_store sample_leased, fixed_at 50 5)"
  by (rule dispatch_order_independent [OF sample_stores(3), THEN conjunct2])

lemma sample_retire:
  "retire_one chrono_doc test_runtime (\<lambda>_. 0) (sample_store sample_leased, fixed_at 50 5) =
     (Ok (Some (JobId 1)), snd (retire_one chrono_doc test_runtime (\<lambda>_. 0) (sample_store sample_leased, fixed_at 50 5)))"
proof -
  let ?i = "sample_inner sample_leased (Some (sample_lease 30))"
  have inv: "inner_inv ?i"
    using sample_stores(3) by (simp add: sample_store_eq store_inv_def)
  obtain r st' e' where run: "retire_one chrono_doc test_runtime (\<lambda>_. 0) (Store ?i, fixed_at 50 5) = (r, st', e')"
    by (metis surj_pair)
  have rt: "clock_now test_runtime (fixed_at 50 5) = (50, fixed_at 50 5)"
      "jitter_seed test_runtime (fixed_at 50 5) = (5, fixed_at 50 5)"
    by (simp_all add: fixed_at_def)
  have exp: "expired ?i 50 k \<longleftrightarrow> k = JobId 1" for k
    by (simp add: expired_def sample_inner_def sample_entry_def sample_lease_def)
  have "r = Ok (Some (JobId 1))"
    using inv rt run
  proof (cases rule: retire_cases)
    case none
    then show ?thesis by (simp add: exp)
  next
    case (err k job x)
    then have "job = sample_job (S_Leased sample_worker (LeaseId 50) 30) 0 2"
        "length (store_hist (Store ?i) k) < 2 ^ 64"
      using sample_hist_folds(2) sample_short64(1) by (simp_all add: exp sample_store_eq)
    with err(6) show ?thesis
      using decide_RetryAfterD [of sample_policy 1 5]
      by (auto simp: expire_lease_def sample_job_def retry_decision_event_def outcome_simps chrono_doc_def
            sample_policy_def split: RetryDecision.splits if_splits)
  next
    case (retired k job evs job' i')
    then show ?thesis by (simp add: exp)
  qed
  with run show ?thesis
    by (simp add: sample_store_eq)
qed

theorem retired_lease_heartbeat_refused_witness:
  "fst (heartbeat_execute (memory_dispatcher chrono_doc test_runtime (\<lambda>_. 0)) (LeaseId 50) 100
     (fst (snd (retire_one chrono_doc test_runtime (\<lambda>_. 0) (sample_store sample_leased, fixed_at 50 5))), fixed_at 51 5))
   \<noteq> Ok True"
proof
  let ?w = "snd (retire_one chrono_doc test_runtime (\<lambda>_. 0) (sample_store sample_leased, fixed_at 50 5))"
  let ?hb = "heartbeat_execute (memory_dispatcher chrono_doc test_runtime (\<lambda>_. 0)) (LeaseId 50) 100 (fst ?w, fixed_at 51 5)"
  assume t: "fst ?hb = Ok True"
  have r: "retire_one chrono_doc test_runtime (\<lambda>_. 0) (sample_store sample_leased, fixed_at 50 5) =
      (Ok (Some (JobId 1)), fst ?w, snd ?w)"
    using sample_retire by simp
  have hb: "?hb = (Ok True, snd ?hb)"
    using t by (metis prod.collapse)
  have "\<not> True"
    by (rule retired_lease_heartbeat_refused [OF sample_stores(3) _ _ r hb])
       (simp_all add: sample_store_eq sample_held)
  then show False by simp
qed

text \<open>
  C20. A retirement is justified and complete.  When some lease has reached its deadline, the
  expired job of least id is retired: the expiry of the lease it holds and the verdict on the
  attempt are recorded in one append, the attempt is counted, and the job is pending with a retry
  date or parked, never leased; an unrepresentable retry date is an error that changes nothing.
  When no lease has reached its deadline the answer is \<open>None\<close> and nothing changes.
\<close>

theorem retire_least_expired:
  assumes "store_inv (Store i)" and "short_streams (Store i)" and "clock_now rt e = (now, e1)"
    and "jitter_seed rt e1 = (seed, e2)"
  shows "if \<exists>k. expired i now k
    then \<exists>k job. expired i now k \<and> (\<forall>k'. expired i now k' \<longrightarrow> k \<le> k')
      \<and> from_events (store_hist (Store i) k) = Ok job \<and>
      (case expire_lease C job now seed of
         Ok evs \<Rightarrow> \<exists>i' e' job'. retire_one C rt hash (Store i, e) = (Ok (Some k), Store i', e')
           \<and> store_inv (Store i') \<and> extends (store_hist (Store i)) k evs (store_hist (Store i'))
           \<and> from_events (store_hist (Store i') k) = Ok job' \<and> held_lease (job_state job') = None
           \<and> job_attempt job' = job_attempt job + 1 \<and> \<not> expired i' now k
       | Err x \<Rightarrow> x = InvalidTtl \<and> (\<exists>e'. retire_one C rt hash (Store i, e) = (Err (DispatchDomain InvalidTtl), Store i, e'))
       | Panic \<Rightarrow> False)
    else \<exists>e'. retire_one C rt hash (Store i, e) = (Ok None, Store i, e')"
proof -
  from assms(1) have inv: "inner_inv i" by (simp add: store_inv_def)
  obtain r st' e' where run: "retire_one C rt hash (Store i, e) = (r, st', e')"
    by (metis surj_pair)
  from inv assms(3,4) run show ?thesis
  proof (cases rule: retire_cases)
    case none
    with run show ?thesis by simp
  next
    case (err k job x)
    have "length (store_hist (Store i) k) < 2 ^ 63"
      using assms(2) by (simp add: short_streams_def)
    with err(6) have "expire_lease C job now seed = Err InvalidTtl" "x = DispatchDomain InvalidTtl"
      by auto
    with err(1-5) run show ?thesis
      by (auto intro!: exI [of _ k])
  next
    case (retired k job evs job' i')
    have "job_attempt job' = job_attempt job + 1"
      using expire_lease_applies [OF retired(6)] retired(7) by auto
    moreover have n: "held_lease (job_state job') = None"
      by (rule retire_state_unleased [OF retired(6,7)])
    moreover from n have "\<not> expired i' now k"
      by (auto simp: retired(13) expired_def projected_entry_def held_lease_def Let_def
            split: JobState.splits)
    moreover have "store_inv (Store i')"
      using retired(10) by (simp add: store_inv_def)
    ultimately have "\<exists>i' e' job'. retire_one C rt hash (Store i, e) = (Ok (Some k), Store i', e')
           \<and> store_inv (Store i') \<and> extends (store_hist (Store i)) k evs (store_hist (Store i'))
           \<and> from_events (store_hist (Store i') k) = Ok job' \<and> held_lease (job_state job') = None
           \<and> job_attempt job' = job_attempt job + 1 \<and> \<not> expired i' now k"
      using run retired(8,9,11,12) by blast
    with retired(1-3,6) show ?thesis
      by (auto intro!: exI [of _ k])
  qed
qed

theorem retire_least_expired_witness:
  "fst (retire_one chrono_doc test_runtime (\<lambda>_. 0)
     (Store (sample_inner sample_leased (Some (sample_lease 30))), fixed_at 25 5)) = Ok None"
proof -
  let ?i = "sample_inner sample_leased (Some (sample_lease 30))"
  have inv: "store_inv (Store ?i)"
    using sample_stores(3) by (simp add: sample_store_eq)
  have short: "short_streams (Store ?i)"
    by (simp add: short_streams_def store_hist_def stream_or_default_def sample_inner_def sample_streams)
  have rt: "clock_now test_runtime (fixed_at 25 5) = (25, fixed_at 25 5)"
      "jitter_seed test_runtime (fixed_at 25 5) = (5, fixed_at 25 5)"
    by (simp_all add: fixed_at_def)
  have "\<not> (\<exists>k. expired ?i 25 k)"
    by (auto simp: expired_def sample_inner_def sample_entry_def sample_lease_def split: if_splits)
  with retire_least_expired [OF inv short rt, of chrono_doc "\<lambda>_. 0"] show ?thesis
    by auto
qed

section \<open>The sweep\<close>



section \<open>A heartbeat that does not last\<close>

text \<open>The index after an ack: the entry of the job is projected again from its folded state.\<close>

lemma ack_append_index:
  assumes "inner_inv i" and "streams i k = Some xs" and "from_events xs = Ok job" and "job_id job = k"
    and "length xs < 2 ^ 64" and "apply_all job evs = Ok job'"
  obtains i' e' where "ack_append memory_store rt job xs evs (Store i, e) = (Ok (), Store i', e')"
    "map_of (index i') = (map_of (index i))(k := projected_entry job' (projected_seq i k))"
proof -
  obtain corr caus trace where lin: "lineage_of xs = (corr, caus, trace)"
    by (cases "lineage_of xs") auto
  obtain es :: "'a stream" and e' where es: "wrap_events rt k (job_version job) corr caus trace evs e = (es, e')"
    by fastforce
  obtain r i' where ap: "append_locked k (job_version job) es i = (r, i')" by fastforce
  from append_locked_current [OF assms(1-3,6) wrap_events_wrapped [OF es] ap] assms(5)
  have r: "r = Ok ()" "map_of (index i') = (map_of (index i))(k := projected_entry job' (projected_seq i k))"
    by auto
  then have "ack_append memory_store rt job xs evs (Store i, e) = (Ok (), Store i', e')"
    by (simp add: ack_append_def lin assms(4) es memory_store_def memory_append_Store ap)
  then show thesis using r(2) by (rule that)
qed

text \<open>
  C22. The \<open>start\<close> ack revokes an accepted heartbeat.  A worker that renewed its lease to the
  deadline \<open>y\<close> before it reports \<open>started\<close> loses the renewal with the report: the append projects
  the deadline \<open>x\<close> of the recorded \<open>leased\<close> event into the index again, so that from \<open>x\<close> on,
  although still before \<open>y\<close>, the lease is open to the sweep.  ADR 0016 and the TLA+ model (where
  Start leaves the deadline unchanged) promise the opposite.
\<close>

theorem start_revokes_heartbeat:
  assumes "store_inv (Store i)" and "from_events (store_hist (Store i) k) = Ok job"
    and "job_state job = S_Leased worker l x" and "length (store_hist (Store i) k) < 2 ^ 64"
    and "\<forall>k'. held (store_hist (Store i) k') = Some l \<longrightarrow> k' = k"
    and "clock_now rt e = (now, e1)" and "from_std C ttl = Some d" and "checked_add_signed C now d = Some y"
    and "memory_extend_lease C rt hash l ttl (Store i, e) = (Ok True, Store i1, e2)"
    and "x \<le> t" and "t < y"
  shows "\<not> expired i1 t k
    \<and> (\<exists>i2 e3. ack_start memory_store rt k worker (Store i1, e2) = (Ok (), Store i2, e3) \<and> expired i2 t k)"
proof -
  from assms(1) have inv: "inner_inv i" by (simp add: store_inv_def)
  obtain de ls where de: "i1 = set_deadline i k de ls y" "inner_inv i1"
    using inv assms(6,9)
  proof (cases rule: extend_cases)
    case (extended k' de ls d' y')
    then have "k' = k"
      using indexed_held [OF inv extended(2,3)] assms(5) by simp
    with extended assms(7,8) show thesis
      by (intro that) simp_all
  qed simp
  have "\<not> expired i1 t k"
    using assms(11) by (simp add: de(1) expired_def set_deadline_index)
  moreover obtain xs where xs: "streams i1 k = Some xs" "store_hist (Store i) k = xs" "store_hist (Store i1) k = xs"
    using assms(2) by (auto simp: de(1) store_hist_def stream_or_default_def from_events_def split: option.splits)
  have job: "from_events xs = Ok job" "length xs < 2 ^ 64"
    using assms(2,4) xs(2) by simp_all
  have id: "job_id job = k"
    by (rule memory.known_job_id [OF _ assms(2)]) (rule assms(1))
  let ?job' = "job\<lparr>job_state := S_Running worker l x, job_version := job_version job + 1\<rparr>"
  have app: "apply_all job [E_Started worker] = Ok ?job'"
    using assms(3) by (simp add: apply_event_def advance_def)
  obtain i2 e3 where ack: "ack_append memory_store rt job xs [E_Started worker] (Store i1, e2) = (Ok (), Store i2, e3)"
      and ix: "map_of (index i2) = (map_of (index i1))(k := projected_entry ?job' (projected_seq i1 k))"
    by (rule ack_append_index [OF de(2) xs(1) job(1) id job(2) app])
  have "ack_start memory_store rt k worker (Store i1, e2) = (Ok (), Store i2, e3)"
  proof -
    have "store_inv (Store i1)" "from_events (store_hist (Store i1) k) = Ok job"
      using de(2) job(1) xs(3) by (simp_all add: store_inv_def)
    note known = memory.ack_loaded_known [OF this]
    show ?thesis
      using assms(3) xs(3) ack by (simp add: ack_start_def known ack_start_loaded_def start_def)
  qed
  moreover have "expired i2 t k"
    using assms(10) by (simp add: expired_def ix projected_entry_def Let_def)
  ultimately show ?thesis by blast
qed

theorem start_revokes_heartbeat_witness:
  "\<exists>i2 e3. ack_start memory_store test_runtime (JobId 1) sample_worker
      (Store (sample_inner sample_leased (Some (sample_lease 120))), fixed_at 20 5) = (Ok (), Store i2, e3)
    \<and> expired i2 50 (JobId 1)"
proof -
  let ?i = "sample_inner sample_leased (Some (sample_lease 30))"
  have a: "store_inv (Store ?i)" "from_events (store_hist (Store ?i) (JobId 1)) =
      Ok (sample_job (S_Leased sample_worker (LeaseId 50) 30) 0 2)" "length (store_hist (Store ?i) (JobId 1)) < 2 ^ 64"
    using sample_stores(3) sample_hist_folds(2) sample_short64(1) by (simp_all add: sample_store_eq)
  have rt: "clock_now test_runtime (fixed_at 20 5) = (20, fixed_at 20 5)"
      "from_std chrono_doc 100 = Some 100" "checked_add_signed chrono_doc 20 100 = Some 120"
    by (simp_all add: fixed_at_def chrono_doc_def)
  have s: "job_state (sample_job (S_Leased sample_worker (LeaseId 50) 30) 0 2) = S_Leased sample_worker (LeaseId 50) 30"
    by (simp add: sample_job_def)
  have "\<forall>k'. held (store_hist (Store ?i) k') = Some (LeaseId 50) \<longrightarrow> k' = JobId 1"
    by (simp add: sample_held)
  from start_revokes_heartbeat [OF a(1,2) s a(3) this rt sample_extend, of 50] show ?thesis
    by simp
qed

end
