(* ===== verification/Grpc_Service.thy ===== *)
theory Grpc_Service
  imports Koine_Use_Cases
begin

text \<open>
  The worker-facing gRPC service of \<open>koine-grpc/src/auth.rs\<close> and \<open>service.rs\<close>: the
  credential check, the five handlers and the task behind a \<open>Fetch\<close> stream.  Code of other
  crates is a parameter: the header lookup of tonic's \<open>MetadataMap\<close> is the function
  \<open>metadata\<close>, and the record \<open>wire\<close> collects \<open>subtle\<close>'s comparison, \<open>uuid\<close>'s parser and
  printer, \<open>serde_json\<close>'s, and chrono's \<open>timestamp_millis\<close>.
\<close>

section \<open>UTF-8\<close>

text \<open>\<open>str::as_bytes\<close>.\<close>

definition char_bytes :: "rchar \<Rightarrow> nat list" where
  "char_bytes c =
     (if c < 128 then [c]
      else if c < 2048 then [192 + c div 64, 128 + c mod 64]
      else if c < 65536 then [224 + c div 4096, 128 + c div 64 mod 64, 128 + c mod 64]
      else [240 + c div 262144, 128 + c div 4096 mod 64, 128 + c div 64 mod 64, 128 + c mod 64])"

definition as_bytes :: "rstring \<Rightarrow> nat list" where
  "as_bytes s = concat (map char_bytes s)"

fun strip_prefix :: "rstring \<Rightarrow> rstring \<Rightarrow> rstring option" where
  "strip_prefix [] s = Some s"
| "strip_prefix (p # ps) [] = None"
| "strip_prefix (p # ps) (c # cs) = (if p = c then strip_prefix ps cs else None)"

section \<open>Third-party functions\<close>

type_synonym metadata = "string \<Rightarrow> rstring option"

record 'v wire =
  ct_eq :: "nat list \<Rightarrow> nat list \<Rightarrow> bool"
  uuid_parse :: "rstring \<Rightarrow> uuid option"
  uuid_print :: "uuid \<Rightarrow> rstring"
  json_from_str :: "rstring \<Rightarrow> 'v option"
  json_to_string :: "'v \<Rightarrow> rstring option"
  timestamp_millis :: "date_time \<Rightarrow> int"

text \<open>
  Documented behaviour: \<open>ct_eq\<close> compares slices of equal length byte by byte, and the printed
  form of a uuid parses to it.
\<close>

definition wire_ok :: "'v wire \<Rightarrow> bool" where
  "wire_ok W \<longleftrightarrow>
     (\<forall>a b. length a = length b \<longrightarrow> (ct_eq W a b \<longleftrightarrow> a = b)) \<and> (\<forall>u. uuid_parse W (uuid_print W u) = Some u)"

section \<open>Status\<close>

datatype StatusMessage =
    SMsg string
  | SMsg_invalid string
  | SMsg_domain DomainError
  | SMsg_dispatch DispatchError

datatype Status =
    Unauthenticated StatusMessage
  | InvalidArgument StatusMessage
  | FailedPrecondition StatusMessage
  | NotFound StatusMessage
  | Internal StatusMessage
  | Unavailable StatusMessage

section \<open>Credentials\<close>

definition auth_check :: "'v wire \<Rightarrow> metadata \<Rightarrow> rstring \<Rightarrow> (WorkerId, Status) outcome" where
  "auth_check W md expected_token =
     (let unauthenticated = Unauthenticated (SMsg ''invalid credentials'')
      in if expected_token = [] then Err unauthenticated
         else and_then (ok_or unauthenticated (md ''authorization'')) (\<lambda>auth.
              and_then (ok_or unauthenticated (strip_prefix (lit ''Bearer '') auth)) (\<lambda>presented.
                let token_ok = (str_len presented = str_len expected_token
                                \<and> ct_eq W (as_bytes presented) (as_bytes expected_token))
                in if \<not> token_ok then Err unauthenticated
                   else and_then (ok_or unauthenticated (md ''koine-worker-id'')) (\<lambda>worker.
                        map_err (\<lambda>_. unauthenticated) (worker_id_new worker)))))"

section \<open>Configuration and wire messages\<close>

record GrpcConfig =
  cfg_token :: rstring
  cfg_max_lease_ttl :: duration
  cfg_idle_poll :: duration

record FetchRequest =
  fetch_queue :: rstring
  fetch_lease_ttl_ms :: u64

record ProtoLeasedJob =
  p_job_id :: rstring
  p_queue :: rstring
  p_payload_json :: rstring
  p_attempt :: u32
  p_lease_id :: rstring
  p_expires_at_unix_ms :: int
  p_correlation_id :: rstring
  p_traceparent :: "rstring option"

record SucceedRequest =
  succ_job_id :: rstring
  succ_lease_id :: rstring
  succ_result_json :: "rstring option"

record FailRequest =
  fail_job_id :: rstring
  fail_lease_id :: rstring
  fail_error :: "JobError option"

record HeartbeatRequest =
  hb_lease_id :: rstring
  hb_ttl_ms :: u64

definition clamp_lease_ttl :: "u64 \<Rightarrow> duration \<Rightarrow> (duration, Status) outcome" where
  "clamp_lease_ttl requested_ms max_ttl =
     (if requested_ms = 0 then Err (InvalidArgument (SMsg ''lease_ttl_ms must be greater than zero''))
      else Ok (min (from_millis requested_ms) max_ttl))"

definition parse_uuid :: "'v wire \<Rightarrow> string \<Rightarrow> rstring \<Rightarrow> (uuid, Status) outcome" where
  "parse_uuid W field raw = ok_or (InvalidArgument (SMsg_invalid field)) (uuid_parse W raw)"

definition map_ack_error :: "AckError \<Rightarrow> Status" where
  "map_ack_error err =
     (case err of
        AckDomain _ \<Rightarrow> FailedPrecondition (SMsg ''job state no longer permits this operation; refetch'')
      | AckStore (StreamNotFound _) \<Rightarrow> NotFound (SMsg ''job not found'')
      | AckStore _ \<Rightarrow> Internal (SMsg ''store error''))"

definition to_proto_outcome :: "AckOutcome \<Rightarrow> int" where
  "to_proto_outcome outcome = (case outcome of Recorded \<Rightarrow> 1 | Conflict \<Rightarrow> 2)"

definition leased_job_to_proto :: "'v wire \<Rightarrow> 'v LeasedJob \<Rightarrow> (ProtoLeasedJob, Status) outcome" where
  "leased_job_to_proto W job =
     and_then (ok_or (Internal (SMsg ''payload encode'')) (json_to_string W (lj_payload job))) (\<lambda>payload_json.
       Ok \<lparr>p_job_id = uuid_print W (job_uuid (lj_job_id job)), p_queue = queue_str (lj_queue job),
           p_payload_json = payload_json, p_attempt = lj_attempt job,
           p_lease_id = uuid_print W (lease_uuid (lj_lease job)),
           p_expires_at_unix_ms = timestamp_millis W (lj_expires_at job),
           p_correlation_id = uuid_print W (correlation_uuid (lj_correlation_id job)),
           p_traceparent = lj_traceparent job\<rparr>)"

section \<open>The ports behind the service\<close>

text \<open>
  The state of the service: the world the store and the dispatcher share, and what the
  presence port has recorded.  \<open>seen\<close> is \<open>WorkerPresence::seen\<close>.
\<close>

record ('s, 'e, 'p, 'v) deps =
  dep_store :: "('s, 'v) event_store"
  dep_dispatcher :: "('s \<times> 'e, 'v) dispatcher"
  dep_runtime :: "'e runtime"
  dep_seen :: "WorkerId \<Rightarrow> QueueName option \<Rightarrow> 'p \<Rightarrow> 'p"
  dep_config :: GrpcConfig

type_synonym ('a, 's, 'e, 'p) reply = "('a, Status) outcome \<times> ('s \<times> 'e) \<times> 'p"

text \<open>Continue a handler with the value of a step that may have failed.\<close>

definition try_step ::
  "('a, Status) outcome \<Rightarrow> ('s \<times> 'e) \<Rightarrow> 'p \<Rightarrow> ('a \<Rightarrow> ('b, 's, 'e, 'p) reply) \<Rightarrow> ('b, 's, 'e, 'p) reply" where
  "try_step r w p f = (case r of Ok a \<Rightarrow> f a | Err x \<Rightarrow> (Err x, w, p) | Panic \<Rightarrow> (Panic, w, p))"

section \<open>Unary handlers\<close>

definition grpc_start ::
  "'v wire \<Rightarrow> ('s, 'e, 'p, 'v) deps \<Rightarrow> metadata \<Rightarrow> rstring \<Rightarrow> 's \<times> 'e \<Rightarrow> 'p \<Rightarrow> (unit, 's, 'e, 'p) reply" where
  "grpc_start W deps md req_job_id w p =
     try_step (auth_check W md (cfg_token (dep_config deps))) w p (\<lambda>worker.
     try_step (parse_uuid W ''job_id'' req_job_id) w p (\<lambda>u.
       let p = dep_seen deps worker None p;
           (r, w) = ack_start (dep_store deps) (dep_runtime deps) (JobId u) worker w
       in (map_err map_ack_error r, w, p)))"

definition grpc_succeed ::
  "'v wire \<Rightarrow> ('s, 'e, 'p, 'v) deps \<Rightarrow> metadata \<Rightarrow> SucceedRequest \<Rightarrow> 's \<times> 'e \<Rightarrow> 'p \<Rightarrow> (int, 's, 'e, 'p) reply" where
  "grpc_succeed W deps md req w p =
     try_step (auth_check W md (cfg_token (dep_config deps))) w p (\<lambda>worker.
     try_step (parse_uuid W ''job_id'' (succ_job_id req)) w p (\<lambda>job_uuid.
     try_step (parse_uuid W ''lease_id'' (succ_lease_id req)) w p (\<lambda>lease_uuid.
     try_step (case succ_result_json req of
                 None \<Rightarrow> Ok None
               | Some raw \<Rightarrow> and_then (ok_or (InvalidArgument (SMsg ''malformed result_json'')) (json_from_str W raw))
                               (\<lambda>v. Ok (Some v))) w p (\<lambda>result.
       let (r, w) = ack_succeed (dep_store deps) (dep_runtime deps) (JobId job_uuid) worker (LeaseId lease_uuid) result w
       in (and_then (map_err map_ack_error r) (\<lambda>outcome. Ok (to_proto_outcome outcome)), w, p)))))"

definition grpc_fail ::
  "chrono \<Rightarrow> 'v wire \<Rightarrow> ('s, 'e, 'p, 'v) deps \<Rightarrow> metadata \<Rightarrow> FailRequest \<Rightarrow> 's \<times> 'e \<Rightarrow> 'p \<Rightarrow> (int, 's, 'e, 'p) reply" where
  "grpc_fail C W deps md req w p =
     try_step (auth_check W md (cfg_token (dep_config deps))) w p (\<lambda>worker.
     try_step (parse_uuid W ''job_id'' (fail_job_id req)) w p (\<lambda>job_uuid.
     try_step (parse_uuid W ''lease_id'' (fail_lease_id req)) w p (\<lambda>lease_uuid.
     try_step (ok_or (InvalidArgument (SMsg ''error is required'')) (fail_error req)) w p (\<lambda>error.
       let (r, w) = ack_fail C (dep_store deps) (dep_runtime deps) (JobId job_uuid) worker (LeaseId lease_uuid) error w
       in (and_then (map_err map_ack_error r) (\<lambda>outcome. Ok (to_proto_outcome outcome)), w, p)))))"

definition grpc_heartbeat ::
  "'v wire \<Rightarrow> ('s, 'e, 'p, 'v) deps \<Rightarrow> metadata \<Rightarrow> HeartbeatRequest \<Rightarrow> 's \<times> 'e \<Rightarrow> 'p \<Rightarrow> (bool, 's, 'e, 'p) reply" where
  "grpc_heartbeat W deps md req w p =
     try_step (auth_check W md (cfg_token (dep_config deps))) w p (\<lambda>_.
     try_step (parse_uuid W ''lease_id'' (hb_lease_id req)) w p (\<lambda>lease_uuid.
     try_step (clamp_lease_ttl (hb_ttl_ms req) (cfg_max_lease_ttl (dep_config deps))) w p (\<lambda>ttl.
       let (r, w) = heartbeat_execute (dep_dispatcher deps) (LeaseId lease_uuid) ttl w
       in (map_err (\<lambda>e. Internal (SMsg_dispatch e)) r, w, p))))"

section \<open>Fetch\<close>

definition fetch_open ::
  "'v wire \<Rightarrow> ('s, 'e, 'p, 'v) deps \<Rightarrow> metadata \<Rightarrow> FetchRequest \<Rightarrow> 's \<times> 'e \<Rightarrow> 'p
   \<Rightarrow> (WorkerId \<times> QueueName \<times> duration, 's, 'e, 'p) reply" where
  "fetch_open W deps md req w p =
     try_step (auth_check W md (cfg_token (dep_config deps))) w p (\<lambda>worker.
     try_step (map_err (\<lambda>e. InvalidArgument (SMsg_domain e)) (queue_name_new (fetch_queue req))) w p (\<lambda>queue.
     try_step (clamp_lease_ttl (fetch_lease_ttl_ms req) (cfg_max_lease_ttl (dep_config deps))) w p (\<lambda>ttl.
       (Ok (worker, queue, ttl), w, dep_seen deps worker (Some queue) p))))"

text \<open>
  One round of the task behind the stream.  \<open>closed\<close> is what the round's await observes of the
  receiver: a failing \<open>send\<close>, or the \<open>closed\<close> branch of the \<open>select!\<close>.  The result is what was
  sent, whether the loop goes on, and the world.
\<close>

definition fetch_round ::
  "'v wire \<Rightarrow> ('w, 'v) dispatcher \<Rightarrow> QueueName \<Rightarrow> WorkerId \<Rightarrow> duration \<Rightarrow> bool \<Rightarrow> 'w
   \<Rightarrow> (ProtoLeasedJob, Status) outcome list \<times> bool \<times> 'w" where
  "fetch_round W D queue worker ttl closed w =
     (let send = (\<lambda>m. if closed then [] else [m])
      in case lease_execute D queue worker ttl w of
           (Ok (Some job), w') \<Rightarrow>
             (case leased_job_to_proto W job of
                Ok message \<Rightarrow> (send (Ok message), \<not> closed, w')
              | r \<Rightarrow> (send r, False, w'))
         | (Ok None, w') \<Rightarrow> ([], \<not> closed, w')
         | (Err x, w') \<Rightarrow> (send (Err (Unavailable (SMsg_dispatch x))), False, w')
         | (Panic, w') \<Rightarrow> ([], False, w'))"

text \<open>
  The loop.  Each element of the list is one round: what the other clients do to the world
  before it, and what it observes of the receiver.
\<close>

primrec fetch_loop ::
  "'v wire \<Rightarrow> ('w, 'v) dispatcher \<Rightarrow> QueueName \<Rightarrow> WorkerId \<Rightarrow> duration \<Rightarrow> (('w \<Rightarrow> 'w) \<times> bool) list \<Rightarrow> 'w
   \<Rightarrow> (ProtoLeasedJob, Status) outcome list \<times> 'w" where
  "fetch_loop W D queue worker ttl [] w = ([], w)"
| "fetch_loop W D queue worker ttl (round # rest) w =
     (let (others, closed) = round;
          (sent, continue, w) = fetch_round W D queue worker ttl closed (others w)
      in if continue then let (more, w) = fetch_loop W D queue worker ttl rest w in (sent @ more, w)
         else (sent, w))"

section \<open>UTF-8 is injective\<close>

lemma char_bytes_nonempty: "char_bytes c \<noteq> []"
  by (simp add: char_bytes_def)

text \<open>The first byte tells the length of the encoding, so no encoding is a prefix of another.\<close>

lemma char_bytes_prefix_free:
  assumes "char_bytes c @ xs = char_bytes d @ ys"
  shows "c = d \<and> xs = ys"
proof -
  have two: "c = d" if "c div 64 = d div 64" "c mod 64 = d mod 64" for c d :: nat
    using that by (metis div_mult_mod_eq)
  have div: "c div 64 = d div 64" if "c div 4096 = d div 4096" "c div 64 mod 64 = d div 64 mod 64" for c d :: nat
    using that by (intro two [of "c div 64" "d div 64"]) (simp_all flip: div_mult2_eq)
  have div': "c div 4096 = d div 4096" if "c div 262144 = d div 262144" "c div 4096 mod 64 = d div 4096 mod 64" for c d :: nat
    using that by (intro two [of "c div 4096" "d div 4096"]) (simp_all flip: div_mult2_eq)
  have b: "c < 2048 \<Longrightarrow> c div 64 < 32" "c < 65536 \<Longrightarrow> c div 4096 < 16" for c :: nat
    by (simp_all add: less_mult_imp_div_less)
  show ?thesis
    using assms two [of c d] div [of c d] div' [of c d] b [of c] b [of d]
    by (auto simp: char_bytes_def split: if_splits)
qed

lemma as_bytes_inj: "as_bytes s = as_bytes t \<Longrightarrow> s = t"
proof (induction s arbitrary: t)
  case Nil
  then show ?case
    by (cases t) (auto simp: as_bytes_def char_bytes_nonempty)
next
  case (Cons c s)
  then obtain d t' where t: "t = d # t'"
    by (cases t) (auto simp: as_bytes_def char_bytes_nonempty)
  with Cons.prems have "char_bytes c @ as_bytes s = char_bytes d @ as_bytes t'"
    by (simp add: as_bytes_def)
  then have "c = d" "as_bytes s = as_bytes t'"
    by (auto dest: char_bytes_prefix_free)
  with Cons.IH t show ?case by simp
qed

lemma length_as_bytes: "length (as_bytes s) = str_len s"
  by (induction s) (auto simp: as_bytes_def str_len_def char_bytes_def char_len_def)

lemma strip_prefix_eq_Some: "strip_prefix p s = Some t \<longleftrightarrow> s = p @ t"
  by (induction p s rule: strip_prefix.induct) auto

section \<open>Credentials\<close>

lemma token_matches:
  assumes "wire_ok W"
  shows "str_len a = str_len b \<and> ct_eq W (as_bytes a) (as_bytes b) \<longleftrightarrow> a = b"
  using assms as_bytes_inj [of a b] by (auto simp: wire_ok_def length_as_bytes)

text \<open>A concrete instance of the third-party functions, for the evaluations.\<close>

definition sample_wire :: "nat wire" where
  "sample_wire = \<lparr>
     ct_eq = (\<lambda>a b. a = b),
     uuid_parse = (\<lambda>s. case s of [n] \<Rightarrow> Some (of_nat n) | _ \<Rightarrow> None),
     uuid_print = (\<lambda>u. [unat u]),
     json_from_str = (\<lambda>s. Some (length s)),
     json_to_string = (\<lambda>n. Some (replicate n 48)),
     timestamp_millis = (\<lambda>t. t div 1000000)\<rparr>"

lemma wire_ok_sample: "wire_ok sample_wire"
  by (simp add: wire_ok_def sample_wire_def)

lemma auth_check_eq:
  assumes "wire_ok W"
  shows "auth_check W md token =
      (if token \<noteq> [] \<and> md ''authorization'' = Some (lit ''Bearer '' @ token)
       then and_then (ok_or (Unauthenticated (SMsg ''invalid credentials'')) (md ''koine-worker-id''))
         (\<lambda>worker. map_err (\<lambda>_. Unauthenticated (SMsg ''invalid credentials'')) (worker_id_new worker))
       else Err (Unauthenticated (SMsg ''invalid credentials'')))"
proof (cases "md ''authorization''")
  case (Some auth)
  note tok = token_matches [OF assms]
  show ?thesis
  proof (cases "strip_prefix (lit ''Bearer '') auth")
    case None
    then have "auth \<noteq> lit ''Bearer '' @ token"
      by (metis option.distinct(1) strip_prefix_eq_Some)
    with None Some show ?thesis
      by (simp add: auth_check_def Let_def)
  next
    case presented: (Some presented)
    then have "auth = lit ''Bearer '' @ presented"
      by (simp add: strip_prefix_eq_Some)
    with presented Some show ?thesis
      by (cases "presented = token") (simp_all add: auth_check_def Let_def tok)
  qed
qed (simp add: auth_check_def Let_def)

lemma auth_check_eq_Ok:
  assumes "wire_ok W"
  shows "auth_check W md token = Ok worker \<longleftrightarrow>
      token \<noteq> [] \<and> md ''authorization'' = Some (lit ''Bearer '' @ token)
      \<and> (\<exists>raw. md ''koine-worker-id'' = Some raw \<and> worker_id_new raw = Ok worker)"
  by (cases "md ''koine-worker-id''") (auto simp: auth_check_eq [OF assms] outcome_simps)

text \<open>
  C35. The credential check accepts exactly the configured token.  A request is let in, as the worker
  it names, if and only if a non-empty token is configured, the \<open>authorization\<close> header is
  \<open>Bearer\<close> followed by precisely that token, and the worker id header is a valid worker id;
  every other request gets one and the same \<open>UNAUTHENTICATED\<close> status.
\<close>

theorem auth_check_iff:
  assumes "wire_ok W"
  shows "(auth_check W md token = Ok worker \<longleftrightarrow>
      token \<noteq> [] \<and> md ''authorization'' = Some (lit ''Bearer '' @ token)
      \<and> (\<exists>raw. md ''koine-worker-id'' = Some raw \<and> worker_id_new raw = Ok worker))
    \<and> auth_check W md token \<noteq> Panic
    \<and> (\<forall>x. auth_check W md token = Err x \<longrightarrow> x = Unauthenticated (SMsg ''invalid credentials''))"
proof -
  have "auth_check W md token \<noteq> Panic"
      "\<forall>x. auth_check W md token = Err x \<longrightarrow> x = Unauthenticated (SMsg ''invalid credentials'')"
    by (cases "md ''koine-worker-id''";
        auto simp: auth_check_eq [OF assms] outcome_simps worker_id_new_not_Panic)+
  with auth_check_eq_Ok [OF assms] show ?thesis by blast
qed

definition sample_metadata :: metadata where
  "sample_metadata =
     [''authorization'' \<mapsto> lit ''Bearer s3cr3t'', ''koine-worker-id'' \<mapsto> lit ''w1'']"

theorem auth_check_iff_witness:
  "auth_check sample_wire sample_metadata (lit ''s3cr3t'') = Ok (WorkerId (lit ''w1''))
   \<and> auth_check sample_wire sample_metadata (lit ''s3cr3'') \<noteq> Ok (WorkerId (lit ''w1''))
   \<and> auth_check sample_wire sample_metadata [] \<noteq> Ok (WorkerId (lit ''w1''))"
proof -
  have "worker_id_new (lit ''w1'') = Ok (WorkerId (lit ''w1''))"
    by (simp add: worker_id_new_def lit_def str_len_def char_len_def is_control_def)
  then show ?thesis
    using auth_check_iff [OF wire_ok_sample, of sample_metadata _ "WorkerId (lit ''w1'')"]
    by (simp add: sample_metadata_def lit_def)
qed

section \<open>Requests that are refused\<close>

lemma try_step_Ok_iff:
  "try_step r w p f = (Ok b, w', p') \<longleftrightarrow> (\<exists>a. r = Ok a \<and> f a = (Ok b, w', p'))"
  by (cases r) (auto simp: try_step_def)

lemma clamp_eq_Ok: "clamp_lease_ttl ms m = Ok t \<longleftrightarrow> ms \<noteq> 0 \<and> t = min (from_millis ms) m"
  by (auto simp: clamp_lease_ttl_def)

lemma from_millis_pos: "ms \<noteq> 0 \<Longrightarrow> 0 < from_millis ms"
  by (simp add: from_millis_def unat_gt_0)

text \<open>
  C36. An unauthenticated request has no effect: whichever of the five methods it calls, the
  reply is the refusal of the credential check and neither the store, the dispatch index, the
  runtime nor the presence table has changed.
\<close>

theorem unauthenticated_no_effect:
  assumes "auth_check W md (cfg_token (dep_config deps)) = Err x"
  shows "grpc_start W deps md job w p = (Err x, w, p)
    \<and> grpc_succeed W deps md sreq w p = (Err x, w, p)
    \<and> grpc_fail C W deps md freq w p = (Err x, w, p)
    \<and> grpc_heartbeat W deps md hreq w p = (Err x, w, p)
    \<and> fetch_open W deps md req w p = (Err x, w, p)"
  by (simp add: assms try_step_def grpc_start_def grpc_succeed_def grpc_fail_def grpc_heartbeat_def fetch_open_def)

text \<open>
  The lease time of a stream is within the operator's ceiling.  When a \<open>Fetch\<close> is opened,
  the caller is the authenticated worker, the queue name is valid, the lease time is the
  requested one cut at \<open>max_lease_ttl\<close>, and it is positive when the ceiling is; opening the stream
  touches the presence table only.
\<close>

lemma fetch_open_bounds:
  assumes "fetch_open W deps md req w p = (Ok (worker, queue, ttl), w', p')"
  shows "auth_check W md (cfg_token (dep_config deps)) = Ok worker
    \<and> queue_name_new (fetch_queue req) = Ok queue \<and> valid_queue_name queue
    \<and> ttl = min (from_millis (fetch_lease_ttl_ms req)) (cfg_max_lease_ttl (dep_config deps))
    \<and> (0 < cfg_max_lease_ttl (dep_config deps) \<longrightarrow> 0 < ttl)
    \<and> w' = w \<and> p' = dep_seen deps worker (Some queue) p"
  using assms from_millis_pos [of "fetch_lease_ttl_ms req"]
  by (auto simp: fetch_open_def try_step_Ok_iff clamp_eq_Ok outcome_simps valid_queue_name_def queue_name_new_Ok)

section \<open>Delivery\<close>


text \<open>\<open>leased_in h worker m\<close>: the job of message \<open>m\<close> has a recorded lease for the worker.\<close>

definition leased_in :: "'v wire \<Rightarrow> (JobId \<Rightarrow> 'v stream) \<Rightarrow> WorkerId \<Rightarrow> ProtoLeasedJob \<Rightarrow> bool" where
  "leased_in W h worker m \<longleftrightarrow>
     (\<exists>k l x env. env \<in> set (h k) \<and> env_event env = E_Leased worker l x
        \<and> p_job_id m = uuid_print W (job_uuid k) \<and> p_lease_id m = uuid_print W (lease_uuid l)
        \<and> p_expires_at_unix_ms m = timestamp_millis W x)"

lemma leased_in_mono:
  assumes "leased_in W h worker m" and "\<forall>k. \<exists>ys. h' k = h k @ ys"
  shows "leased_in W h' worker m"
proof -
  from assms(1) obtain k l x env where e: "env \<in> set (h k)" "env_event env = E_Leased worker l x"
      "p_job_id m = uuid_print W (job_uuid k)" "p_lease_id m = uuid_print W (lease_uuid l)"
      "p_expires_at_unix_ms m = timestamp_millis W x"
    unfolding leased_in_def by blast
  from assms(2) obtain ys where "h' k = h k @ ys" by blast
  with e(1) have "env \<in> set (h' k)" by simp
  with e(2-) show ?thesis unfolding leased_in_def by blast
qed

context dispatcher_contract
begin

text \<open>What other clients do: they keep the world consistent and the history append-only.\<close>

definition interferes :: "('w \<Rightarrow> 'w) \<Rightarrow> bool" where
  "interferes f \<longleftrightarrow> (\<forall>w. winv w \<longrightarrow> winv (f w) \<and> (\<forall>k. \<exists>ys. whist (f w) k = whist w k @ ys))"

lemma fetch_round_facts:
  assumes "winv w" and "fetch_round W D queue worker ttl closed w = (sent, True, w')"
  shows "winv w' \<and> (\<forall>k. \<exists>ys. whist w' k = whist w k @ ys) \<and> (\<forall>m. Ok m \<in> set sent \<longrightarrow> leased_in W (whist w') worker m)
    \<and> \<not> closed"
proof -
  obtain r w1 where c: "lease_next D queue worker ttl w = (r, w1)" by fastforce
  consider (none) "r = Ok None" | (some) job m where "r = Ok (Some job)" "leased_job_to_proto W job = Ok m"
    using assms(2) c
    by (auto simp: fetch_round_def lease_execute_def Let_def split: outcome.splits option.splits)
  then show ?thesis
  proof cases
    case none
    with c claim_None [OF assms(1)] assms(2) show ?thesis
      by (auto simp: fetch_round_def lease_execute_def)
  next
    case some
    with c have cl: "lease_next D queue worker ttl w = (Ok (Some job), w1)" by simp
    from claim_Some [OF assms(1) cl] obtain env where e: "winv w1" "env_event env = E_Leased worker (lj_lease job) (lj_expires_at job)"
        "whist w1 = (whist w)(lj_job_id job := whist w (lj_job_id job) @ [env])"
      by blast
    have f: "sent = [Ok m]" "w' = w1" "\<not> closed"
      using assms(2) some c by (auto simp: fetch_round_def lease_execute_def)
    have "leased_in W (whist w1) worker m"
      unfolding leased_in_def
      using some(2) e(2,3)
      by (intro exI [of _ "lj_job_id job"] exI [of _ "lj_lease job"] exI [of _ "lj_expires_at job"] exI [of _ env])
         (auto simp: leased_job_to_proto_def outcome_simps)
    with e f show ?thesis by auto
  qed
qed

lemma fetch_loop_facts:
  assumes "winv w" and "\<forall>r \<in> set rounds. interferes (fst r)"
    and "fetch_loop W D queue worker ttl rounds w = (sent, w')"
  shows "\<exists>wf. winv wf \<and> (\<forall>k. \<exists>ys. whist wf k = whist w k @ ys)
    \<and> (\<forall>m. Ok m \<in> set sent \<longrightarrow> leased_in W (whist wf) worker m)"
  using assms
proof (induction rounds arbitrary: w sent w')
  case (Cons round rest)
  obtain others closed where rd: "round = (others, closed)" by (cases round)
  let ?w0 = "others w"
  have i: "winv ?w0" "\<forall>k. \<exists>ys. whist ?w0 k = whist w k @ ys"
    using Cons.prems(1,2) by (auto simp: rd interferes_def)
  obtain s1 cont w1 where r: "fetch_round W D queue worker ttl closed ?w0 = (s1, cont, w1)"
    by (metis surj_pair)
  show ?case
  proof (cases cont)
    case True
    with r have "fetch_round W D queue worker ttl closed ?w0 = (s1, True, w1)" by simp
    note f0 = fetch_round_facts [OF i(1) this]
    then have f: "winv w1" "\<forall>k. \<exists>ys. whist w1 k = whist ?w0 k @ ys"
        "\<forall>m. Ok m \<in> set s1 \<longrightarrow> leased_in W (whist w1) worker m"
      by blast+
    obtain s2 w2 where l: "fetch_loop W D queue worker ttl rest w1 = (s2, w2)" by fastforce
    with Cons.IH [OF f(1) _ l] Cons.prems(2) obtain wf where wf: "winv wf" "\<forall>k. \<exists>ys. whist wf k = whist w1 k @ ys"
        "\<forall>m. Ok m \<in> set s2 \<longrightarrow> leased_in W (whist wf) worker m"
      by auto
    have "sent = s1 @ s2"
      using Cons.prems(3) True r l by (simp add: rd)
    with wf f(3) leased_in_mono [OF _ wf(2)] have "\<forall>m. Ok m \<in> set sent \<longrightarrow> leased_in W (whist wf) worker m"
      by auto
    moreover have "\<forall>k. \<exists>ys. whist wf k = whist w k @ ys"
      using wf(2) f(2) i(2) by (metis append.assoc)
    ultimately show ?thesis
      using wf(1) by blast
  next
    case False
    with r Cons.prems(3) have "sent = s1" by (simp add: rd)
    moreover have "Ok m \<notin> set s1" for m
      using r False
      by (auto simp: fetch_round_def lease_execute_def Let_def split: outcome.splits option.splits if_splits prod.splits)
    ultimately show ?thesis
      using Cons.prems(1) by (intro exI [of _ w]) simp
  qed
qed (auto intro!: exI)

end

end
