(* ===== verification/Grpc_Broker.thy ===== *)
theory Grpc_Broker
  imports Lease_Properties Grpc_Service
begin

text \<open>
  The gRPC service of \<open>koine-grpc\<close> over the in-memory adapters: what a worker that talks to
  the service can rely on, and the concrete evaluations of the service's own properties.
\<close>

section \<open>Sample service\<close>

definition sample_deps ::
  "(nat InMemoryEventStore, test_env, (WorkerId \<times> QueueName option) list, nat) deps" where
  "sample_deps =
     \<lparr>dep_store = memory_store, dep_dispatcher = memory_dispatcher chrono_doc test_runtime (\<lambda>_. 0),
      dep_runtime = test_runtime, dep_seen = (\<lambda>worker queue p. (worker, queue) # p),
      dep_config = \<lparr>cfg_token = lit ''s3cr3t'', cfg_max_lease_ttl = from_millis 300000, cfg_idle_poll = from_millis 1000\<rparr>\<rparr>"

lemma sample_auth:
  "auth_check sample_wire sample_metadata (cfg_token (dep_config sample_deps)) = Ok sample_worker"
  "auth_check sample_wire Map.empty (cfg_token (dep_config sample_deps)) = Err (Unauthenticated (SMsg ''invalid credentials''))"
proof -
  have "worker_id_new (lit ''w1'') = Ok sample_worker"
    by (simp add: worker_id_new_def lit_def str_len_def char_len_def is_control_def sample_worker_def)
  moreover have "strip_prefix (lit ''Bearer '') (lit ''Bearer s3cr3t'') = Some (lit ''s3cr3t'')"
    by (simp add: lit_def)
  ultimately show "auth_check sample_wire sample_metadata (cfg_token (dep_config sample_deps)) = Ok sample_worker"
    by (simp add: auth_check_def sample_deps_def sample_metadata_def sample_wire_def) (simp add: lit_def)
  show "auth_check sample_wire Map.empty (cfg_token (dep_config sample_deps)) =
      Err (Unauthenticated (SMsg ''invalid credentials''))"
    by (simp add: auth_check_def Let_def)
qed

theorem unauthenticated_no_effect_witness:
  "grpc_heartbeat sample_wire sample_deps Map.empty \<lparr>hb_lease_id = [50], hb_ttl_ms = 5\<rparr>
     (sample_store sample_leased, fixed_at 20 5) [] =
   (Err (Unauthenticated (SMsg ''invalid credentials'')), (sample_store sample_leased, fixed_at 20 5), [])"
  using unauthenticated_no_effect [OF sample_auth(2)] by simp

definition sample_leased_job :: "nat LeasedJob" where
  "sample_leased_job =
     \<lparr>lj_job_id = JobId 1, lj_queue = QueueName (lit ''default''), lj_payload = 7, lj_attempt = 0,
      lj_lease = LeaseId 50, lj_expires_at = 30, lj_correlation_id = CorrelationId 9, lj_traceparent = None\<rparr>"


section \<open>The service over the memory adapters\<close>





end
