(* ===== verification/Lease_Protocol.thy ===== *)
theory Lease_Protocol
  imports Koine_Use_Cases
begin

text \<open>
  The checked design of the lease protocol, \<open>docs/formal/lease_protocol.tla\<close>, as step relations:
  the variables as a record, one definition per action, \<open>Next\<close> as their disjunction, \<open>Spec\<close> as
  the behaviours that take \<open>Next\<close> steps or stutter under weak fairness.  The model checker
  explores one choice of constants; here its invariants and its liveness property are shown
  for all of them, and then that the events a job records are steps of the protocol.
\<close>

section \<open>The specification\<close>

text \<open>
  \<open>Workers\<close> is declared and never used; \<open>MaxConflicts\<close> only bounds the exploration.
\<close>

record tla_constants =
  MaxAttempts :: nat
  MaxLeases :: nat
  MaxHeartbeats :: nat
  LeaseTtl :: nat

record tla_vars =
  tla_state :: string
  tla_attempt :: nat
  activeLease :: nat
  issued :: nat
  conflicts :: nat
  tla_now :: nat
  tla_deadline :: nat
  heartbeats :: nat
  lastAckLease :: nat
  lastAckActiveLease :: nat
  lastFailRetryable :: bool
  lastFailParked :: bool
  lastHeartbeatLease :: nat
  lastHeartbeatDeadline :: nat
  lastExpiredLease :: nat
  lastExpiryNow :: nat

definition NoLease :: nat where
  "NoLease = 0"

definition States :: "string set" where
  "States = {''pending'', ''leased'', ''running'', ''succeeded'', ''parked'', ''cancelled''}"

definition Terminal :: "string set" where
  "Terminal = {''succeeded'', ''cancelled''}"

definition Init :: tla_vars where
  "Init =
     \<lparr>tla_state = ''pending'', tla_attempt = 0, activeLease = NoLease, issued = 0, conflicts = 0,
      tla_now = 0, tla_deadline = 0, heartbeats = 0, lastAckLease = NoLease, lastAckActiveLease = NoLease,
      lastFailRetryable = True, lastFailParked = True, lastHeartbeatLease = NoLease,
      lastHeartbeatDeadline = 0, lastExpiredLease = NoLease, lastExpiryNow = 0\<rparr>"

definition Lease :: "tla_constants \<Rightarrow> tla_vars \<Rightarrow> tla_vars \<Rightarrow> bool" where
  "Lease c s s' \<longleftrightarrow>
     tla_state s = ''pending'' \<and> issued s < MaxLeases c
     \<and> s' = s\<lparr>issued := issued s + 1, activeLease := issued s + 1,
              tla_deadline := tla_now s + LeaseTtl c, tla_state := ''leased''\<rparr>"

definition Start :: "tla_vars \<Rightarrow> tla_vars \<Rightarrow> bool" where
  "Start s s' \<longleftrightarrow> tla_state s = ''leased'' \<and> s' = s\<lparr>tla_state := ''running''\<rparr>"

definition AckSucceed :: "nat \<Rightarrow> tla_vars \<Rightarrow> tla_vars \<Rightarrow> bool" where
  "AckSucceed l s s' \<longleftrightarrow>
     tla_state s = ''running'' \<and> l = activeLease s
     \<and> s' = s\<lparr>tla_state := ''succeeded'', activeLease := NoLease, tla_deadline := 0,
              lastAckLease := l, lastAckActiveLease := activeLease s\<rparr>"

definition AckFail :: "tla_constants \<Rightarrow> nat \<Rightarrow> bool \<Rightarrow> tla_vars \<Rightarrow> tla_vars \<Rightarrow> bool" where
  "AckFail c l retryable s s' \<longleftrightarrow>
     (let nextState = (if retryable
                       then if tla_attempt s + 1 \<ge> MaxAttempts c then ''parked'' else ''pending''
                       else ''parked'')
      in tla_state s = ''running'' \<and> l = activeLease s
         \<and> s' = s\<lparr>tla_attempt := tla_attempt s + 1, activeLease := NoLease, tla_deadline := 0,
                  tla_state := nextState, lastAckLease := l, lastAckActiveLease := activeLease s,
                  lastFailRetryable := retryable, lastFailParked := (nextState = ''parked'')\<rparr>)"

definition Tick :: "tla_vars \<Rightarrow> tla_vars \<Rightarrow> bool" where
  "Tick s s' \<longleftrightarrow>
     tla_state s \<in> {''leased'', ''running''} \<and> tla_now s < tla_deadline s
     \<and> s' = s\<lparr>tla_now := tla_now s + 1\<rparr>"

definition Heartbeat :: "tla_constants \<Rightarrow> tla_vars \<Rightarrow> tla_vars \<Rightarrow> bool" where
  "Heartbeat c s s' \<longleftrightarrow>
     tla_state s \<in> {''leased'', ''running''} \<and> tla_now s < tla_deadline s
     \<and> heartbeats s < MaxHeartbeats c
     \<and> s' = s\<lparr>tla_deadline := tla_now s + LeaseTtl c, heartbeats := heartbeats s + 1,
              lastHeartbeatLease := activeLease s, lastHeartbeatDeadline := tla_now s + LeaseTtl c\<rparr>"

definition Expire :: "tla_constants \<Rightarrow> tla_vars \<Rightarrow> tla_vars \<Rightarrow> bool" where
  "Expire c s s' \<longleftrightarrow>
     tla_state s \<in> {''leased'', ''running''} \<and> tla_now s \<ge> tla_deadline s
     \<and> s' = s\<lparr>tla_attempt := tla_attempt s + 1, activeLease := NoLease, tla_deadline := 0,
              tla_state := (if tla_attempt s + 1 \<ge> MaxAttempts c then ''parked'' else ''pending''),
              lastExpiredLease := activeLease s, lastExpiryNow := tla_now s\<rparr>"

definition LateAck :: "nat \<Rightarrow> tla_vars \<Rightarrow> tla_vars \<Rightarrow> bool" where
  "LateAck l s s' \<longleftrightarrow>
     l \<noteq> activeLease s \<and> l \<ge> 1 \<and> l \<le> issued s \<and> s' = s\<lparr>conflicts := conflicts s + 1\<rparr>"

definition Cancel :: "tla_vars \<Rightarrow> tla_vars \<Rightarrow> bool" where
  "Cancel s s' \<longleftrightarrow>
     tla_state s \<in> {''pending'', ''leased'', ''running'', ''parked''}
     \<and> s' = s\<lparr>tla_state := ''cancelled'', activeLease := NoLease, tla_deadline := 0\<rparr>"

definition Next :: "tla_constants \<Rightarrow> tla_vars \<Rightarrow> tla_vars \<Rightarrow> bool" where
  "Next c s s' \<longleftrightarrow>
     Lease c s s' \<or> Start s s' \<or> Heartbeat c s s' \<or> Tick s s' \<or> Expire c s s' \<or> Cancel s s'
     \<or> (\<exists>l \<in> {1..MaxLeases c}. AckSucceed l s s' \<or> LateAck l s s')
     \<or> (\<exists>l \<in> {1..MaxLeases c}. \<exists>retryable. AckFail c l retryable s s')"

lemmas tla_actions = Lease_def Start_def AckSucceed_def AckFail_def Tick_def Heartbeat_def Expire_def
  LateAck_def Cancel_def Let_def

text \<open>Behaviours: an infinite sequence of states.  \<open>WF\<close> is weak fairness of an action.\<close>

definition Enabled :: "('s \<Rightarrow> 's \<Rightarrow> bool) \<Rightarrow> 's \<Rightarrow> bool" where
  "Enabled A s \<longleftrightarrow> (\<exists>s'. A s s' \<and> s' \<noteq> s)"

definition WF :: "('s \<Rightarrow> 's \<Rightarrow> bool) \<Rightarrow> (nat \<Rightarrow> 's) \<Rightarrow> bool" where
  "WF A b \<longleftrightarrow>
     (\<forall>i. (\<forall>k\<ge>i. Enabled A (b k)) \<longrightarrow> (\<exists>k\<ge>i. A (b k) (b (Suc k)) \<and> b (Suc k) \<noteq> b k))"

definition Spec :: "tla_constants \<Rightarrow> (nat \<Rightarrow> tla_vars) \<Rightarrow> bool" where
  "Spec c b \<longleftrightarrow>
     b 0 = Init \<and> (\<forall>k. Next c (b k) (b (Suc k)) \<or> b (Suc k) = b k)
     \<and> WF (Lease c) b \<and> WF (Heartbeat c) b \<and> WF Tick b \<and> WF (Expire c) b"

section \<open>Invariants\<close>

definition TypeOK :: "tla_constants \<Rightarrow> tla_vars \<Rightarrow> bool" where
  "TypeOK c s \<longleftrightarrow>
     tla_state s \<in> States \<and> tla_attempt s \<le> MaxAttempts c \<and> activeLease s \<le> MaxLeases c
     \<and> issued s \<le> MaxLeases c \<and> heartbeats s \<le> MaxHeartbeats c
     \<and> tla_now s \<le> (issued s + heartbeats s) * LeaseTtl c
     \<and> tla_deadline s \<le> (issued s + heartbeats s) * LeaseTtl c
     \<and> lastAckLease s \<le> MaxLeases c \<and> lastAckActiveLease s \<le> MaxLeases c
     \<and> lastHeartbeatLease s \<le> MaxLeases c \<and> lastExpiredLease s \<le> MaxLeases c"

definition NoDualLease :: "tla_vars \<Rightarrow> bool" where
  "NoDualLease s \<longleftrightarrow> (tla_state s \<in> {''leased'', ''running''} \<longrightarrow> activeLease s \<noteq> NoLease)"

definition FreshLeases :: "tla_vars \<Rightarrow> bool" where
  "FreshLeases s \<longleftrightarrow> activeLease s \<le> issued s"

definition AttemptCapped :: "tla_constants \<Rightarrow> tla_vars \<Rightarrow> bool" where
  "AttemptCapped c s \<longleftrightarrow> tla_attempt s \<le> MaxAttempts c"

definition LeaseFencingOK :: "tla_vars \<Rightarrow> bool" where
  "LeaseFencingOK s \<longleftrightarrow> lastAckLease s = lastAckActiveLease s"

definition NoLeaseWhenIdle :: "tla_vars \<Rightarrow> bool" where
  "NoLeaseWhenIdle s \<longleftrightarrow> (tla_state s \<notin> {''leased'', ''running''} \<longrightarrow> activeLease s = NoLease)"

definition NonRetryableAlwaysParks :: "tla_vars \<Rightarrow> bool" where
  "NonRetryableAlwaysParks s \<longleftrightarrow> lastFailRetryable s \<or> lastFailParked s"

definition HeartbeatExpiryFence :: "tla_vars \<Rightarrow> bool" where
  "HeartbeatExpiryFence s \<longleftrightarrow>
     lastExpiredLease s = NoLease \<or> lastExpiredLease s \<noteq> lastHeartbeatLease s
     \<or> lastExpiryNow s \<ge> lastHeartbeatDeadline s"

lemmas tla_invariants = TypeOK_def NoDualLease_def FreshLeases_def AttemptCapped_def LeaseFencingOK_def
  NoLeaseWhenIdle_def NonRetryableAlwaysParks_def HeartbeatExpiryFence_def NoLease_def States_def

text \<open>
  The inductive strengthening: the active lease is the last one issued, an expired one is older,
  a renewed active lease has the deadline of its renewal, and a job that is pending, leased or
  running has an attempt left and has used one lease per attempt.
\<close>

definition holding :: "string \<Rightarrow> bool" where
  "holding x \<longleftrightarrow> x \<in> {''leased'', ''running''}"

definition settled :: "string \<Rightarrow> bool" where
  "settled x \<longleftrightarrow> x \<in> Terminal \<union> {''parked''}"

lemma state_kinds [simp]:
  "\<not> holding ''pending''" "holding ''leased''" "holding ''running''" "\<not> holding ''succeeded''"
  "\<not> holding ''parked''" "\<not> holding ''cancelled''"
  "\<not> settled ''pending''" "\<not> settled ''leased''" "\<not> settled ''running''" "settled ''succeeded''"
  "settled ''parked''" "settled ''cancelled''"
  by (simp_all add: holding_def settled_def Terminal_def)

lemma states_in [simp]:
  "''pending'' \<in> States" "''leased'' \<in> States" "''running'' \<in> States" "''succeeded'' \<in> States"
  "''parked'' \<in> States" "''cancelled'' \<in> States"
  by (simp_all add: States_def)

lemma holding_iff: "x \<in> {''leased'', ''running''} \<longleftrightarrow> holding x"
  by (simp add: holding_def)

lemma holding_unsettled: "holding x \<Longrightarrow> \<not> settled x"
  by (auto simp: holding_def)

definition tla_inv :: "tla_constants \<Rightarrow> tla_vars \<Rightarrow> bool" where
  "tla_inv c s \<longleftrightarrow>
     activeLease s = (if holding (tla_state s) then issued s else 0)
     \<and> (\<not> settled (tla_state s) \<longrightarrow>
          tla_attempt s < MaxAttempts c \<and> issued s = tla_attempt s + (if holding (tla_state s) then 1 else 0))
     \<and> lastHeartbeatLease s \<le> issued s \<and> lastExpiredLease s \<le> issued s
     \<and> (holding (tla_state s) \<longrightarrow> lastExpiredLease s < issued s
          \<and> (lastHeartbeatLease s = issued s \<longrightarrow> lastHeartbeatDeadline s = tla_deadline s))"

lemma tla_inv_Init: "0 < MaxAttempts c \<Longrightarrow> TypeOK c Init \<and> tla_inv c Init
    \<and> LeaseFencingOK Init \<and> NonRetryableAlwaysParks Init \<and> HeartbeatExpiryFence Init"
  by (simp add: tla_invariants tla_inv_def Init_def)

lemma Next_cases:
  assumes "Next c s s'"
  obtains (Lease) "Lease c s s'" | (Start) "Start s s'" | (Heartbeat) "Heartbeat c s s'" | (Tick) "Tick s s'"
    | (Expire) "Expire c s s'" | (Cancel) "Cancel s s'" | (AckSucceed) l where "AckSucceed l s s'"
    | (LateAck) l where "LateAck l s s'" | (AckFail) l retryable where "AckFail c l retryable s s'"
  using assms unfolding Next_def by blast


lemma tla_inv_Next:
  assumes "Next c s s'" and "tla_inv c s"
  shows "tla_inv c s'"
  using assms(1)
proof (cases rule: Next_cases)
  case Lease with assms(2) show ?thesis by (simp add: Lease_def tla_inv_def)
next
  case Start with assms(2) show ?thesis by (simp add: Start_def tla_inv_def)
next
  case Heartbeat with assms(2) show ?thesis by (simp add: Heartbeat_def tla_inv_def holding_iff)
next
  case Tick with assms(2) show ?thesis by (simp add: Tick_def tla_inv_def)
next
  case Expire with assms(2) holding_unsettled show ?thesis
    by (simp add: Expire_def tla_inv_def NoLease_def holding_iff del: insert_iff)
next
  case Cancel with assms(2) show ?thesis by (simp add: Cancel_def tla_inv_def NoLease_def)
next
  case AckSucceed with assms(2) show ?thesis by (simp add: AckSucceed_def tla_inv_def NoLease_def)
next
  case LateAck with assms(2) show ?thesis by (simp add: LateAck_def tla_inv_def)
next
  case AckFail with assms(2) show ?thesis by (simp add: AckFail_def Let_def tla_inv_def NoLease_def)
qed

text \<open>The bounds on time: a tick stays below the deadline, a grant or a renewal adds one lease time.\<close>

lemma TypeOK_Next:
  assumes "Next c s s'" and "tla_inv c s" and "TypeOK c s"
  shows "TypeOK c s'"
  using assms(1)
proof (cases rule: Next_cases)
  case Lease with assms(3) show ?thesis by (simp add: Lease_def TypeOK_def)
next
  case Start with assms(3) show ?thesis by (simp add: Start_def TypeOK_def)
next
  case Heartbeat with assms(3) show ?thesis by (simp add: Heartbeat_def TypeOK_def)
next
  case Tick with assms(3) show ?thesis by (simp add: Tick_def TypeOK_def)
next
  case Expire
  then have "tla_attempt s < MaxAttempts c"
    using assms(2) holding_unsettled by (simp add: Expire_def tla_inv_def holding_iff del: insert_iff)
  with Expire assms(3) show ?thesis by (simp add: Expire_def TypeOK_def NoLease_def)
next
  case Cancel with assms(3) show ?thesis by (simp add: Cancel_def TypeOK_def NoLease_def)
next
  case AckSucceed with assms(3) show ?thesis by (simp add: AckSucceed_def TypeOK_def NoLease_def)
next
  case LateAck with assms(3) show ?thesis by (simp add: LateAck_def TypeOK_def)
next
  case AckFail
  then have "tla_attempt s < MaxAttempts c"
    using assms(2) by (simp add: AckFail_def tla_inv_def Let_def)
  with AckFail assms(3) show ?thesis by (simp add: AckFail_def Let_def TypeOK_def NoLease_def)
qed

definition tla_fences :: "tla_vars \<Rightarrow> bool" where
  "tla_fences s \<longleftrightarrow> LeaseFencingOK s \<and> NonRetryableAlwaysParks s \<and> HeartbeatExpiryFence s"

lemmas tla_fence_simps = tla_fences_def LeaseFencingOK_def NonRetryableAlwaysParks_def HeartbeatExpiryFence_def

lemma tla_fences_Next:
  assumes "Next c s s'" and "tla_inv c s" and "tla_fences s"
  shows "tla_fences s'"
  using assms(1)
proof (cases rule: Next_cases)
  case Heartbeat
  with assms(2,3) show ?thesis
    by (simp add: Heartbeat_def tla_inv_def tla_fence_simps holding_iff del: insert_iff)
next
  case Expire
  with assms(2,3) show ?thesis
    by (simp add: Expire_def tla_inv_def tla_fence_simps holding_iff del: insert_iff)
next
  case AckFail with assms(3) show ?thesis by (auto simp: AckFail_def Let_def tla_fence_simps)
qed (use assms(3) in \<open>simp_all add: Lease_def Start_def Tick_def LateAck_def Cancel_def AckSucceed_def tla_fence_simps\<close>)

lemma tla_reachable:
  assumes "(Next c)\<^sup>*\<^sup>* Init s" and "0 < MaxAttempts c"
  shows "tla_inv c s" and "TypeOK c s" and "tla_fences s"
proof -
  from assms(1) have "tla_inv c s \<and> TypeOK c s \<and> tla_fences s"
  proof (induction rule: rtranclp_induct)
    case base
    then show ?case using tla_inv_Init [OF assms(2)] by (simp add: tla_fences_def)
  next
    case (step s s')
    then show ?case using tla_inv_Next TypeOK_Next tla_fences_Next by blast
  qed
  then show "tla_inv c s" "TypeOK c s" "tla_fences s" by simp_all
qed

text \<open>
  C15. The lease protocol is well typed for every choice of its constants that allows an attempt,
  not only for the one the model checker explores: every reachable state satisfies \<open>TypeOK\<close>
  (with its bound on model time by the grants and renewals made) and all the invariants of the
  specification.
\<close>

theorem lease_protocol_typed:
  assumes "(Next c)\<^sup>*\<^sup>* Init s" and "1 \<le> MaxAttempts c"
  shows "TypeOK c s \<and> NoDualLease s \<and> FreshLeases s \<and> AttemptCapped c s \<and> LeaseFencingOK s
    \<and> NoLeaseWhenIdle s \<and> NonRetryableAlwaysParks s \<and> HeartbeatExpiryFence s"
proof -
  have pos: "0 < MaxAttempts c" using assms(2) by simp
  note facts = tla_reachable [OF assms(1) pos]
  have "NoDualLease s" "NoLeaseWhenIdle s" "FreshLeases s"
    using facts(1) holding_unsettled [of "tla_state s"]
    by (simp_all add: NoDualLease_def NoLeaseWhenIdle_def FreshLeases_def tla_inv_def holding_iff NoLease_def del: insert_iff)
  with facts(2,3) show ?thesis by (simp add: tla_fences_def AttemptCapped_def TypeOK_def)
qed

section \<open>Liveness\<close>

text \<open>
  A rank that every step of a job that is not settled lowers, a late ack apart: attempts left,
  distance to running, renewals left, time left.
\<close>

definition phase :: "string \<Rightarrow> nat" where
  "phase x = (if x = ''pending'' then 2 else if x = ''leased'' then 1 else 0)"

definition rank :: "tla_constants \<Rightarrow> tla_vars \<Rightarrow> nat \<times> nat \<times> nat \<times> nat" where
  "rank c s = (MaxAttempts c - tla_attempt s, phase (tla_state s), MaxHeartbeats c - heartbeats s,
               tla_deadline s - tla_now s)"

definition rank_less :: "((nat \<times> nat \<times> nat \<times> nat) \<times> (nat \<times> nat \<times> nat \<times> nat)) set" where
  "rank_less = less_than <*lex*> less_than <*lex*> less_than <*lex*> less_than"

lemma wf_rank_less: "wf rank_less"
  by (simp add: rank_less_def wf_lex_prod)

lemma phase_simps [simp]: "phase ''pending'' = 2" "phase ''leased'' = 1" "phase ''running'' = 0"
  by (simp_all add: phase_def)

lemma settled_Next: "Next c s s' \<Longrightarrow> settled (tla_state s) \<Longrightarrow> settled (tla_state s')"
  by (cases rule: Next_cases, assumption)
     (auto simp: Lease_def Start_def Tick_def Heartbeat_def Expire_def LateAck_def Cancel_def AckSucceed_def
        AckFail_def Let_def)

text \<open>A step either settles the job, or lowers the rank, or is a late ack.\<close>

lemma rank_Next:
  assumes "Next c s s'" and "tla_inv c s" and "\<not> settled (tla_state s')"
  shows "(rank c s', rank c s) \<in> rank_less \<or> (\<exists>n. s' = s\<lparr>conflicts := n\<rparr>)"
  using assms(1)
proof (cases rule: Next_cases)
  case Lease then show ?thesis by (simp add: Lease_def rank_def rank_less_def)
next
  case Start then show ?thesis by (simp add: Start_def rank_def rank_less_def)
next
  case Heartbeat then show ?thesis by (auto simp: Heartbeat_def rank_def rank_less_def)
next
  case Tick then show ?thesis by (auto simp: Tick_def rank_def rank_less_def)
next
  case Expire
  with assms(2) holding_unsettled have "tla_attempt s < MaxAttempts c"
    by (simp add: Expire_def tla_inv_def holding_iff del: insert_iff)
  with Expire show ?thesis by (auto simp: Expire_def rank_def rank_less_def)
next
  case Cancel with assms(3) show ?thesis by (simp add: Cancel_def)
next
  case AckSucceed with assms(3) show ?thesis by (simp add: AckSucceed_def)
next
  case LateAck then show ?thesis by (auto simp: LateAck_def)
next
  case AckFail
  with assms(2) have "tla_attempt s < MaxAttempts c" by (simp add: AckFail_def tla_inv_def Let_def)
  with AckFail show ?thesis by (auto simp: AckFail_def Let_def rank_def rank_less_def)
qed

lemma Enabled_simps:
  "Enabled (Lease c) s \<longleftrightarrow> tla_state s = ''pending'' \<and> issued s < MaxLeases c"
  "Enabled Tick s \<longleftrightarrow> holding (tla_state s) \<and> tla_now s < tla_deadline s"
  "Enabled (Expire c) s \<longleftrightarrow> holding (tla_state s) \<and> tla_now s \<ge> tla_deadline s"
proof -
  have [simp]: "s\<lparr>issued := n, activeLease := m, tla_deadline := d, tla_state := x\<rparr> \<noteq> s" if "n \<noteq> issued s" for n m d x
    using that by (metis tla_vars.select_convs(4) tla_vars.surjective tla_vars.update_convs(1,3,4,7))
  show "Enabled (Lease c) s \<longleftrightarrow> tla_state s = ''pending'' \<and> issued s < MaxLeases c"
    by (simp add: Enabled_def Lease_def)
  have "s\<lparr>tla_now := tla_now s + 1\<rparr> \<noteq> s"
    by (cases s) simp
  then show "Enabled Tick s \<longleftrightarrow> holding (tla_state s) \<and> tla_now s < tla_deadline s"
    by (auto simp: Enabled_def Tick_def holding_iff simp del: insert_iff)
  have "s\<lparr>tla_attempt := tla_attempt s + 1, activeLease := NoLease, tla_deadline := 0,
              tla_state := (if tla_attempt s + 1 \<ge> MaxAttempts c then ''parked'' else ''pending''),
              lastExpiredLease := activeLease s, lastExpiryNow := tla_now s\<rparr> \<noteq> s"
    by (cases s) simp
  then show "Enabled (Expire c) s \<longleftrightarrow> holding (tla_state s) \<and> tla_now s \<ge> tla_deadline s"
    by (auto simp: Enabled_def Expire_def holding_iff simp del: insert_iff)
qed

lemma some_fair_action:
  assumes "tla_inv c s" and "TypeOK c s" and "MaxAttempts c \<le> MaxLeases c" and "\<not> settled (tla_state s)"
  shows "Enabled (Lease c) s \<or> Enabled Tick s \<or> Enabled (Expire c) s"
proof (cases "holding (tla_state s)")
  case True
  then show ?thesis by (auto simp: Enabled_simps)
next
  case False
  then have "tla_state s = ''pending''"
    using assms(2,4) by (auto simp: TypeOK_def States_def)
  with assms(1,3,4) show ?thesis by (simp add: Enabled_simps tla_inv_def)
qed

lemma fair_action_moves:
  "\<not> Lease c s (s\<lparr>conflicts := n\<rparr>)" "\<not> Tick s (s\<lparr>conflicts := n\<rparr>)" "\<not> Expire c s (s\<lparr>conflicts := n\<rparr>)"
proof -
  have st: "tla_state (s\<lparr>conflicts := n\<rparr>) = tla_state s" "tla_now (s\<lparr>conflicts := n\<rparr>) = tla_now s"
      "tla_attempt (s\<lparr>conflicts := n\<rparr>) = tla_attempt s" "issued (s\<lparr>conflicts := n\<rparr>) = issued s"
    by simp_all
  show "\<not> Lease c s (s\<lparr>conflicts := n\<rparr>)"
    using st(4) by (auto simp: Lease_def dest: arg_cong [of _ _ issued])
  show "\<not> Tick s (s\<lparr>conflicts := n\<rparr>)"
    using st(2) by (auto simp: Tick_def dest: arg_cong [of _ _ tla_now])
  show "\<not> Expire c s (s\<lparr>conflicts := n\<rparr>)"
    using st(3) by (auto simp: Expire_def dest: arg_cong [of _ _ tla_attempt])
qed

lemma Spec_reachable: "Spec c b \<Longrightarrow> (Next c)\<^sup>*\<^sup>* Init (b k)"
proof (induction k)
  case 0
  then show ?case by (simp add: Spec_def)
next
  case (Suc k)
  then have "Next c (b k) (b (Suc k)) \<or> b (Suc k) = b k" by (simp add: Spec_def)
  with Suc show ?case by (auto intro: rtranclp.rtrancl_into_rtrancl)
qed

lemma Spec_still:
  assumes "Spec c b" and "0 < MaxAttempts c"
    and "\<And>k. k \<ge> i \<Longrightarrow> \<not> settled (tla_state (b k)) \<and> (rank c (b k), rank c (b i)) \<notin> rank_less"
  shows "\<exists>n. b (i + d) = (b i)\<lparr>conflicts := n\<rparr>"
proof (induction d)
  case 0
  then show ?case by (auto intro: exI [of _ "conflicts (b i)"])
next
  case (Suc d)
  then obtain n where n: "b (i + d) = (b i)\<lparr>conflicts := n\<rparr>" by blast
  have eq: "rank c (b (i + d)) = rank c (b i)" by (simp add: n rank_def)
  have stop: "\<not> settled (tla_state (b (Suc (i + d))))" "(rank c (b (Suc (i + d))), rank c (b (i + d))) \<notin> rank_less"
    using assms(3) [of "Suc (i + d)"] by (simp_all add: eq)
  have "Next c (b (i + d)) (b (Suc (i + d))) \<or> b (Suc (i + d)) = b (i + d)"
    using assms(1) by (simp add: Spec_def)
  then show ?case
  proof
    assume "Next c (b (i + d)) (b (Suc (i + d)))"
    from rank_Next [OF this tla_reachable(1) [OF Spec_reachable [OF assms(1)] assms(2)] stop(1)] stop(2)
    show ?thesis by (auto simp: n)
  qed (auto simp: n)
qed

lemma Spec_progress:
  assumes "Spec c b" and "0 < MaxAttempts c" and "MaxAttempts c \<le> MaxLeases c"
  shows "\<exists>k\<ge>i. settled (tla_state (b k)) \<or> (rank c (b k), rank c (b i)) \<in> rank_less"
proof (rule ccontr)
  assume "\<not> ?thesis"
  then have stuck: "\<not> settled (tla_state (b k)) \<and> (rank c (b k), rank c (b i)) \<notin> rank_less" if "k \<ge> i" for k
    using that by blast
  have still: "\<exists>n. b k = (b i)\<lparr>conflicts := n\<rparr>" if "k \<ge> i" for k
    using Spec_still [OF assms(1,2) stuck, where d = "k - i"] that by simp
  note r = tla_reachable [OF Spec_reachable [OF assms(1)] assms(2)]
  have no: "\<not> (\<exists>k\<ge>i. A (b k) (b (Suc k)))" if "\<And>s n. \<not> A s (s\<lparr>conflicts := n\<rparr>)" for A
  proof
    assume "\<exists>k\<ge>i. A (b k) (b (Suc k))"
    then obtain k where k: "k \<ge> i" "A (b k) (b (Suc k))" by blast
    obtain n m where "b k = (b i)\<lparr>conflicts := n\<rparr>" "b (Suc k) = (b i)\<lparr>conflicts := m\<rparr>"
      using still [of k] still [of "Suc k"] k(1) by auto
    then have "b (Suc k) = (b k)\<lparr>conflicts := m\<rparr>" by simp
    with k(2) that show False by simp
  qed
  have keep: "\<forall>k\<ge>i. Enabled (Lease c) (b k) = Enabled (Lease c) (b i)"
      "\<forall>k\<ge>i. Enabled Tick (b k) = Enabled Tick (b i)" "\<forall>k\<ge>i. Enabled (Expire c) (b k) = Enabled (Expire c) (b i)"
    using still by (fastforce simp: Enabled_simps)+
  have "Enabled (Lease c) (b i) \<or> Enabled Tick (b i) \<or> Enabled (Expire c) (b i)"
    using some_fair_action [OF r(1,2) assms(3)] stuck by blast
  with keep assms(1) have "(\<exists>k\<ge>i. Lease c (b k) (b (Suc k))) \<or> (\<exists>k\<ge>i. Tick (b k) (b (Suc k)))
      \<or> (\<exists>k\<ge>i. Expire c (b k) (b (Suc k)))"
    unfolding Spec_def WF_def by metis
  with no [of "Lease c", OF fair_action_moves(1)] no [of Tick, OF fair_action_moves(2)]
    no [of "Expire c", OF fair_action_moves(3)] show False by blast
qed

text \<open>
  C14. Every job settles: in every behaviour of the lease protocol that is weakly fair to granting,
  renewing, the passage of time and expiry, with any number of attempts, any lease time and any
  bound on renewals, from some point on the job is succeeded, cancelled or parked for good,
  provided that there are at least as many leases to grant as attempts.
\<close>

theorem lease_protocol_settles:
  assumes "Spec c b" and "1 \<le> MaxAttempts c" and "MaxAttempts c \<le> MaxLeases c"
  shows "\<exists>i. \<forall>k\<ge>i. tla_state (b k) \<in> Terminal \<union> {''parked''}"
proof -
  have pos: "0 < MaxAttempts c" using assms(2) by simp
  have "\<exists>k. settled (tla_state (b k))" if "m = rank c (b i)" for m i
    using wf_rank_less that
  proof (induction m arbitrary: i rule: wf_induct_rule)
    case (less m)
    then show ?case using Spec_progress [OF assms(1) pos assms(3), of i] by blast
  qed
  then obtain i where i: "settled (tla_state (b i))" by blast
  have "settled (tla_state (b (i + d)))" for d
  proof (induction d)
    case (Suc d)
    have "Next c (b (i + d)) (b (Suc (i + d))) \<or> b (Suc (i + d)) = b (i + d)"
      using assms(1) by (simp add: Spec_def)
    with Suc settled_Next show ?case by auto
  qed (simp add: i)
  then show ?thesis by (metis le_Suc_ex settled_def)
qed

section \<open>Concrete behaviours\<close>

definition tla_sample :: tla_constants where
  "tla_sample = \<lparr>MaxAttempts = 3, MaxLeases = 5, MaxHeartbeats = 2, LeaseTtl = 2\<rparr>"

theorem lease_protocol_typed_witness:
  "\<exists>s. tla_state s = ''leased'' \<and> tla_deadline s = 2 \<and> TypeOK tla_sample s \<and> NoDualLease s \<and> HeartbeatExpiryFence s"
proof -
  let ?s = "Init\<lparr>issued := 1, activeLease := 1, tla_deadline := 2, tla_state := ''leased''\<rparr>"
  have "Next tla_sample Init ?s"
    by (simp add: Next_def Lease_def Init_def tla_sample_def)
  then have "(Next tla_sample)\<^sup>*\<^sup>* Init ?s" by (rule r_into_rtranclp)
  from lease_protocol_typed [OF this] have "TypeOK tla_sample ?s" "NoDualLease ?s" "HeartbeatExpiryFence ?s"
    by (simp_all add: tla_sample_def)
  then show ?thesis by (intro exI [of _ ?s] conjI) simp_all
qed

theorem lease_protocol_settles_witness:
  "\<exists>i :: nat. \<forall>k\<ge>i. tla_state (if k = 0 then Init else Init\<lparr>tla_state := ''cancelled''\<rparr>) \<in> Terminal \<union> {''parked''}"
proof -
  define b where "b = (\<lambda>k :: nat. if k = 0 then Init else Init\<lparr>tla_state := ''cancelled''\<rparr>)"
  have quiet: "\<not> Enabled A (b (Suc i))" if "\<And>s s'. A s s' \<Longrightarrow> \<not> settled (tla_state s)" for A i
    using that by (auto simp: b_def Enabled_def) (metis select_convs(1) state_kinds(12) surjective update_convs(1))
  have wf: "WF A b" if "\<And>s s'. A s s' \<Longrightarrow> \<not> settled (tla_state s)" for A
    unfolding WF_def using quiet [OF that] by (meson le_SucI order_refl)
  have "Next tla_sample (b k) (b (Suc k)) \<or> b (Suc k) = b k" for k
    by (simp add: b_def Next_def Cancel_def) (simp add: Init_def NoLease_def)
  moreover have "WF (Lease tla_sample) b" "WF (Heartbeat tla_sample) b" "WF Tick b" "WF (Expire tla_sample) b"
    by (rule wf; auto simp: Lease_def Heartbeat_def Tick_def Expire_def)+
  ultimately have "Spec tla_sample b" by (simp add: Spec_def b_def)
  from lease_protocol_settles [OF this] have "\<exists>i. \<forall>k\<ge>i. tla_state (b k) \<in> Terminal \<union> {''parked''}"
    by (simp add: tla_sample_def)
  then show ?thesis unfolding b_def .
qed

section \<open>The aggregate implements the protocol\<close>

text \<open>
  What the protocol sees of a job and of the number \<open>g\<close> of leases granted to it: the state, the
  attempts, the number of the lease that is active.
\<close>

definition seen_as :: "'v Job \<Rightarrow> nat \<Rightarrow> tla_vars \<Rightarrow> bool" where
  "seen_as job g m \<longleftrightarrow>
     tla_state m = state_name (job_state job) \<and> tla_attempt m = unat (job_attempt job) \<and> issued m = g
     \<and> activeLease m = (if holding (state_name (job_state job)) then g else 0)"

definition grants :: "'v JobEvent list \<Rightarrow> nat" where
  "grants evs = length (filter (\<lambda>ev. case ev of E_Leased _ _ _ \<Rightarrow> True | _ \<Rightarrow> False) evs)"

definition granted :: "'v Job \<Rightarrow> nat \<Rightarrow> bool" where
  "granted job g \<longleftrightarrow>
     (live_state (job_state job) \<longrightarrow>
        g = unat (job_attempt job) + (if holding (state_name (job_state job)) then 1 else 0))"

definition granted_ok :: "'v Job \<Rightarrow> nat \<Rightarrow> bool" where
  "granted_ok job g \<longleftrightarrow> attempt_inv job \<and> \<not> reserved_state (job_state job) \<and> granted job g"

definition constants_for :: "tla_constants \<Rightarrow> 'v Job \<Rightarrow> bool" where
  "constants_for c job \<longleftrightarrow>
     MaxAttempts c = unat (max_attempts (job_retry_policy job)) \<and> MaxAttempts c \<le> MaxLeases c"

lemma holding_state_name:
  "holding (state_name st) \<longleftrightarrow> (case st of S_Leased _ _ _ \<Rightarrow> True | S_Running _ _ _ \<Rightarrow> True | _ \<Rightarrow> False)"
  by (cases st) (simp_all add: holding_def)

lemma grants_simps [simp]: "grants [] = 0" "grants (E_Leased w l x # evs) = Suc (grants evs)"
  "(\<And>w l x. ev \<noteq> E_Leased w l x) \<Longrightarrow> grants (ev # evs) = grants evs"
  by (auto simp: grants_def split: JobEvent.splits)

lemma NextI:
  "Lease c s s' \<Longrightarrow> Next c s s'" "Start s s' \<Longrightarrow> Next c s s'" "Tick s s' \<Longrightarrow> Next c s s'"
  "Expire c s s' \<Longrightarrow> Next c s s'" "Cancel s s' \<Longrightarrow> Next c s s'"
  "1 \<le> l \<Longrightarrow> l \<le> MaxLeases c \<Longrightarrow> AckSucceed l s s' \<Longrightarrow> Next c s s'"
  "1 \<le> l \<Longrightarrow> l \<le> MaxLeases c \<Longrightarrow> AckFail c l retryable s s' \<Longrightarrow> Next c s s'"
  unfolding Next_def by (blast, blast, blast, blast, blast) fastforce+

lemma ticks: "holding (tla_state m) \<Longrightarrow> (Next c)\<^sup>*\<^sup>* m (m\<lparr>tla_now := max (tla_now m) (tla_deadline m)\<rparr>)"
proof (induction "tla_deadline m - tla_now m" arbitrary: m)
  case 0
  then have "m\<lparr>tla_now := max (tla_now m) (tla_deadline m)\<rparr> = m" by simp
  then show ?case by simp
next
  case (Suc n)
  then have "Next c m (m\<lparr>tla_now := tla_now m + 1\<rparr>)" 
    by (intro NextI(3)) (simp add: Tick_def holding_def)
  moreover have "(Next c)\<^sup>*\<^sup>* (m\<lparr>tla_now := tla_now m + 1\<rparr>) (m\<lparr>tla_now := max (tla_now m) (tla_deadline m)\<rparr>)"
  proof -
    have "tla_now m < tla_deadline m" "n = tla_deadline m - Suc (tla_now m)" using Suc.hyps(2) by simp_all
    with Suc.hyps(1) [of "m\<lparr>tla_now := tla_now m + 1\<rparr>"] Suc.prems show ?thesis by (simp add: max_def)
  qed
  ultimately show ?case by (rule converse_rtranclp_into_rtranclp)
qed

text \<open>The lease of a job that holds one, seen as a number the protocol can ack.\<close>

lemma held_number:
  assumes "granted_ok job g" and "seen_as job g m" and "constants_for c job"
    and "holding (state_name (job_state job))"
  shows "activeLease m = g" "1 \<le> g" "g \<le> MaxLeases c" "holding (tla_state m)"
proof -
  have live: "live_state (job_state job)"
    using assms(4) by (simp add: holding_state_name live_state_def split: JobState.splits)
  then have "g = Suc (unat (job_attempt job))" "unat (job_attempt job) < MaxAttempts c"
    using assms(1,3,4) by (simp_all add: granted_ok_def granted_def attempt_inv_def constants_for_def word_less_nat_alt)
  then show "activeLease m = g" "1 \<le> g" "g \<le> MaxLeases c" "holding (tla_state m)"
    using assms(2-4) by (simp_all add: seen_as_def constants_for_def)
qed

text \<open>The verdict on a failed or expired attempt, on both sides.\<close>

lemma verdict_seen:
  assumes "attempt_inv job" and "live_state (job_state job)" and "constants_for c job"
    and "if retryable then retry_decision_event C job (job_attempt job + 1) now seed = Ok ev
         else ev = E_Parked NonRetryableError"
  shows "state_name (retry_state ev) =
      (if retryable then if unat (job_attempt job) + 1 \<ge> MaxAttempts c then ''parked'' else ''pending'' else ''parked'')"
    "unat (job_attempt job + 1) = unat (job_attempt job) + 1" "grants [x, ev] = grants [x]"
proof -
  have lt: "job_attempt job < max_attempts (job_retry_policy job)"
    using assms(1,2) by (simp add: attempt_inv_def)
  then show u: "unat (job_attempt job + 1) = unat (job_attempt job) + 1" by (rule unat_inc)
  show "state_name (retry_state ev) =
      (if retryable then if unat (job_attempt job) + 1 \<ge> MaxAttempts c then ''parked'' else ''pending'' else ''parked'')"
    using assms(3,4)
    by (auto simp: retry_state_def constants_for_def word_le_nat_alt word_less_nat_alt u split: if_splits
        elim!: retry_decision_event_cases)
  show "grants [x, ev] = grants [x]"
    using assms(4) by (auto simp: grants_def split: if_splits elim!: retry_decision_event_cases)
qed

text \<open>
  Every command that the aggregate accepts is a step of the protocol, an expiry after the ticks
  that bring model time to the deadline; a late ack changes nothing that the protocol sees.
\<close>

definition simulated :: "tla_constants \<Rightarrow> tla_vars \<Rightarrow> 'v Job \<Rightarrow> nat \<Rightarrow> bool" where
  "simulated c m job g \<longleftrightarrow> (\<exists>m'. (Next c)\<^sup>*\<^sup>* m m' \<and> seen_as job g m')"

lemma simulatedI: "Next c m m' \<Longrightarrow> seen_as job g m' \<Longrightarrow> simulated c m job g"
  unfolding simulated_def by blast

lemma lease_simulated:
  assumes "run_command C job (Cmd_Lease w l now ttl) = Ok evs" and "apply_all job evs = Ok job'"
    and "granted_ok job g" and "seen_as job g m" and "constants_for c job"
  shows "simulated c m job' (g + grants evs) \<and> granted job' (g + grants evs)"
proof -
  obtain ev where ev: "lease C job w l now ttl = Ok ev" "evs = [ev]" using assms(1) by (auto simp: single_eq_Ok)
  from single_commands_apply(1) [OF ev(1)] obtain x nb where x: "ev = E_Leased w l x" "job_state job = S_Pending nb"
      "apply_event job ev = advance job (S_Leased w l x)" by blast
  then have j': "job' = job\<lparr>job_state := S_Leased w l x, job_version := job_version job + 1\<rparr>"
    using assms(2) ev(2) by (simp add: advance_def)
  have "unat (job_attempt job) < MaxAttempts c" "g = unat (job_attempt job)"
    using assms(3,5) x(2) by (simp_all add: granted_ok_def granted_def attempt_inv_def constants_for_def live_state_def word_less_nat_alt)
  then have "Lease c m (m\<lparr>issued := issued m + 1, activeLease := issued m + 1,
            tla_deadline := tla_now m + LeaseTtl c, tla_state := ''leased''\<rparr>)"
    using assms(4,5) x(2) by (simp add: Lease_def seen_as_def constants_for_def)
  from simulatedI [OF NextI(1) [OF this], of job' "g + grants evs"] assms(4) \<open>g = _\<close> show ?thesis
    by (simp add: j' ev(2) x(1) seen_as_def granted_def)
qed

lemma start_simulated:
  assumes "run_command C job (Cmd_Start w) = Ok evs" and "apply_all job evs = Ok job'"
    and "granted_ok job g" and "seen_as job g m"
  shows "simulated c m job' (g + grants evs) \<and> granted job' (g + grants evs)"
proof -
  obtain ev where ev: "start job w = Ok ev" "evs = [ev]" using assms(1) by (auto simp: single_eq_Ok)
  from single_commands_apply(2) [OF ev(1)] obtain l x where x: "ev = E_Started w" "job_state job = S_Leased w l x"
      "apply_event job ev = advance job (S_Running w l x)" by blast
  then have j': "job' = job\<lparr>job_state := S_Running w l x, job_version := job_version job + 1\<rparr>"
    using assms(2) ev(2) by (simp add: advance_def)
  have "Start m (m\<lparr>tla_state := ''running''\<rparr>)"
    using assms(4) x(2) by (simp add: Start_def seen_as_def)
  from simulatedI [OF NextI(2) [OF this], of job' "g + grants evs"] assms(3,4) show ?thesis
    by (simp add: j' ev(2) x(1,2) seen_as_def granted_ok_def granted_def live_state_def)
qed

lemma succeed_simulated:
  assumes "run_command C job (Cmd_Succeed l res) = Ok evs" and "apply_all job evs = Ok job'"
    and "granted_ok job g" and "seen_as job g m" and "constants_for c job"
  shows "simulated c m job' (g + grants evs) \<and> granted job' (g + grants evs)"
proof -
  obtain ev where ev: "succeed job l res = Ok ev" "evs = [ev]" using assms(1) by (auto simp: single_eq_Ok)
  then obtain w x where st: "job_state job = S_Running w l x" by (auto simp: succeed_eq_Ok)
  have j': "ev = E_Succeeded res" "job' = job\<lparr>job_state := S_Succeeded, job_version := job_version job + 1\<rparr>"
    using single_commands_apply(3) [OF ev(1)] assms(2) ev(2) by (auto simp: advance_def)
  have "holding (state_name (job_state job))" by (simp add: st)
  note held = held_number [OF assms(3-5) this]
  then have "AckSucceed g m (m\<lparr>tla_state := ''succeeded'', activeLease := NoLease, tla_deadline := 0,
            lastAckLease := g, lastAckActiveLease := activeLease m\<rparr>)"
    using assms(4) st by (simp add: AckSucceed_def seen_as_def)
  from simulatedI [OF NextI(6) [OF held(2,3) this], of job' "g + grants evs"] assms(4) show ?thesis
    by (simp add: j' ev(2) seen_as_def NoLease_def granted_def live_state_def)
qed

lemma fail_simulated:
  assumes "run_command C job (Cmd_Fail l err now seed) = Ok evs" and "apply_all job evs = Ok job'"
    and "granted_ok job g" and "seen_as job g m" and "constants_for c job"
  shows "simulated c m job' (g + grants evs) \<and> granted job' (g + grants evs)"
proof -
  have f: "fail C job l err now seed = Ok evs" using assms(1) by simp
  obtain w x ev where st: "job_state job = S_Running w l x" and ev: "evs = [E_Failed err (job_attempt job + 1), ev]"
      "if error_retryable err then retry_decision_event C job (job_attempt job + 1) now seed = Ok ev
       else ev = E_Parked NonRetryableError"
    using f by (auto simp: fail_eq_Ok split: if_splits)
  have j': "job' = job\<lparr>job_attempt := job_attempt job + 1, job_state := retry_state ev, job_version := job_version job + 2\<rparr>"
    using fail_applies [OF f] assms(2) ev(1) by auto
  have inv: "attempt_inv job" "live_state (job_state job)" using assms(3) st by (simp_all add: granted_ok_def live_state_def)
  note v = verdict_seen [OF inv assms(5) ev(2)]
  have "holding (state_name (job_state job))" by (simp add: st)
  note held = held_number [OF assms(3-5) this]
  have "g = unat (job_attempt job) + 1" using assms(3) st by (simp add: granted_ok_def granted_def live_state_def)
  then have gr: "granted job' g" by (auto simp: granted_def j' v(1,2) split: if_splits)
  let ?x = "state_name (retry_state ev)"
  have "AckFail c g (error_retryable err) m (m\<lparr>tla_attempt := tla_attempt m + 1, activeLease := NoLease, tla_deadline := 0,
            tla_state := ?x, lastAckLease := g, lastAckActiveLease := activeLease m,
            lastFailRetryable := error_retryable err, lastFailParked := (?x = ''parked'')\<rparr>)"
    using assms(4) st held(1) by (simp add: AckFail_def Let_def seen_as_def v(1))
  from simulatedI [OF NextI(7) [OF held(2,3) this], of job' g] assms(4) have "simulated c m job' g"
    by (simp add: j' v(2) seen_as_def NoLease_def) (simp add: v(1))
  with gr show ?thesis by (simp add: ev(1) v(3))
qed

lemma expire_simulated:
  assumes "run_command C job (Cmd_Expire now seed) = Ok evs" and "apply_all job evs = Ok job'"
    and "granted_ok job g" and "seen_as job g m" and "constants_for c job"
  shows "simulated c m job' (g + grants evs) \<and> granted job' (g + grants evs)"
proof -
  have f: "expire_lease C job now seed = Ok evs" using assms(1) by simp
  obtain l ev where ev: "evs = [E_LeaseExpired l, ev]"
      "if True then retry_decision_event C job (job_attempt job + 1) now seed = Ok ev else ev = E_Parked NonRetryableError"
      and h: "holding (state_name (job_state job))" and inv: "attempt_inv job" "live_state (job_state job)"
    using f assms(3) by (auto simp: expire_lease_eq_Ok granted_ok_def live_state_def)
  have j': "job' = job\<lparr>job_attempt := job_attempt job + 1, job_state := retry_state ev, job_version := job_version job + 2\<rparr>"
    using expire_lease_applies [OF f] assms(2) ev(1) by auto
  note v = verdict_seen [OF inv assms(5) ev(2)]
  note held = held_number [OF assms(3-5) h]
  have "g = unat (job_attempt job) + 1" using assms(3) h inv(2) by (simp add: granted_ok_def granted_def)
  then have gr: "granted job' g" by (auto simp: granted_def j' v(1,2) split: if_splits)
  let ?m = "m\<lparr>tla_now := max (tla_now m) (tla_deadline m)\<rparr>" and ?x = "state_name (retry_state ev)"
  let ?m' = "?m\<lparr>tla_attempt := tla_attempt m + 1, activeLease := NoLease, tla_deadline := 0, tla_state := ?x,
            lastExpiredLease := activeLease m, lastExpiryNow := tla_now ?m\<rparr>"
  have "Expire c ?m ?m'"
    using assms(4) held(4) by (simp add: Expire_def holding_iff seen_as_def v(1) del: insert_iff)
  from rtranclp.rtrancl_into_rtrancl [OF ticks [OF held(4)] NextI(4) [OF this]]
  have "(Next c)\<^sup>*\<^sup>* m ?m'" .
  moreover have "seen_as job' (g + grants evs) ?m'"
    using assms(4) by (simp add: j' ev(1) v(2,3) seen_as_def NoLease_def) (simp add: v(1))
  ultimately have "simulated c m job' (g + grants evs)" unfolding simulated_def by blast
  with gr show ?thesis by (simp add: ev(1) v(3))
qed

lemma cancel_simulated:
  assumes "run_command C job (Cmd_Cancel reason) = Ok evs" and "apply_all job evs = Ok job'"
    and "granted_ok job g" and "seen_as job g m"
  shows "simulated c m job' (g + grants evs) \<and> granted job' (g + grants evs)"
proof -
  obtain ev where ev: "cancel job reason = Ok ev" "evs = [ev]" using assms(1) by (auto simp: single_eq_Ok)
  have j': "ev = E_Cancelled reason" "job' = job\<lparr>job_state := S_Cancelled, job_version := job_version job + 1\<rparr>"
    using single_commands_apply(4) [OF ev(1)] assms(2) ev(2) by (auto simp: advance_def)
  have "\<not> reserved_state (job_state job)" using assms(3) by (simp add: granted_ok_def)
  then have "Cancel m (m\<lparr>tla_state := ''cancelled'', activeLease := NoLease, tla_deadline := 0\<rparr>)"
    using assms(4) ev(1) by (auto simp: Cancel_def seen_as_def cancel_def reserved_state_def split: JobState.splits)
  from simulatedI [OF NextI(5) [OF this], of job' "g + grants evs"] assms(4) show ?thesis
    by (simp add: j' ev(2) seen_as_def NoLease_def granted_def live_state_def)
qed

lemma late_ack_simulated:
  assumes "run_command C job (Cmd_LateAck w l r) = Ok evs" and "apply_all job evs = Ok job'"
    and "granted_ok job g" and "seen_as job g m"
  shows "simulated c m job' (g + grants evs) \<and> granted job' (g + grants evs)"
proof -
  have "evs = [E_LateAckConflict w l r]" "job' = job\<lparr>job_version := job_version job + 1\<rparr>"
    using assms(1,2) by (auto simp: late_ack_def advance_def)
  with assms(3,4) show ?thesis
    by (auto simp: simulated_def seen_as_def granted_ok_def granted_def intro: exI [of _ m])
qed

lemma command_simulated:
  assumes "run_command C job cmd = Ok evs" and "apply_all job evs = Ok job'"
    and "granted_ok job g" and "seen_as job g m" and "constants_for c job"
  shows "simulated c m job' (g + grants evs) \<and> granted_ok job' (g + grants evs)"
proof -
  have inv: "attempt_inv job" "\<not> reserved_state (job_state job)" using assms(3) by (simp_all add: granted_ok_def)
  have "simulated c m job' (g + grants evs) \<and> granted job' (g + grants evs)"
  proof (cases cmd)
    case Cmd_Lease then show ?thesis using lease_simulated assms by blast
  next
    case Cmd_Start then show ?thesis using start_simulated assms by blast
  next
    case Cmd_Succeed then show ?thesis using succeed_simulated assms by blast
  next
    case Cmd_Fail then show ?thesis using fail_simulated assms by blast
  next
    case Cmd_Expire then show ?thesis using expire_simulated assms by blast
  next
    case Cmd_Cancel then show ?thesis using cancel_simulated assms by blast
  next
    case Cmd_LateAck then show ?thesis using late_ack_simulated assms by blast
  qed
  with attempt_inv_command [OF assms(1,2) inv] show ?thesis by (simp add: granted_ok_def)
qed

section \<open>Journals\<close>

text \<open>
  The recorded streams of all jobs.  They grow when a valid command opens a stream, and when
  what a command of the aggregate asked for is recorded at the end of the stream it was computed
  from.
\<close>

inductive journal_step :: "chrono \<Rightarrow> (JobId \<Rightarrow> 'v stream) \<Rightarrow> (JobId \<Rightarrow> 'v stream) \<Rightarrow> bool" for C where
  journal_open: "h j = [] \<Longrightarrow> validate_policy (cmd_retry_policy cmd) = Ok () \<Longrightarrow>
    from_events es = Ok (command_job cmd j) \<Longrightarrow> map env_event es = [command_event cmd] \<Longrightarrow>
    journal_step C h (h(j := es))"
| journal_command: "from_events (h j) = Ok job \<Longrightarrow> run_command C job cmd = Ok evs \<Longrightarrow>
    from_events (h j @ es) = Ok job' \<Longrightarrow> map env_event es = evs \<Longrightarrow>
    journal_step C h (h(j := h j @ es))"

text \<open>What the protocol sees of a stream, and the constants its retry policy stands for.\<close>

definition stream_grants :: "'v stream \<Rightarrow> nat" where
  "stream_grants xs = grants (map env_event xs)"

definition protocol_view :: "'v stream \<Rightarrow> tla_vars \<Rightarrow> bool" where
  "protocol_view xs m \<longleftrightarrow> (\<exists>job. from_events xs = Ok job \<and> seen_as job (stream_grants xs) m)"

definition protocol_for :: "tla_constants \<Rightarrow> 'v stream \<Rightarrow> bool" where
  "protocol_for c xs \<longleftrightarrow> (\<exists>job. from_events xs = Ok job \<and> constants_for c job)"

definition journal_ok :: "(JobId \<Rightarrow> 'v stream) \<Rightarrow> bool" where
  "journal_ok h \<longleftrightarrow> (\<forall>j. h j \<noteq> [] \<longrightarrow> (\<exists>job. from_events (h j) = Ok job \<and> granted_ok job (stream_grants (h j))))"

lemma grants_append: "grants (xs @ ys) = grants xs + grants ys"
  by (simp add: grants_def)

lemma opened_job:
  assumes "from_events es = Ok (command_job cmd j)" and "map env_event es = [command_event cmd]"
    and "validate_policy (cmd_retry_policy cmd) = Ok ()"
  shows "granted_ok (command_job cmd j) (stream_grants es)" "protocol_view es Init"
proof -
  have g: "stream_grants es = 0"
    using assms(2) by (simp add: stream_grants_def command_event_def initial_event_def)
  have "1 \<le> max_attempts (cmd_retry_policy cmd)" using assms(3) by (simp add: validate_policy_eq_Ok)
  then show "granted_ok (command_job cmd j) (stream_grants es)"
    by (simp add: g granted_ok_def granted_def attempt_inv_def command_job_def reserved_state_def word_le_nat_alt word_less_nat_alt)
  show "protocol_view es Init"
    using assms(1) by (simp add: protocol_view_def g seen_as_def command_job_def Init_def NoLease_def)
qed

lemma command_recorded:
  assumes "from_events xs = Ok job" and "run_command C job cmd = Ok evs" and "from_events (xs @ es) = Ok job'"
    and "map env_event es = evs" and "granted_ok job (stream_grants xs)" and "constants_for c job"
  shows "granted_ok job' (stream_grants (xs @ es))" "constants_for c job'"
    "protocol_view xs m \<Longrightarrow> \<exists>m'. (Next c)\<^sup>*\<^sup>* m m' \<and> protocol_view (xs @ es) m'"
proof -
  have app: "apply_all job evs = Ok job'"
    using assms(3,4) by (simp add: from_events_snoc_cases [OF assms(1)])
  have g: "stream_grants (xs @ es) = stream_grants xs + grants evs"
    using assms(4) by (simp add: stream_grants_def grants_append)
  have sim: "simulated c m job' (stream_grants (xs @ es)) \<and> granted_ok job' (stream_grants (xs @ es))"
    if "seen_as job (stream_grants xs) m" for m
    unfolding g by (rule command_simulated [OF assms(2) app assms(5) that assms(6)])
  let ?m = "Init\<lparr>tla_state := state_name (job_state job), tla_attempt := unat (job_attempt job), issued := stream_grants xs,
      activeLease := (if holding (state_name (job_state job)) then stream_grants xs else 0)\<rparr>"
  have "seen_as job (stream_grants xs) ?m" by (simp add: seen_as_def)
  from sim [OF this] show "granted_ok job' (stream_grants (xs @ es))" by simp
  show "constants_for c job'"
    using apply_all_frame [OF app] assms(6) by (simp add: constants_for_def)
  show "\<exists>m'. (Next c)\<^sup>*\<^sup>* m m' \<and> protocol_view (xs @ es) m'" if "protocol_view xs m"
    using sim that assms(1,3) by (auto simp: protocol_view_def simulated_def)
qed

text \<open>A step of the journal is, for every job on its own, no step or a run of the protocol.\<close>

lemma journal_step_protocol:
  assumes "journal_step C h h'" and "journal_ok h"
  shows "journal_ok h'"
    "h j = [] \<Longrightarrow> h' j \<noteq> [] \<Longrightarrow> protocol_view (h' j) Init"
    "h j \<noteq> [] \<Longrightarrow> protocol_for c (h j) \<Longrightarrow> h' j \<noteq> [] \<and> protocol_for c (h' j)
       \<and> (\<forall>m. protocol_view (h j) m \<longrightarrow> (\<exists>m'. (Next c)\<^sup>*\<^sup>* m m' \<and> protocol_view (h' j) m'))"
proof -
  have *: "journal_ok h' \<and> (h j = [] \<longrightarrow> h' j \<noteq> [] \<longrightarrow> protocol_view (h' j) Init)
     \<and> (h j \<noteq> [] \<longrightarrow> protocol_for c (h j) \<longrightarrow> h' j \<noteq> [] \<and> protocol_for c (h' j)
       \<and> (\<forall>m. protocol_view (h j) m \<longrightarrow> (\<exists>m'. (Next c)\<^sup>*\<^sup>* m m' \<and> protocol_view (h' j) m')))" for c
    using assms(1)
  proof cases
    case (journal_open k cmd es)
    with opened_job [OF journal_open(4,5,3)] assms(2) show ?thesis
      by (auto simp: journal_ok_def)
  next
    case (journal_command k job cmd evs es job')
    have ne: "h k \<noteq> []" using from_events_frame [OF journal_command(2)] by blast
    with assms(2) journal_command(2) have g: "granted_ok job (stream_grants (h k))" by (force simp: journal_ok_def)
    note rec = command_recorded [OF journal_command(2-5) g]
    have "constants_for \<lparr>MaxAttempts = unat (max_attempts (job_retry_policy job)),
        MaxLeases = unat (max_attempts (job_retry_policy job)), MaxHeartbeats = 0, LeaseTtl = 0\<rparr> job"
      by (simp add: constants_for_def)
    from rec(1) [OF this] have ok': "journal_ok h'"
      using assms(2) journal_command(1,4) by (auto simp: journal_ok_def)
    have "constants_for c job" if "protocol_for c (h k)"
      using that journal_command(2) by (simp add: protocol_for_def)
    from rec(2,3) [OF this] ok' ne journal_command(1,4) show ?thesis
      by (auto simp: protocol_for_def)
  qed
  show "journal_ok h'" using * by blast
  show "protocol_view (h' j) Init" if "h j = []" "h' j \<noteq> []" using * that by blast
  show "h' j \<noteq> [] \<and> protocol_for c (h' j)
       \<and> (\<forall>m. protocol_view (h j) m \<longrightarrow> (\<exists>m'. (Next c)\<^sup>*\<^sup>* m m' \<and> protocol_view (h' j) m'))"
    if "h j \<noteq> []" "protocol_for c (h j)" using * [of c] that by blast
qed

lemma journal_run_protocol:
  assumes "(journal_step C)\<^sup>*\<^sup>* h h'" and "journal_ok h" and "h j \<noteq> []" and "protocol_for c (h j)"
  shows "journal_ok h' \<and> h' j \<noteq> [] \<and> protocol_for c (h' j)
    \<and> (\<forall>m. protocol_view (h j) m \<longrightarrow> (\<exists>m'. (Next c)\<^sup>*\<^sup>* m m' \<and> protocol_view (h' j) m'))"
  using assms(1)
proof (induction rule: rtranclp_induct)
  case base
  then show ?case using assms(2-4) by blast
next
  case (step h1 h2)
  then have ok: "journal_ok h1" and j: "h1 j \<noteq> []" "protocol_for c (h1 j)" by blast+
  note s = journal_step_protocol(1) [OF step.hyps(2) ok] journal_step_protocol(3) [OF step.hyps(2) ok j]
  have "\<exists>m2. (Next c)\<^sup>*\<^sup>* m m2 \<and> protocol_view (h2 j) m2" if "protocol_view (h j) m" for m
    using step.IH s that by (meson rtranclp_trans)
  with s show ?case by blast
qed

lemma journal_run_ok: "(journal_step C)\<^sup>*\<^sup>* h h' \<Longrightarrow> journal_ok h \<Longrightarrow> journal_ok h'"
  by (induction rule: rtranclp_induct) (blast dest: journal_step_protocol(1))+

lemma journal_policy:
  assumes "journal_step C h h'" and "h j \<noteq> []"
  shows "protocol_for c (h' j) \<longleftrightarrow> protocol_for c (h j)"
  using assms(1)
proof cases
  case (journal_open k cmd es)
  with assms(2) show ?thesis by auto
next
  case (journal_command k job cmd evs es job')
  then have "apply_all job evs = Ok job'" by (simp add: from_events_snoc_cases [OF journal_command(2)])
  from apply_all_frame [OF this] journal_command show ?thesis by (simp add: protocol_for_def constants_for_def)
qed

text \<open>Started from nothing, every job is somewhere the protocol can be.\<close>

lemma journal_reach_protocol:
  assumes "(journal_step C)\<^sup>*\<^sup>* (\<lambda>_. []) h" and "h j \<noteq> []" and "protocol_for c (h j)"
  shows "\<exists>m. (Next c)\<^sup>*\<^sup>* Init m \<and> protocol_view (h j) m"
  using assms
proof (induction arbitrary: c rule: rtranclp_induct)
  case base
  then show ?case by simp
next
  case (step h1 h2)
  have ok: "journal_ok h1" by (rule journal_run_ok [OF step.hyps(1)]) (simp add: journal_ok_def)
  show ?case
  proof (cases "h1 j = []")
    case True
    with journal_step_protocol(2) [OF step.hyps(2) ok] step.prems(1) show ?thesis by blast
  next
    case False
    have "protocol_for c (h1 j)"
      using journal_policy [OF step.hyps(2) False] step.prems(2) by blast
    with step.IH False journal_step_protocol(3) [OF step.hyps(2) ok False] show ?thesis
      by (meson rtranclp_trans)
  qed
qed

section \<open>The use cases keep a journal\<close>

context event_store_contract
begin

lemma append_journal:
  assumes "inv s" and "es_append S j v es s = (r, s')" and "map env_event es = evs"
    and "\<And>es' job'. list_all2 kept_event evs (map env_event es') \<Longrightarrow> unat v = length (hist s j) \<Longrightarrow> list_all2 kept_as es es' \<Longrightarrow>
      from_events (hist s j @ es') = Ok job' \<Longrightarrow> job_id job' = j \<Longrightarrow>
      journal_step C (hist s) ((hist s)(j := hist s j @ es'))"
  shows "inv s' \<and> (journal_step C)\<^sup>*\<^sup>* (hist s) (hist s')"
proof (cases r)
  case (Ok u)
  with append_Ok [OF assms(1)] assms(2) obtain es' where es': "inv s'" "unat v = length (hist s j)"
      "list_all2 kept_as es es'" "hist s' = (hist s)(j := hist s j @ es')" by blast
  have ev: "list_all2 kept_event evs (map env_event es')"
    using kept_events [OF es'(3)] assms(3) by simp
  show ?thesis
  proof (cases "hist s' j = []")
    case True
    with es'(4) have "hist s' = hist s" by (auto simp: fun_eq_iff)
    with es'(1) show ?thesis by simp
  next
    case False
    with hist_folds [OF es'(1)] obtain job' where "from_events (hist s' j) = Ok job'" "job_id job' = j" by blast
    with assms(4) [OF ev es'(2,3)] es'(1,4) show ?thesis by auto
  qed
next
  case (Err x)
  with append_Err [OF assms(1)] assms(1,2) show ?thesis by blast
next
  case Panic
  with append_returns [OF assms(1), of j v es] assms(2) show ?thesis by simp
qed

lemma ack_append_journal:
  assumes "inv s" and "from_events (hist s j) = Ok job" and "run_command C job cmd = Ok evs"
    and "ack_append S rt job xs evs (s, e) = (r, s', e')"
  shows "inv s' \<and> (journal_step C)\<^sup>*\<^sup>* (hist s) (hist s')"
proof -
  have j: "job_id job = j" by (rule known_job_id [OF assms(1,2)])
  obtain corr caus trace where lin: "lineage_of xs = (corr, caus, trace)" by (metis surj_pair)
  obtain es e1 where es: "wrap_events rt j (job_version job) corr caus trace evs e = (es, e1)" by fastforce
  have "es_append S j (job_version job) es s = (r, s')"
    using assms(4) by (simp add: ack_append_def lin j es split: prod.splits)
  then show ?thesis
  proof (rule append_journal [OF assms(1) _ wrappedD(1) [OF wrap_events_wrapped [OF es]]])
    fix es' :: "'v stream" and job'
    assume kept: "list_all2 kept_event evs (map env_event es')"
      and f: "from_events (hist s j @ es') = Ok job'"
    from command_kept [OF assms(3) kept] obtain cmd' where "run_command C job cmd' = Ok (map env_event es')" by blast
    from journal_command [where h = "hist s" and j = j, OF assms(2) this f refl]
    show "journal_step C (hist s) ((hist s)(j := hist s j @ es'))" .
  qed
qed

lemma ack_loaded_journal:
  assumes "inv s" and "ack_loaded S j k (s, e) = (r, s', e')"
    and "\<And>job. from_events (hist s j) = Ok job \<Longrightarrow> k job (hist s j) (s, e) = (r, s', e') \<Longrightarrow>
      inv s' \<and> (journal_step C)\<^sup>*\<^sup>* (hist s) (hist s')"
  shows "inv s' \<and> (journal_step C)\<^sup>*\<^sup>* (hist s) (hist s')"
proof (cases "hist s j = []")
  case True
  with ack_loaded_unknown [OF assms(1) True, of k e] assms(1,2) show ?thesis by simp
next
  case False
  with hist_folds [OF assms(1)] obtain job where job: "from_events (hist s j) = Ok job" by blast
  with ack_loaded_known [OF assms(1) job, of k e] assms(2,3) show ?thesis by simp
qed

lemma ack_reply_journal:
  assumes "inv s" and "from_events (hist s j) = Ok job" and "run_command C job cmd = Ok evs"
    and "ack_reply a (ack_append S rt job xs evs (s, e)) = (r, s', e')"
  shows "inv s' \<and> (journal_step C)\<^sup>*\<^sup>* (hist s) (hist s')"
proof -
  obtain r1 s1 e1 where r1: "ack_append S rt job xs evs (s, e) = (r1, s1, e1)" by (metis surj_pair)
  with assms(4) have "s1 = s'" by (simp add: ack_reply_def)
  with ack_append_journal [OF assms(1-3) r1] show ?thesis by simp
qed

text \<open>Every ack and the cancellation, on every branch.\<close>

lemma ack_start_journal:
  assumes "inv s" and "ack_start S rt j worker (s, e) = (r, s', e')"
  shows "inv s' \<and> (journal_step C)\<^sup>*\<^sup>* (hist s) (hist s')"
proof (rule ack_loaded_journal [OF assms(1) assms(2) [unfolded ack_start_def]])
  fix job assume f: "from_events (hist s j) = Ok job" and run: "ack_start_loaded S rt job (hist s j) worker (s, e) = (r, s', e')"
  show "inv s' \<and> (journal_step C)\<^sup>*\<^sup>* (hist s) (hist s')"
  proof (cases "start job worker")
    case (Ok ev)
    then have "run_command C job (Cmd_Start worker) = Ok [ev]" by (simp add: single_def)
    from ack_reply_journal [OF assms(1) f this] run Ok show ?thesis by (simp add: ack_start_loaded_def)
  qed (use run assms(1) in \<open>auto simp: ack_start_loaded_def\<close>)
qed

lemma ack_succeed_journal:
  assumes "inv s" and "ack_succeed S rt j worker l res (s, e) = (r, s', e')"
  shows "inv s' \<and> (journal_step C)\<^sup>*\<^sup>* (hist s) (hist s')"
proof (rule ack_loaded_journal [OF assms(1) assms(2) [unfolded ack_succeed_def]])
  fix job assume f: "from_events (hist s j) = Ok job" and run: "ack_succeed_loaded S rt job (hist s j) worker l res (s, e) = (r, s', e')"
  show "inv s' \<and> (journal_step C)\<^sup>*\<^sup>* (hist s) (hist s')"
  proof (cases "succeed job l res")
    case (Ok ev)
    then have "run_command C job (Cmd_Succeed l res) = Ok [ev]" by (simp add: single_def)
    from ack_reply_journal [OF assms(1) f this] run Ok show ?thesis by (simp add: ack_succeed_loaded_def)
  next
    case (Err x)
    have "run_command C job (Cmd_LateAck worker l ReportedSucceeded) = Ok [late_ack worker l ReportedSucceeded]" by simp
    from ack_reply_journal [OF assms(1) f this] run Err show ?thesis by (simp add: ack_succeed_loaded_def record_conflict_def)
  qed (use run assms(1) in \<open>auto simp: ack_succeed_loaded_def\<close>)
qed

lemma ack_fail_journal:
  assumes "inv s" and "ack_fail C S rt j worker l err (s, e) = (r, s', e')"
  shows "inv s' \<and> (journal_step C)\<^sup>*\<^sup>* (hist s) (hist s')"
proof (rule ack_loaded_journal [OF assms(1) assms(2) [unfolded ack_fail_def]])
  fix job assume f: "from_events (hist s j) = Ok job" and run: "ack_fail_loaded C S rt job (hist s j) worker l err (s, e) = (r, s', e')"
  obtain now e1 seed e2 where t: "clock_now rt e = (now, e1)" "jitter_seed rt e1 = (seed, e2)" by fastforce
  show "inv s' \<and> (journal_step C)\<^sup>*\<^sup>* (hist s) (hist s')"
  proof (cases "fail C job l err now seed")
    case (Ok evs)
    then have "run_command C job (Cmd_Fail l err now seed) = Ok evs" by (simp add: single_def)
    from ack_reply_journal [OF assms(1) f this] run Ok t show ?thesis by (simp add: ack_fail_loaded_def)
  next
    case (Err x)
    have "run_command C job (Cmd_LateAck worker l ReportedFailed) = Ok [late_ack worker l ReportedFailed]" by simp
    from ack_reply_journal [OF assms(1) f this] run Err t show ?thesis by (simp add: ack_fail_loaded_def record_conflict_def)
  qed (use run assms(1) t in \<open>auto simp: ack_fail_loaded_def\<close>)
qed

lemma cancel_journal:
  assumes "inv s" and "cancel_execute S rt j reason (s, e) = (r, s', e')"
  shows "inv s' \<and> (journal_step C)\<^sup>*\<^sup>* (hist s) (hist s')"
proof (rule ack_loaded_journal [OF assms(1) assms(2) [unfolded cancel_execute_def]])
  fix job assume f: "from_events (hist s j) = Ok job" and run: "cancel_loaded S rt job (hist s j) reason (s, e) = (r, s', e')"
  show "inv s' \<and> (journal_step C)\<^sup>*\<^sup>* (hist s) (hist s')"
  proof (cases "cancel job reason")
    case (Ok ev)
    then have "run_command C job (Cmd_Cancel reason) = Ok [ev]" by (simp add: single_def)
    from ack_reply_journal [OF assms(1) f this] run Ok show ?thesis by (simp add: cancel_loaded_eq)
  qed (use run assms(1) in \<open>auto simp: cancel_loaded_eq\<close>)
qed

lemma enqueue_journal:
  assumes "inv s" and "enqueue_execute S rt cmd (s, e) = (r, s', e')"
  shows "inv s' \<and> (journal_step C)\<^sup>*\<^sup>* (hist s) (hist s')"
proof (cases "validate_policy (cmd_retry_policy cmd)")
  case (Ok u)
  obtain jid e1 where id: "new_job_id rt e = (jid, e1)" by fastforce
  obtain corr e2 where corr: "(case lin_correlation_id (cmd_lineage cmd) of Some c \<Rightarrow> (c, e1) | None \<Rightarrow> new_correlation_id rt e1) = (corr, e2)"
    by fastforce
  obtain es e3 where es: "wrap_events rt jid 0 corr (lin_causation_id (cmd_lineage cmd))
      (lin_traceparent (cmd_lineage cmd)) [command_event cmd] e2 = (es, e3)" by fastforce
  note w = wrap_events_wrapped [OF es]
  obtain r1 s1 where r1: "es_append S jid 0 es s = (r1, s1)" by fastforce
  have run: "s' = s1"
    using assms(2) es corr r1 by (simp add: enqueue_execute_def Ok id command_event_def [symmetric])
  have "inv s1 \<and> (journal_step C)\<^sup>*\<^sup>* (hist s) (hist s1)"
  proof (rule append_journal [OF assms(1) r1 wrappedD(1) [OF w]])
    fix es' :: "'v stream" and job'
    assume kept: "list_all2 kept_event [command_event cmd] (map env_event es')"
      and es': "unat (0 :: u64) = length (hist s jid)" "list_all2 kept_as es es'"
    have f: "from_events es' = Ok (command_job cmd jid)"
      using command_event_opens [OF w] from_events_kept [OF es'(2)]
        exact_event_keeps_payload [OF command_event_exact [of cmd]] by auto
    have ev: "map env_event es' = [command_event cmd]"
      using kept kept_event_exact [OF command_event_exact [of cmd]] by (auto simp: list_all2_Cons1)
    have "hist s jid = []" using es'(1) by simp
    with journal_open [OF _ _ f ev, of "hist s"] Ok show "journal_step C (hist s) ((hist s)(jid := hist s jid @ es'))"
      by simp
  qed
  then show ?thesis by (simp add: run)
next
  case (Err x)
  with assms(1,2) enqueue_invalid [OF Err, of rt s e] show ?thesis by simp
qed simp

end

end
