(* ===== verification/Postgres_Store.thy ===== *)
theory Postgres_Store
  imports Koine_Use_Cases
begin

text \<open>
  The Postgres event store: \<open>koine-store-postgres/src/store.rs\<close>, \<open>rows.rs\<close> and the schema of
  \<open>migrations/0001_event_store.sql\<close>.  A table is a list of rows, \<open>events\<close> in the order of
  \<open>global_seq\<close>; the values drawn from the sequences of \<open>dispatch_queue\<close> and \<open>outbox\<close> are only
  compared, so the gaps a rolled back transaction leaves are not represented.  The body of a
  transaction returns the new database or an error; \<open>commit\<close> keeps the old database on an
  error.  JSON encoding, \<open>jsonb\<close> and \<open>timestamptz\<close> columns belong to the libraries and the
  server: they are the parameters of the record \<open>pg\<close>.  Loss of the connection is not modelled.
\<close>

section \<open>Encodings and columns\<close>

text \<open>
  \<open>jsonb\<close> and \<open>timestamptz\<close> give the value that is read back from a column of that type,
  \<open>None\<close> when the server refuses the value; \<open>null_value\<close> is the JSON null.  JSON values are taken
  up to the way their numbers are written.
\<close>

record ('v, 'j) pg =
  event_to_value :: "'v JobEvent \<Rightarrow> 'j option"
  event_from_value :: "'j \<Rightarrow> 'v JobEvent option"
  envelope_to_value :: "'v EventEnvelope \<Rightarrow> 'j option"
  envelope_from_value :: "'j \<Rightarrow> 'v EventEnvelope option"
  jsonb :: "'j \<Rightarrow> 'j option"
  timestamptz :: "date_time \<Rightarrow> date_time option"
  null_value :: 'v

text \<open>
  The encoding writes an absent optional value as null, so a value that is null itself comes
  back as an absent one.
\<close>

definition non_null :: "('v, 'j) pg \<Rightarrow> 'v option \<Rightarrow> 'v option" where
  "non_null K v = (if v = Some (null_value K) then None else v)"

definition stored_event :: "('v, 'j) pg \<Rightarrow> 'v JobEvent \<Rightarrow> 'v JobEvent" where
  "stored_event K ev =
     (case ev of E_Succeeded res \<Rightarrow> E_Succeeded (non_null K res)
      | E_Repaired new_payload note' \<Rightarrow> E_Repaired (non_null K new_payload) note'
      | _ \<Rightarrow> ev)"

definition stored_envelope :: "('v, 'j) pg \<Rightarrow> 'v EventEnvelope \<Rightarrow> 'v EventEnvelope" where
  "stored_envelope K env = env\<lparr>env_event := stored_event K (env_event env)\<rparr>"

text \<open>
  Documented behaviour: what was encoded and stored decodes to what it was, null values apart; a
  timestamp is kept in order and with a precision of one microsecond, and a stored one is kept as
  it is.
\<close>

definition pg_ok :: "('v, 'j) pg \<Rightarrow> bool" where
  "pg_ok K \<longleftrightarrow>
     (\<forall>ev x y. event_to_value K ev = Some x \<and> jsonb K x = Some y \<longrightarrow>
        event_from_value K y = Some (stored_event K ev)) \<and>
     (\<forall>env x y. envelope_to_value K env = Some x \<and> jsonb K x = Some y \<longrightarrow>
        envelope_from_value K y = Some (stored_envelope K env)) \<and>
     (\<forall>t t'. timestamptz K t = Some t' \<longrightarrow> \<bar>t - t'\<bar> < 1000 \<and> timestamptz K t' = Some t') \<and>
     (\<forall>t u t' u'. timestamptz K t = Some t' \<and> timestamptz K u = Some u' \<and> t \<le> u \<longrightarrow> t' \<le> u')"

lemma stored_event_kept: "kept_event ev (stored_event K ev)"
  by (auto simp: kept_event_def stored_event_def non_null_def split: JobEvent.split)

lemma stored_event_exact: "exact_event ev \<Longrightarrow> stored_event K ev = ev"
  using stored_event_kept [of ev K] by (simp add: kept_event_exact)

lemma stored_envelope_exact: "exact_event (env_event e) \<Longrightarrow> stored_envelope K e = e"
  by (simp add: stored_envelope_def stored_event_exact)

lemma stored_envelope_simps [simp]:
  "env_event_id (stored_envelope K e) = env_event_id e" "env_stream_id (stored_envelope K e) = env_stream_id e"
  "env_version (stored_envelope K e) = env_version e" "kind (env_event (stored_envelope K e)) = kind (env_event e)"
  by (simp_all add: stored_envelope_def kept_event_kind [OF stored_event_kept])

text \<open>A \<open>TEXT\<close> column holds every string without the character NUL.\<close>

definition pg_text :: "rstring \<Rightarrow> bool" where
  "pg_text s \<longleftrightarrow> 0 \<notin> set s"

definition pg_timestamp :: "('v, 'j) pg \<Rightarrow> date_time option \<Rightarrow> date_time option option" where
  "pg_timestamp K t = (case t of None \<Rightarrow> Some None | Some t \<Rightarrow> map_option Some (timestamptz K t))"

definition i64_try_from :: "u64 \<Rightarrow> int option" where
  "i64_try_from v = (if uint v < 2 ^ 63 then Some (uint v) else None)"

definition i16_try_from :: "u16 \<Rightarrow> int option" where
  "i16_try_from v = (if uint v < 2 ^ 15 then Some (uint v) else None)"

definition u64_try_from_i64 :: "int \<Rightarrow> u64 option" where
  "u64_try_from_i64 n = (if 0 \<le> n then Some (word_of_int n) else None)"

definition u16_try_from_i16 :: "int \<Rightarrow> u16 option" where
  "u16_try_from_i16 n = (if 0 \<le> n then Some (word_of_int n) else None)"

section \<open>Tables\<close>

record 'j event_row =
  er_stream_id :: JobId
  er_version :: int
  er_event_id :: EventId
  er_event_type :: string
  er_schema_version :: int
  er_payload :: 'j
  er_correlation_id :: CorrelationId
  er_causation_id :: "EventId option"
  er_traceparent :: "rstring option"
  er_recorded_at :: date_time

record dispatch_row =
  dr_queue :: rstring
  dr_priority :: Priority
  dr_seq :: nat
  dr_not_before :: "date_time option"
  dr_lease_id :: "LeaseId option"
  dr_worker_id :: "rstring option"
  dr_lease_expires_at :: "date_time option"

record 'j outbox_row =
  ob_seq :: nat
  ob_event_id :: EventId
  ob_stream_id :: JobId
  ob_envelope :: 'j

record 'j pg_db =
  db_events :: "'j event_row list"
  db_dispatch_queue :: "(JobId \<times> dispatch_row) list"
  db_dispatch_seq :: nat
  db_outbox :: "'j outbox_row list"
  db_outbox_seq :: nat
  db_notified :: "rstring list"

definition pg_empty :: "'j pg_db" where
  "pg_empty = \<lparr>db_events = [], db_dispatch_queue = [], db_dispatch_seq = 0, db_outbox = [],
               db_outbox_seq = 0, db_notified = []\<rparr>"

section \<open>Errors and transactions\<close>

text \<open>A database error carries its code and the violated constraint.\<close>

datatype SqlxError = Database string "string option"

definition is_version_conflict :: "SqlxError \<Rightarrow> bool" where
  "is_version_conflict e \<longleftrightarrow>
     (case e of Database code constraint \<Rightarrow>
        code = ''23505'' \<and> constraint = Some ''events_stream_version_unique'')"

definition db :: "SqlxError \<Rightarrow> EventStoreError" where
  "db e = StoreBackend (Msg ''db'')"

definition sql_refused :: SqlxError where
  "sql_refused = Database ''22000'' None"

text \<open>
  Dropping a transaction that was not committed rolls it back.  The database does not give back
  the numbers that the transaction drew from a sequence; here they are given back, which closes
  the gaps and keeps the order of the numbers, and only their order is ever read.
\<close>

definition commit :: "'d \<Rightarrow> ('a \<times> 'd, 'e) outcome \<Rightarrow> ('a, 'e) outcome \<times> 'd" where
  "commit d r = (case r of Ok (a, d') \<Rightarrow> (Ok a, d') | Err e \<Rightarrow> (Err e, d) | Panic \<Rightarrow> (Panic, d))"

section \<open>Statements\<close>

definition stream_rows :: "'j pg_db \<Rightarrow> JobId \<Rightarrow> 'j event_row list" where
  "stream_rows d stream = filter (\<lambda>r. er_stream_id r = stream) (db_events d)"

definition insert_event :: "('v, 'j) pg \<Rightarrow> 'j event_row \<Rightarrow> 'j pg_db \<Rightarrow> ('j pg_db, SqlxError) outcome" where
  "insert_event K row d =
     (case (jsonb K (er_payload row), timestamptz K (er_recorded_at row)) of
        (Some payload, Some recorded_at) \<Rightarrow>
          if \<not> is_none_or pg_text (er_traceparent row) then Err sql_refused
          else if list_ex (\<lambda>r. er_event_id r = er_event_id row) (db_events d)
          then Err (Database ''23505'' (Some ''events_event_id_key''))
          else if list_ex (\<lambda>r. er_version r = er_version row) (stream_rows d (er_stream_id row))
          then Err (Database ''23505'' (Some ''events_stream_version_unique''))
          else Ok (d\<lparr>db_events := db_events d @ [row\<lparr>er_payload := payload, er_recorded_at := recorded_at\<rparr>]\<rparr>)
      | _ \<Rightarrow> Err sql_refused)"

definition insert_outbox ::
  "('v, 'j) pg \<Rightarrow> EventId \<Rightarrow> JobId \<Rightarrow> 'j \<Rightarrow> 'j pg_db \<Rightarrow> ('j pg_db, SqlxError) outcome" where
  "insert_outbox K event_id stream envelope d =
     (case jsonb K envelope of
        None \<Rightarrow> Err sql_refused
      | Some envelope \<Rightarrow>
          Ok (d\<lparr>db_outbox := db_outbox d @ [\<lparr>ob_seq = db_outbox_seq d + 1, ob_event_id = event_id,
                                            ob_stream_id = stream, ob_envelope = envelope\<rparr>],
               db_outbox_seq := db_outbox_seq d + 1\<rparr>))"

text \<open>
  \<open>INSERT ... ON CONFLICT (job_id) DO UPDATE\<close>: the default of \<open>seq\<close> is drawn for the proposed
  row in either case; an update keeps the \<open>seq\<close> of the row that is there.
\<close>

definition upsert_dispatch ::
  "('v, 'j) pg \<Rightarrow> JobId \<Rightarrow> dispatch_row \<Rightarrow> 'j pg_db \<Rightarrow> ('j pg_db, SqlxError) outcome" where
  "upsert_dispatch K jid row d =
     (case (pg_timestamp K (dr_not_before row), pg_timestamp K (dr_lease_expires_at row)) of
        (Some not_before, Some expires_at) \<Rightarrow>
          if \<not> (pg_text (dr_queue row) \<and> is_none_or pg_text (dr_worker_id row)) then Err sql_refused
          else let seq = (case map_of (db_dispatch_queue d) jid of
                            None \<Rightarrow> db_dispatch_seq d + 1
                          | Some old \<Rightarrow> dr_seq old)
               in Ok (d\<lparr>db_dispatch_queue :=
                          AList.update jid (row\<lparr>dr_seq := seq, dr_not_before := not_before,
                                               dr_lease_expires_at := expires_at\<rparr>) (db_dispatch_queue d),
                        db_dispatch_seq := db_dispatch_seq d + 1\<rparr>)
      | _ \<Rightarrow> Err sql_refused)"

section \<open>The store\<close>

definition envelope_from_row :: "('v, 'j) pg \<Rightarrow> 'j event_row \<Rightarrow> ('v EventEnvelope, EventStoreError) outcome" where
  "envelope_from_row K row =
     and_then (ok_or (StoreBackend (Msg ''payload decode'')) (event_from_value K (er_payload row))) (\<lambda>event.
     and_then (ok_or (StoreBackend (Msg ''negative version'')) (u64_try_from_i64 (er_version row))) (\<lambda>version.
     and_then (ok_or (StoreBackend (Msg ''negative schema_version'')) (u16_try_from_i16 (er_schema_version row))) (\<lambda>schema_version.
       Ok \<lparr>env_event_id = er_event_id row, env_stream_id = er_stream_id row, env_version = version,
           env_recorded_at = er_recorded_at row, env_correlation_id = er_correlation_id row,
           env_causation_id = er_causation_id row, env_traceparent = er_traceparent row,
           env_schema_version = schema_version, env_event = event\<rparr>)))"

primrec collect :: "('a, 'e) outcome list \<Rightarrow> ('a list, 'e) outcome" where
  "collect [] = Ok []"
| "collect (r # rs) = and_then r (\<lambda>a. and_then (collect rs) (\<lambda>as. Ok (a # as)))"

definition load_in_tx :: "('v, 'j) pg \<Rightarrow> JobId \<Rightarrow> 'j pg_db \<Rightarrow> ('v stream, EventStoreError) outcome" where
  "load_in_tx K stream d =
     collect (map (envelope_from_row K) (sort_key er_version (stream_rows d stream)))"

definition project_in_tx :: "('v, 'j) pg \<Rightarrow> 'v Job \<Rightarrow> 'j pg_db \<Rightarrow> ('j pg_db, EventStoreError) outcome" where
  "project_in_tx K job d =
     (let base = \<lparr>dr_queue = queue_str (job_queue job), dr_priority = job_priority job, dr_seq = 0,
                  dr_not_before = None, dr_lease_id = None, dr_worker_id = None,
                  dr_lease_expires_at = None\<rparr>;
          leased = (\<lambda>worker lease_id expires_at.
            map_err db (upsert_dispatch K (job_id job)
              (base\<lparr>dr_lease_id := Some lease_id, dr_worker_id := Some (worker_str worker),
                    dr_lease_expires_at := Some expires_at\<rparr>) d))
      in case job_state job of
           S_Pending not_before \<Rightarrow>
             and_then (map_err db (upsert_dispatch K (job_id job) (base\<lparr>dr_not_before := not_before\<rparr>) d)) (\<lambda>d.
               Ok (d\<lparr>db_notified := db_notified d @ [queue_str (job_queue job)]\<rparr>))
         | S_Leased worker lease_id expires_at \<Rightarrow> leased worker lease_id expires_at
         | S_Running worker lease_id expires_at \<Rightarrow> leased worker lease_id expires_at
         | _ \<Rightarrow> Ok (d\<lparr>db_dispatch_queue := AList.delete (job_id job) (db_dispatch_queue d)\<rparr>))"

text \<open>\<open>SELECT max(version)\<close> and the conversion of its result.\<close>

definition stream_version :: "JobId \<Rightarrow> 'j pg_db \<Rightarrow> (u64, EventStoreError) outcome" where
  "stream_version stream d =
     (let current = (case map er_version (stream_rows d stream) of [] \<Rightarrow> 0 | v # vs \<Rightarrow> foldl max v vs)
      in ok_or (StoreBackend (Msg ''negative stream version'')) (u64_try_from_i64 current))"

primrec well_formed_batch :: "JobId \<Rightarrow> u64 \<Rightarrow> 'v stream \<Rightarrow> bool" where
  "well_formed_batch stream next [] = True"
| "well_formed_batch stream next (envelope # envelopes) =
     (let next = next + 1
      in if env_version envelope \<noteq> next \<or> env_stream_id envelope \<noteq> stream then False
         else well_formed_batch stream next envelopes)"

definition bound_row :: "JobId \<Rightarrow> 'v EventEnvelope \<Rightarrow> int \<Rightarrow> int \<Rightarrow> 'j \<Rightarrow> 'j event_row" where
  "bound_row stream envelope version schema_version payload =
     \<lparr>er_stream_id = stream, er_version = version, er_event_id = env_event_id envelope,
      er_event_type = kind (env_event envelope), er_schema_version = schema_version,
      er_payload = payload, er_correlation_id = env_correlation_id envelope,
      er_causation_id = env_causation_id envelope, er_traceparent = env_traceparent envelope,
      er_recorded_at = env_recorded_at envelope\<rparr>"

definition insert_envelope ::
  "('v, 'j) pg \<Rightarrow> JobId \<Rightarrow> u64 \<Rightarrow> 'v EventEnvelope \<Rightarrow> 'j pg_db \<Rightarrow> ('j pg_db, EventStoreError) outcome" where
  "insert_envelope K stream expected_version envelope d =
     and_then (ok_or (StoreBackend (Msg ''payload encode'')) (event_to_value K (env_event envelope))) (\<lambda>payload.
     and_then (ok_or (StoreBackend (Msg ''version exceeds i64'')) (i64_try_from (env_version envelope))) (\<lambda>version.
     and_then (ok_or (StoreBackend (Msg ''schema_version exceeds i16'')) (i16_try_from (env_schema_version envelope)))
       (\<lambda>schema_version.
     and_then (map_err (\<lambda>e. if is_version_conflict e then VersionConflict stream expected_version else db e)
         (insert_event K (bound_row stream envelope version schema_version payload) d)) (\<lambda>d.
     and_then (ok_or (StoreBackend (Msg ''envelope encode'')) (envelope_to_value K envelope)) (\<lambda>envelope_json.
       map_err db (insert_outbox K (env_event_id envelope) stream envelope_json d))))))"

primrec insert_all ::
  "('v, 'j) pg \<Rightarrow> JobId \<Rightarrow> u64 \<Rightarrow> 'v stream \<Rightarrow> 'j pg_db \<Rightarrow> ('j pg_db, EventStoreError) outcome" where
  "insert_all K stream expected_version [] d = Ok d"
| "insert_all K stream expected_version (envelope # envelopes) d =
     and_then (insert_envelope K stream expected_version envelope d)
       (\<lambda>d. insert_all K stream expected_version envelopes d)"

text \<open>The append once the version of the stream has been read.\<close>

definition append_checked ::
  "('v, 'j) pg \<Rightarrow> JobId \<Rightarrow> u64 \<Rightarrow> 'v stream \<Rightarrow> u64 \<Rightarrow> 'j pg_db \<Rightarrow> ('v Job \<times> 'j pg_db, EventStoreError) outcome"
where
  "append_checked K stream expected_version envelopes current d =
     (if current \<noteq> expected_version then Err (VersionConflict stream expected_version)
      else if \<not> well_formed_batch stream current envelopes
      then Err (StoreBackend (Msg_id ''malformed envelope batch for'' stream))
      else and_then (insert_all K stream expected_version envelopes d) (\<lambda>d.
           and_then (load_in_tx K stream d) (\<lambda>stream_envelopes.
           and_then (map_err (\<lambda>e. StoreBackend (Msg_error ''stream does not fold'' e)) (from_events stream_envelopes)) (\<lambda>job.
           and_then (project_in_tx K job d) (\<lambda>d. Ok (job, d))))))"

definition append_in_tx ::
  "('v, 'j) pg \<Rightarrow> JobId \<Rightarrow> u64 \<Rightarrow> 'v stream \<Rightarrow> 'j pg_db \<Rightarrow> ('v Job \<times> 'j pg_db, EventStoreError) outcome"
where
  "append_in_tx K stream expected_version envelopes d =
     and_then (stream_version stream d) (\<lambda>current.
       append_checked K stream expected_version envelopes current d)"

definition pg_append ::
  "('v, 'j) pg \<Rightarrow> JobId \<Rightarrow> u64 \<Rightarrow> 'v stream \<Rightarrow> 'j pg_db \<Rightarrow> (unit, EventStoreError) outcome \<times> 'j pg_db" where
  "pg_append K stream expected_version envelopes d =
     commit d (and_then (append_in_tx K stream expected_version envelopes d) (\<lambda>(job, d). Ok ((), d)))"

definition pg_load :: "('v, 'j) pg \<Rightarrow> JobId \<Rightarrow> 'j pg_db \<Rightarrow> ('v stream, EventStoreError) outcome" where
  "pg_load K stream d =
     (let rows = sort_key er_version (stream_rows d stream)
      in if rows = [] then Err (StreamNotFound stream) else collect (map (envelope_from_row K) rows))"

definition pg_store :: "('v, 'j) pg \<Rightarrow> ('j pg_db, 'v) event_store" where
  "pg_store K = \<lparr>es_append = pg_append K, es_load = pg_load K\<rparr>"

section \<open>Rebuilding the projection\<close>

text \<open>\<open>SELECT stream_id ... GROUP BY stream_id ORDER BY min(global_seq)\<close>.\<close>

definition streams_by_first_event :: "'j pg_db \<Rightarrow> JobId list" where
  "streams_by_first_event d = rev (remdups (rev (map er_stream_id (db_events d))))"

definition dispatchable :: "JobState \<Rightarrow> bool" where
  "dispatchable state \<longleftrightarrow>
     (case state of S_Pending _ \<Rightarrow> True | S_Leased _ _ _ \<Rightarrow> True | S_Running _ _ _ \<Rightarrow> True | _ \<Rightarrow> False)"

primrec rebuild_loop ::
  "('v, 'j) pg \<Rightarrow> JobId list \<Rightarrow> u32 \<Rightarrow> 'j pg_db \<Rightarrow> (u32 \<times> 'j pg_db, EventStoreError) outcome" where
  "rebuild_loop K [] projected d = Ok (projected, d)"
| "rebuild_loop K (stream # streams) projected d =
     and_then (load_in_tx K stream d) (\<lambda>envelopes.
     and_then (map_err (\<lambda>e. StoreBackend (Msg_id_error ''stream'' stream e)) (from_events envelopes)) (\<lambda>job.
     and_then (project_in_tx K job d) (\<lambda>d.
       rebuild_loop K streams (if dispatchable (job_state job) then projected + 1 else projected) d)))"

definition rebuild_dispatch ::
  "('v, 'j) pg \<Rightarrow> 'j pg_db \<Rightarrow> (u32, EventStoreError) outcome \<times> 'j pg_db" where
  "rebuild_dispatch K d = commit d (rebuild_loop K (streams_by_first_event d) 0 d)"

section \<open>Rows and streams\<close>

lemma collect_map_Ok: "collect (map f xs) = Ok ys \<longleftrightarrow> list_all2 (\<lambda>x y. f x = Ok y) xs ys"
  by (induction xs arbitrary: ys) (auto simp: outcome_simps list_all2_Cons1)

lemma collect_map_total: "\<forall>x \<in> set xs. is_ok (f x) \<Longrightarrow> \<exists>ys. collect (map f xs) = Ok ys"
  by (induction xs) (auto simp: is_ok_iff outcome_simps)

text \<open>The rows of a stream are numbered from one without gaps and decode.\<close>

definition rows_ok :: "('v, 'j) pg \<Rightarrow> 'j event_row list \<Rightarrow> bool" where
  "rows_ok K rows \<longleftrightarrow>
     map er_version rows = map int [1..<Suc (length rows)] \<and> length rows < 2 ^ 63
     \<and> (\<forall>r \<in> set rows. is_ok (envelope_from_row K r))"

definition pg_hist :: "('v, 'j) pg \<Rightarrow> 'j pg_db \<Rightarrow> JobId \<Rightarrow> 'v stream" where
  "pg_hist K d j = (case load_in_tx K j d of Ok xs \<Rightarrow> xs | _ \<Rightarrow> [])"

lemma sorted_numbers: "sorted (map int [a..<b])"
  by (simp add: sorted_iff_nth_mono)

lemma rows_ok_sorted: "rows_ok K rows \<Longrightarrow> sort_key er_version rows = rows"
  using sorted_numbers by (auto simp: rows_ok_def intro!: sort_key_id_if_sorted simp del: upt_Suc)

lemma load_rows_ok:
  assumes "rows_ok K (stream_rows d j)"
  shows "load_in_tx K j d = Ok (pg_hist K d j)"
    "list_all2 (\<lambda>r e. envelope_from_row K r = Ok e) (stream_rows d j) (pg_hist K d j)"
proof -
  obtain xs where xs: "load_in_tx K j d = Ok xs"
    using assms collect_map_total [of "stream_rows d j" "envelope_from_row K"]
    by (auto simp: load_in_tx_def rows_ok_sorted rows_ok_def)
  then have h: "pg_hist K d j = xs" by (simp add: pg_hist_def)
  show "load_in_tx K j d = Ok (pg_hist K d j)" using xs h by simp
  show "list_all2 (\<lambda>r e. envelope_from_row K r = Ok e) (stream_rows d j) (pg_hist K d j)"
    using xs by (simp add: h load_in_tx_def rows_ok_sorted [OF assms] collect_map_Ok)
qed

lemma length_pg_hist: "rows_ok K (stream_rows d j) \<Longrightarrow> length (pg_hist K d j) = length (stream_rows d j)"
  using list_all2_lengthD [OF load_rows_ok(2)] by metis

lemma pg_hist_extend:
  assumes "rows_ok K (stream_rows d j)" and "rows_ok K (stream_rows d' j)"
    and "stream_rows d' j = stream_rows d j @ rs" and "list_all2 (\<lambda>r e. envelope_from_row K r = Ok e) rs es"
  shows "pg_hist K d' j = pg_hist K d j @ es"
proof -
  have "list_all2 (\<lambda>r e. envelope_from_row K r = Ok e) (stream_rows d' j) (pg_hist K d j @ es)"
    unfolding assms(3) by (rule list_all2_appendI [OF load_rows_ok(2) [OF assms(1)] assms(4)])
  with load_rows_ok(2) [OF assms(2)] have "list_all2 (=) (pg_hist K d' j) (pg_hist K d j @ es)"
    by (auto simp: list_all2_conv_all_nth)
  then show ?thesis by (simp add: list.rel_eq)
qed

lemma foldl_max_sorted: "sorted (v # vs) \<Longrightarrow> foldl max v vs = last (v # vs)"
  for v :: "'a::linorder"
  by (induction vs arbitrary: v) (auto simp: max_def)

lemma stream_version_ok:
  assumes "rows_ok K (stream_rows d j)"
  shows "stream_version j d = Ok (of_nat (length (stream_rows d j)))"
proof -
  let ?vs = "map er_version (stream_rows d j)"
  have vs: "?vs = map int [1..<Suc (length (stream_rows d j))]"
    using assms by (simp only: rows_ok_def)
  have "(case ?vs of [] \<Rightarrow> 0 | v # vs \<Rightarrow> foldl max v vs) = int (length (stream_rows d j))"
  proof (cases ?vs)
    case (Cons v ws)
    then have "sorted (v # ws)" using vs sorted_numbers by metis
    moreover have "last ?vs = int (length (stream_rows d j))"
      using Cons by (subst vs) (auto simp: last_map)
    ultimately show ?thesis
      using Cons by (simp add: foldl_max_sorted)
  qed simp
  then show ?thesis
    unfolding stream_version_def Let_def by (simp add: u64_try_from_i64_def)
qed

section \<open>What the inserts do\<close>

definition stored_row :: "('v, 'j) pg \<Rightarrow> JobId \<Rightarrow> 'v EventEnvelope \<Rightarrow> 'j event_row \<Rightarrow> bool" where
  "stored_row K j e r \<longleftrightarrow>
     er_stream_id r = j \<and> er_event_id r = env_event_id e
     \<and> er_version r = uint (env_version e) \<and> er_version r < 2 ^ 63
     \<and> (\<exists>e'. envelope_from_row K r = Ok e' \<and> kept_as e e')"

definition queued :: "('v, 'j) pg \<Rightarrow> 'v EventEnvelope \<Rightarrow> 'j outbox_row \<Rightarrow> bool" where
  "queued K e y \<longleftrightarrow> ob_event_id y = env_event_id e \<and> ob_stream_id y = env_stream_id e
     \<and> envelope_from_value K (ob_envelope y) = Some (stored_envelope K e)"

text \<open>The tables after the inserts of a batch; only events and outbox grow.\<close>

definition grown_by ::
  "('v, 'j) pg \<Rightarrow> JobId \<Rightarrow> 'v stream \<Rightarrow> 'j event_row list \<Rightarrow> 'j outbox_row list \<Rightarrow> 'j pg_db \<Rightarrow> 'j pg_db \<Rightarrow> bool" where
  "grown_by K j es rs ys d d' \<longleftrightarrow>
     d' = d\<lparr>db_events := db_events d @ rs, db_outbox := db_outbox d @ ys,
            db_outbox_seq := db_outbox_seq d + length ys\<rparr>
     \<and> list_all2 (stored_row K j) es rs \<and> list_all2 (queued K) es ys
     \<and> map ob_seq ys = [Suc (db_outbox_seq d)..<Suc (db_outbox_seq d) + length ys]"

lemma stored_row_I:
  assumes "pg_ok K" and "event_to_value K (env_event e) = Some x" and "jsonb K x = Some y"
    and "env_stream_id e = j" and "i64_try_from (env_version e) = Some n"
    and "i16_try_from (env_schema_version e) = Some s"
  shows "stored_row K j e ((bound_row j e n s x)\<lparr>er_payload := y, er_recorded_at := t\<rparr>)"
proof -
  have "event_from_value K y = Some (stored_event K (env_event e))"
    using assms(1-3) by (auto simp: pg_ok_def)
  moreover have "n = uint (env_version e)" "uint (env_version e) < 2 ^ 63" "s = uint (env_schema_version e)"
    using assms(5,6) by (auto simp: i64_try_from_def i16_try_from_def split: if_splits)
  ultimately show ?thesis
    using assms(4)
    by (simp add: stored_row_def bound_row_def envelope_from_row_def u64_try_from_i64_def u16_try_from_i16_def kept_as_def
        stored_event_kept)
qed

lemma insert_event_Ok:
  assumes "insert_event K row d = Ok d'"
  obtains y t where "jsonb K (er_payload row) = Some y" "timestamptz K (er_recorded_at row) = Some t"
    "d' = d\<lparr>db_events := db_events d @ [row\<lparr>er_payload := y, er_recorded_at := t\<rparr>]\<rparr>"
    "\<forall>r \<in> set (db_events d). er_event_id r \<noteq> er_event_id row"
  using assms by (auto simp: insert_event_def list_ex_iff split: option.splits if_splits)

lemma insert_outbox_Ok:
  assumes "insert_outbox K i j z d = Ok d'"
  obtains q where "jsonb K z = Some q"
    "d' = d\<lparr>db_outbox := db_outbox d @ [\<lparr>ob_seq = Suc (db_outbox_seq d), ob_event_id = i, ob_stream_id = j, ob_envelope = q\<rparr>],
           db_outbox_seq := Suc (db_outbox_seq d)\<rparr>"
  using assms by (auto simp: insert_outbox_def split: option.splits)

lemma insert_envelope_Ok:
  assumes "insert_envelope K j v e d = Ok d'" and "pg_ok K" and "env_stream_id e = j"
  shows "\<exists>r y. grown_by K j [e] [r] [y] d d'"
proof -
  from assms(1) obtain x n s d1 z where x: "event_to_value K (env_event e) = Some x"
      and ns: "i64_try_from (env_version e) = Some n" "i16_try_from (env_schema_version e) = Some s"
      and ins: "insert_event K (bound_row j e n s x) d = Ok d1"
      and z: "envelope_to_value K e = Some z" "insert_outbox K (env_event_id e) j z d1 = Ok d'"
    unfolding insert_envelope_def outcome_simps by blast
  obtain y t where y: "jsonb K x = Some y"
      and d1: "d1 = d\<lparr>db_events := db_events d @ [(bound_row j e n s x)\<lparr>er_payload := y, er_recorded_at := t\<rparr>]\<rparr>"
    by (rule insert_event_Ok [OF ins]) (simp add: bound_row_def)
  obtain q where q: "jsonb K z = Some q" and d': "d' = d1\<lparr>db_outbox := db_outbox d1 @
      [\<lparr>ob_seq = Suc (db_outbox_seq d1), ob_event_id = env_event_id e, ob_stream_id = j, ob_envelope = q\<rparr>],
      db_outbox_seq := Suc (db_outbox_seq d1)\<rparr>"
    by (rule insert_outbox_Ok [OF z(2)])
  have "envelope_from_value K q = Some (stored_envelope K e)"
    using assms(2) z(1) q by (auto simp: pg_ok_def)
  define w where "w = \<lparr>ob_seq = Suc (db_outbox_seq d), ob_event_id = env_event_id e, ob_stream_id = j, ob_envelope = q\<rparr>"
  have w: "queued K e w" "ob_seq w = Suc (db_outbox_seq d)"
    using \<open>envelope_from_value K q = Some (stored_envelope K e)\<close> assms(3) by (simp_all add: queued_def w_def)
  define r where "r = (bound_row j e n s x)\<lparr>er_payload := y, er_recorded_at := t\<rparr>"
  have "stored_row K j e r"
    unfolding r_def by (rule stored_row_I [OF assms(2) x y assms(3) ns])
  moreover have "d' = d\<lparr>db_events := db_events d @ [r], db_outbox := db_outbox d @ [w], db_outbox_seq := Suc (db_outbox_seq d)\<rparr>"
    by (simp add: d' d1 r_def w_def)
  ultimately have "grown_by K j [e] [r] [w] d d'"
    using w by (simp add: grown_by_def)
  then show ?thesis by blast
qed

lemma grown_by_append:
  assumes "grown_by K j es rs ys d d1" and "grown_by K j es' rs' ys' d1 d2"
  shows "grown_by K j (es @ es') (rs @ rs') (ys @ ys') d d2"
proof -
  have "[Suc (db_outbox_seq d)..<Suc (db_outbox_seq d) + length (ys @ ys')] =
      [Suc (db_outbox_seq d)..<Suc (db_outbox_seq d) + length ys]
      @ [Suc (db_outbox_seq d1)..<Suc (db_outbox_seq d1) + length ys']"
    using assms(1) upt_add_eq_append [of "Suc (db_outbox_seq d)" "Suc (db_outbox_seq d) + length ys" "length ys'"]
    by (simp add: grown_by_def ac_simps)
  with assms show ?thesis
    by (auto simp: grown_by_def list_all2_appendI)
qed

lemma grown_by_Nil: "grown_by K j [] [] [] d d"
  by (simp add: grown_by_def)

lemma insert_all_Ok:
  assumes "insert_all K j v es d = Ok d'" and "pg_ok K" and "list_all (\<lambda>e. env_stream_id e = j) es"
  shows "\<exists>rs ys. grown_by K j es rs ys d d'"
  using assms(1,3)
proof (induction es arbitrary: d)
  case Nil
  then show ?case using grown_by_Nil by fastforce
next
  case (Cons e es)
  then obtain d1 where d1: "insert_envelope K j v e d = Ok d1" "insert_all K j v es d1 = Ok d'"
    by (auto simp: outcome_simps)
  obtain r y where "grown_by K j [e] [r] [y] d d1"
    using insert_envelope_Ok [OF d1(1) assms(2)] Cons.prems(2) by auto
  moreover obtain rs ys where "grown_by K j es rs ys d1 d'"
    using Cons.IH [OF d1(2)] Cons.prems(2) by auto
  ultimately show ?case
    using grown_by_append by fastforce
qed

lemma uint_next:
  assumes "n < 2 ^ 63"
  shows "uint (of_nat n + 1 :: u64) = int n + 1"
proof -
  have "(of_nat n + 1 :: u64) = of_nat (Suc n)" by simp
  moreover have "unat (of_nat (Suc n) :: u64) = Suc n"
    by (rule unat_of_nat_small) (use assms in simp)
  ultimately show ?thesis
    by (metis of_nat_Suc uint_nat add.commute)
qed

lemma stored_versions:
  assumes "list_all2 (stored_row K j) es rs" and "sequential (of_nat n) es" and "n < 2 ^ 63"
  shows "map er_version rs = map int [Suc n..<Suc n + length rs] \<and> n + length rs < 2 ^ 63"
  using assms
proof (induction es rs arbitrary: n rule: list_all2_induct)
  case (Cons e es r rs)
  then have r: "er_version r = int n + 1" "er_version r < 2 ^ 63"
    by (auto simp: stored_row_def uint_next)
  then have "Suc n < 2 ^ 63" by simp
  moreover have "sequential (of_nat (Suc n)) es"
    using Cons.prems(1) by (simp add: ac_simps)
  ultimately have "map er_version rs = map int [Suc (Suc n)..<Suc (Suc n) + length rs] \<and> Suc n + length rs < 2 ^ 63"
    by (intro Cons.IH)
  then show ?case
    using r by (simp add: upt_conv_Cons del: upt_Suc)
qed simp

lemma well_formed_batch_iff:
  "well_formed_batch stream v es \<longleftrightarrow> sequential v es \<and> list_all (\<lambda>e. env_stream_id e = stream) es"
  by (induction es arbitrary: v) (auto simp: Let_def)

section \<open>The invariant\<close>

text \<open>
  The dispatch row that a folded job calls for.  The deadline is free in \<open>row_matches\<close>, since
  heartbeats move it, and the recorded one in \<open>row_projected\<close>.
\<close>

definition row_fields :: "('v, 'j) pg \<Rightarrow> 'v Job \<Rightarrow> dispatch_row \<Rightarrow> bool" where
  "row_fields K job row \<longleftrightarrow>
     dr_queue row = queue_str (job_queue job) \<and> dr_priority row = job_priority job \<and>
     (case job_state job of
        S_Pending nb \<Rightarrow> pg_timestamp K nb = Some (dr_not_before row) \<and> dr_lease_id row = None
          \<and> dr_worker_id row = None \<and> dr_lease_expires_at row = None
      | S_Leased w l x \<Rightarrow> dr_not_before row = None \<and> dr_lease_id row = Some l
          \<and> dr_worker_id row = Some (worker_str w) \<and> dr_lease_expires_at row \<noteq> None
      | S_Running w l x \<Rightarrow> dr_not_before row = None \<and> dr_lease_id row = Some l
          \<and> dr_worker_id row = Some (worker_str w) \<and> dr_lease_expires_at row \<noteq> None
      | _ \<Rightarrow> False)"

definition row_matches :: "('v, 'j) pg \<Rightarrow> 'v Job \<Rightarrow> dispatch_row option \<Rightarrow> bool" where
  "row_matches K job orow \<longleftrightarrow>
     (case orow of None \<Rightarrow> \<not> dispatchable (job_state job) | Some row \<Rightarrow> row_fields K job row)"

definition recorded_deadline :: "JobState \<Rightarrow> date_time option" where
  "recorded_deadline state =
     (case state of S_Leased _ _ x \<Rightarrow> Some x | S_Running _ _ x \<Rightarrow> Some x | _ \<Rightarrow> None)"

definition row_projected :: "('v, 'j) pg \<Rightarrow> 'v Job \<Rightarrow> dispatch_row option \<Rightarrow> bool" where
  "row_projected K job orow \<longleftrightarrow> row_matches K job orow \<and>
     (\<forall>row. orow = Some row \<longrightarrow>
        pg_timestamp K (recorded_deadline (job_state job)) = Some (dr_lease_expires_at row))"

lemma pg_timestamp_simps [simp]:
  "pg_timestamp K None = Some None"
  "pg_timestamp K (Some t) = map_option Some (timestamptz K t)"
  by (simp_all add: pg_timestamp_def)

text \<open>The values of the job's dispatch row are ones the columns take.\<close>

definition projectable :: "('v, 'j) pg \<Rightarrow> 'v Job \<Rightarrow> bool" where
  "projectable K job \<longleftrightarrow>
     (case job_state job of
        S_Pending nb \<Rightarrow> pg_text (queue_str (job_queue job)) \<and> pg_timestamp K nb \<noteq> None
      | S_Leased w l x \<Rightarrow> pg_text (queue_str (job_queue job)) \<and> pg_text (worker_str w) \<and> timestamptz K x \<noteq> None
      | S_Running w l x \<Rightarrow> pg_text (queue_str (job_queue job)) \<and> pg_text (worker_str w) \<and> timestamptz K x \<noteq> None
      | _ \<Rightarrow> True)"

definition dispatch_ok :: "'j pg_db \<Rightarrow> bool" where
  "dispatch_ok d \<longleftrightarrow>
     distinct (map fst (db_dispatch_queue d))
     \<and> (\<forall>k r. map_of (db_dispatch_queue d) k = Some r \<longrightarrow> dr_seq r \<le> db_dispatch_seq d)
     \<and> (\<forall>k k' r r'. map_of (db_dispatch_queue d) k = Some r \<and> map_of (db_dispatch_queue d) k' = Some r'
           \<and> dr_seq r = dr_seq r' \<longrightarrow> k = k')"

definition stream_ok :: "('v, 'j) pg \<Rightarrow> 'j pg_db \<Rightarrow> JobId \<Rightarrow> bool" where
  "stream_ok K d j \<longleftrightarrow>
     rows_ok K (stream_rows d j) \<and>
     (if stream_rows d j = [] then map_of (db_dispatch_queue d) j = None
      else \<exists>job. from_events (pg_hist K d j) = Ok job \<and> job_id job = j
             \<and> row_matches K job (map_of (db_dispatch_queue d) j) \<and> projectable K job)"

definition pg_inv :: "('v, 'j) pg \<Rightarrow> 'j pg_db \<Rightarrow> bool" where
  "pg_inv K d \<longleftrightarrow> pg_ok K \<and> dispatch_ok d \<and> (\<forall>j. stream_ok K d j)"

lemma pg_inv_empty: "pg_ok K \<Longrightarrow> pg_inv K pg_empty"
  by (simp add: pg_inv_def dispatch_ok_def stream_ok_def rows_ok_def stream_rows_def pg_empty_def)

section \<open>Projection\<close>

definition next_seq :: "'j pg_db \<Rightarrow> JobId \<Rightarrow> nat" where
  "next_seq d j = (case map_of (db_dispatch_queue d) j of None \<Rightarrow> db_dispatch_seq d + 1 | Some old \<Rightarrow> dr_seq old)"

lemma upsert_dispatch_Ok:
  assumes "upsert_dispatch K j row d = Ok d'"
  obtains nb x where "pg_timestamp K (dr_not_before row) = Some nb" "pg_timestamp K (dr_lease_expires_at row) = Some x"
    "d' = d\<lparr>db_dispatch_queue := AList.update j
              (row\<lparr>dr_seq := next_seq d j, dr_not_before := nb, dr_lease_expires_at := x\<rparr>) (db_dispatch_queue d),
           db_dispatch_seq := db_dispatch_seq d + 1\<rparr>"
    "pg_text (dr_queue row)" "is_none_or pg_text (dr_worker_id row)"
  using assms by (auto simp: upsert_dispatch_def Let_def next_seq_def split: option.splits if_splits)

definition projects :: "('v, 'j) pg \<Rightarrow> 'v Job \<Rightarrow> 'j pg_db \<Rightarrow> 'j pg_db \<Rightarrow> bool" where
  "projects K job d d' \<longleftrightarrow>
     (\<exists>orow. map_of (db_dispatch_queue d') = (map_of (db_dispatch_queue d))(job_id job := orow)
        \<and> row_projected K job orow \<and> projectable K job
        \<and> (\<forall>row. orow = Some row \<longrightarrow> dr_seq row = next_seq d (job_id job) \<and> db_dispatch_seq d' = db_dispatch_seq d + 1))
     \<and> db_events d' = db_events d \<and> db_outbox d' = db_outbox d \<and> db_outbox_seq d' = db_outbox_seq d
     \<and> db_dispatch_seq d \<le> db_dispatch_seq d'
     \<and> (distinct (map fst (db_dispatch_queue d)) \<longrightarrow> distinct (map fst (db_dispatch_queue d')))
     \<and> db_notified d' = db_notified d @
         (case job_state job of S_Pending _ \<Rightarrow> [queue_str (job_queue job)] | _ \<Rightarrow> [])"

lemma project_in_tx_Ok:
  assumes "project_in_tx K job d = Ok d'"
  shows "projects K job d d'"
proof -
  note defs = row_projected_def row_matches_def row_fields_def recorded_deadline_def dispatchable_def projectable_def
  show ?thesis
  proof (cases "job_state job")
    case (S_Pending nb)
    with assms obtain d1 where d1: "upsert_dispatch K (job_id job) \<lparr>dr_queue = queue_str (job_queue job),
          dr_priority = job_priority job, dr_seq = 0, dr_not_before = nb, dr_lease_id = None,
          dr_worker_id = None, dr_lease_expires_at = None\<rparr> d = Ok d1"
        "d' = d1\<lparr>db_notified := db_notified d1 @ [queue_str (job_queue job)]\<rparr>"
      by (auto simp: project_in_tx_def Let_def outcome_simps)
    from d1(1) show ?thesis
      by (rule upsert_dispatch_Ok)
         (use S_Pending d1(2) in \<open>auto simp: projects_def update_conv' distinct_update defs\<close>)
  next
    case (S_Leased w l x)
    with assms have d1: "upsert_dispatch K (job_id job) \<lparr>dr_queue = queue_str (job_queue job),
          dr_priority = job_priority job, dr_seq = 0, dr_not_before = None, dr_lease_id = Some l,
          dr_worker_id = Some (worker_str w), dr_lease_expires_at = Some x\<rparr> d = Ok d'"
      by (auto simp: project_in_tx_def Let_def outcome_simps)
    from d1 show ?thesis
      by (rule upsert_dispatch_Ok)
         (use S_Leased in \<open>auto simp: projects_def update_conv' distinct_update defs\<close>)
  next
    case (S_Running w l x)
    with assms have d1: "upsert_dispatch K (job_id job) \<lparr>dr_queue = queue_str (job_queue job),
          dr_priority = job_priority job, dr_seq = 0, dr_not_before = None, dr_lease_id = Some l,
          dr_worker_id = Some (worker_str w), dr_lease_expires_at = Some x\<rparr> d = Ok d'"
      by (auto simp: project_in_tx_def Let_def outcome_simps)
    from d1 show ?thesis
      by (rule upsert_dispatch_Ok)
         (use S_Running in \<open>auto simp: projects_def update_conv' distinct_update defs\<close>)
  qed (use assms in \<open>auto simp: project_in_tx_def Let_def projects_def delete_conv' distinct_delete defs\<close>)
qed

lemma dispatch_ok_projects:
  assumes "dispatch_ok d" and "projects K job d d'"
  shows "dispatch_ok d'"
proof -
  let ?k = "job_id job" and ?n = "next_seq d (job_id job)"
  from assms(2) obtain orow where dq: "map_of (db_dispatch_queue d') = (map_of (db_dispatch_queue d))(?k := orow)"
      and row: "\<And>row. orow = Some row \<Longrightarrow> dr_seq row = ?n \<and> db_dispatch_seq d' = db_dispatch_seq d + 1"
      and le: "db_dispatch_seq d \<le> db_dispatch_seq d'"
    unfolding projects_def by blast
  have old: "dr_seq r \<le> db_dispatch_seq d" if "map_of (db_dispatch_queue d) k = Some r" for k r
    using assms(1) that by (auto simp: dispatch_ok_def)
  have inj: "k = k'" if "map_of (db_dispatch_queue d) k = Some r" "map_of (db_dispatch_queue d) k' = Some r'"
      "dr_seq r = dr_seq r'" for k k' r r'
    using assms(1) that unfolding dispatch_ok_def by blast
  have new: "dr_seq r \<noteq> ?n" if "map_of (db_dispatch_queue d) k = Some r" "k \<noteq> ?k" for k r
    using old [OF that(1)] inj [OF that(1)] that(2) by (auto simp: next_seq_def split: option.splits)
  have bound: "?n \<le> db_dispatch_seq d + 1"
    using old by (auto simp: next_seq_def split: option.splits intro: le_SucI)
  show ?thesis
    unfolding dispatch_ok_def dq
  proof (intro conjI allI impI)
    show "distinct (map fst (db_dispatch_queue d'))"
      using assms by (simp add: dispatch_ok_def projects_def)
  next
    fix k r
    assume "((map_of (db_dispatch_queue d))(?k := orow)) k = Some r"
    then show "dr_seq r \<le> db_dispatch_seq d'"
      using bound le row old by (fastforce split: if_splits dest: order_trans)
  next
    fix k k' r r'
    assume "((map_of (db_dispatch_queue d))(?k := orow)) k = Some r \<and>
        ((map_of (db_dispatch_queue d))(?k := orow)) k' = Some r' \<and> dr_seq r = dr_seq r'"
    then show "k = k'"
      using new inj row by (metis fun_upd_other fun_upd_same)
  qed
qed

section \<open>Appending\<close>

lemma pg_inv_stream: "pg_inv K d \<Longrightarrow> stream_ok K d j"
  and pg_inv_rows: "pg_inv K d \<Longrightarrow> rows_ok K (stream_rows d j)"
  by (simp_all add: pg_inv_def stream_ok_def)

lemma pg_hist_Nil: "pg_inv K d \<Longrightarrow> pg_hist K d j = [] \<longleftrightarrow> stream_rows d j = []"
  using length_pg_hist [OF pg_inv_rows, of K d j] by auto

lemma envelope_from_row_stream: "envelope_from_row K r = Ok e \<Longrightarrow> env_stream_id e = er_stream_id r"
  by (auto simp: envelope_from_row_def outcome_simps)

lemma pg_hist_ids:
  assumes "rows_ok K (stream_rows d j)"
  shows "list_all (\<lambda>e. env_stream_id e = j) (pg_hist K d j)"
proof -
  note l = load_rows_ok(2) [OF assms]
  have "env_stream_id (pg_hist K d j ! i) = j" if "i < length (pg_hist K d j)" for i
  proof -
    have i: "i < length (stream_rows d j)" using that length_pg_hist [OF assms] by simp
    then have "er_stream_id (stream_rows d j ! i) = j"
      using nth_mem [OF i] by (simp add: stream_rows_def)
    with envelope_from_row_stream [OF list_all2_nthD [OF l i]] show ?thesis by simp
  qed
  then show ?thesis by (simp add: list_all_length)
qed

lemma stored_rows_decode:
  assumes "list_all2 (stored_row K j) es rs"
  obtains es' where "list_all2 (\<lambda>r e. envelope_from_row K r = Ok e) rs es'" "list_all2 kept_as es es'"
proof -
  from assms have "\<exists>es'. list_all2 (\<lambda>r e. envelope_from_row K r = Ok e) rs es' \<and> list_all2 kept_as es es'"
  proof (induction rule: list_all2_induct)
    case (Cons e es r rs)
    then obtain e' es' where "envelope_from_row K r = Ok e'" "kept_as e e'"
        "list_all2 (\<lambda>r e. envelope_from_row K r = Ok e) rs es'" "list_all2 kept_as es es'"
      by (auto simp: stored_row_def)
    then show ?case
      by (intro exI [of _ "e' # es'"]) simp
  qed simp
  with that show thesis by blast
qed

lemma list_all2_set2:
  assumes "list_all2 P xs ys"
  shows "\<forall>y \<in> set ys. \<exists>x \<in> set xs. P x y"
  using assms by (induction rule: list_all2_induct) auto

lemma grown_rows:
  assumes "grown_by K j es rs ys d d1"
  shows "stream_rows d1 j = stream_rows d j @ rs" "k \<noteq> j \<Longrightarrow> stream_rows d1 k = stream_rows d k"
proof -
  have "list_all2 (\<lambda>e r. er_stream_id r = j) es rs" and ev: "db_events d1 = db_events d @ rs"
    using assms by (auto simp: grown_by_def stored_row_def elim: list_all2_mono)
  then have rs: "\<forall>r \<in> set rs. er_stream_id r = j"
    by (auto simp: list_all2_conv_all_nth in_set_conv_nth)
  then show "stream_rows d1 j = stream_rows d j @ rs"
    by (simp add: stream_rows_def ev)
  show "stream_rows d1 k = stream_rows d k" if "k \<noteq> j"
  proof -
    have "filter (\<lambda>r. er_stream_id r = k) rs = []"
      using rs that by (auto simp: filter_empty_conv)
    then show ?thesis by (simp add: stream_rows_def ev)
  qed
qed

lemma grown_rows_ok:
  assumes "grown_by K j es rs ys d d1" and "rows_ok K (stream_rows d j)"
    and "sequential (of_nat (length (stream_rows d j))) es"
  shows "rows_ok K (stream_rows d1 j)"
proof -
  let ?n = "length (stream_rows d j)"
  have st: "list_all2 (stored_row K j) es rs"
    using assms(1) by (simp add: grown_by_def)
  have n: "?n < 2 ^ 63" using assms(2) by (simp add: rows_ok_def)
  note v = stored_versions [OF st assms(3) n]
  have "\<forall>r \<in> set rs. is_ok (envelope_from_row K r)"
    using list_all2_set2 [OF st] by (auto simp: stored_row_def is_ok_iff)
  moreover have "[1..<Suc (?n + length rs)] = [1..<Suc ?n] @ [Suc ?n..<Suc ?n + length rs]"
    using upt_add_eq_append [of 1 "Suc ?n" "length rs"] by simp
  ultimately show ?thesis
    using v assms(2) by (auto simp: rows_ok_def grown_rows(1) [OF assms(1)] simp del: upt_Suc)
qed

lemma append_in_tx_Ok:
  assumes "pg_inv K d" and "append_in_tx K j v es d = Ok (job, d')"
  obtains es' rs ys d1 where "grown_by K j es rs ys d d1" "list_all2 kept_as es es'"
    "unat v = length (pg_hist K d j)" "from_events (pg_hist K d j @ es') = Ok job" "job_id job = j"
    "rows_ok K (stream_rows d1 j)" "pg_hist K d1 j = pg_hist K d j @ es'" "projects K job d1 d'"
proof -
  let ?n = "length (stream_rows d j)"
  have rows: "rows_ok K (stream_rows d j)" and pg: "pg_ok K"
    using assms(1) by (simp_all add: pg_inv_rows) (simp add: pg_inv_def)
  from rows have n: "?n < 2 ^ 63" by (simp add: rows_ok_def)
  from assms(2) obtain d1 xs where v: "v = of_nat ?n" and seq: "sequential v es"
      and ids: "list_all (\<lambda>e. env_stream_id e = j) es" and ins: "insert_all K j v es d = Ok d1"
      and load: "load_in_tx K j d1 = Ok xs" and job: "from_events xs = Ok job"
      and proj: "project_in_tx K job d1 = Ok d'"
    by (auto simp: append_in_tx_def stream_version_ok [OF rows] append_checked_def well_formed_batch_iff
        outcome_simps split: if_splits)
  from insert_all_Ok [OF ins pg ids] obtain rs ys where g: "grown_by K j es rs ys d d1" by blast
  have rows1: "rows_ok K (stream_rows d1 j)"
    by (rule grown_rows_ok [OF g rows]) (use seq v in simp)
  obtain es' where es': "list_all2 (\<lambda>r e. envelope_from_row K r = Ok e) rs es'" "list_all2 kept_as es es'"
    by (rule stored_rows_decode [of K j es rs]) (use g in \<open>simp_all add: grown_by_def\<close>)
  have h: "pg_hist K d1 j = pg_hist K d j @ es'"
    by (rule pg_hist_extend [OF rows rows1 grown_rows(1) [OF g] es'(1)])
  have xs: "xs = pg_hist K d1 j"
    using load load_rows_ok(1) [OF rows1] by simp
  have "job_id job = j"
    using folded_job_id [OF job] pg_hist_ids [OF rows1] by (simp add: xs)
  moreover have "unat v = length (pg_hist K d j)"
    using n by (simp add: v length_pg_hist [OF rows] unat_of_nat_small)
  ultimately show thesis
    using that [OF g es'(2)] job rows1 h project_in_tx_Ok [OF proj] by (simp add: xs)
qed

lemma pg_hist_cong: "stream_rows d' j = stream_rows d j \<Longrightarrow> pg_hist K d' j = pg_hist K d j"
  by (simp add: pg_hist_def load_in_tx_def)

lemma projects_frame:
  assumes "projects K job d d'"
  shows "stream_rows d' j = stream_rows d j" "pg_hist K d' j = pg_hist K d j"
    "j \<noteq> job_id job \<Longrightarrow> map_of (db_dispatch_queue d') j = map_of (db_dispatch_queue d) j"
    "row_projected K job (map_of (db_dispatch_queue d') (job_id job))" "projectable K job"
proof -
  show rows: "stream_rows d' j = stream_rows d j"
    using assms by (simp add: projects_def stream_rows_def)
  show "pg_hist K d' j = pg_hist K d j"
    by (rule pg_hist_cong [OF rows])
  show "map_of (db_dispatch_queue d') j = map_of (db_dispatch_queue d) j" if "j \<noteq> job_id job"
    using assms that by (auto simp: projects_def)
  show "row_projected K job (map_of (db_dispatch_queue d') (job_id job))" "projectable K job"
    using assms by (auto simp: projects_def)
qed

lemma append_in_tx_inv:
  assumes "pg_inv K d" and "append_in_tx K j v es d = Ok (job, d')"
  shows "pg_inv K d' \<and> unat v = length (pg_hist K d j) \<and> from_events (pg_hist K d' j) = Ok job
    \<and> row_projected K job (map_of (db_dispatch_queue d') j)
    \<and> (\<exists>es'. list_all2 kept_as es es' \<and> pg_hist K d' = (pg_hist K d)(j := pg_hist K d j @ es'))"
proof -
  obtain es' rs ys d1 where g: "grown_by K j es rs ys d d1" and kept: "list_all2 kept_as es es'"
      and v: "unat v = length (pg_hist K d j)" and job: "from_events (pg_hist K d j @ es') = Ok job" "job_id job = j"
      and rows1: "rows_ok K (stream_rows d1 j)" and h1: "pg_hist K d1 j = pg_hist K d j @ es'"
      and proj: "projects K job d1 d'"
    by (rule append_in_tx_Ok [OF assms])
  note frame = projects_frame [OF proj]
  have dq: "db_dispatch_queue d1 = db_dispatch_queue d" "db_dispatch_seq d1 = db_dispatch_seq d"
    using g by (simp_all add: grown_by_def)
  have h: "pg_hist K d' = (pg_hist K d)(j := pg_hist K d j @ es')"
    using frame(2) h1 pg_hist_cong [OF grown_rows(2) [OF g]] by (auto simp: fun_eq_iff)
  have "dispatch_ok d'"
    by (rule dispatch_ok_projects [OF _ proj]) (use assms(1) dq in \<open>simp add: pg_inv_def dispatch_ok_def\<close>)
  moreover have "stream_ok K d' k" for k
  proof (cases "k = j")
    case True
    have "from_events (pg_hist K d' j) = Ok job" using h job(1) by simp
    moreover have "stream_rows d' j \<noteq> []"
      using from_events_frame [OF job(1)] length_pg_hist [OF rows1] h1 frame(1) by auto
    ultimately show ?thesis
      using True rows1 frame(1,4,5) job(2) by (auto simp: stream_ok_def row_projected_def)
  next
    case False
    with pg_inv_stream [OF assms(1), of k] frame job(2) grown_rows(2) [OF g] dq h show ?thesis
      by (simp add: stream_ok_def)
  qed
  ultimately show ?thesis
    using assms(1) v h job kept frame(4) by (auto simp: pg_inv_def)
qed

section \<open>What the database accepts\<close>

definition envelope_storable :: "('v, 'j) pg \<Rightarrow> 'v EventEnvelope \<Rightarrow> bool" where
  "envelope_storable K e \<longleftrightarrow>
     (\<exists>x. event_to_value K (env_event e) = Some x \<and> jsonb K x \<noteq> None)
     \<and> (\<exists>x. envelope_to_value K e = Some x \<and> jsonb K x \<noteq> None)
     \<and> timestamptz K (env_recorded_at e) \<noteq> None \<and> is_none_or pg_text (env_traceparent e)
     \<and> uint (env_version e) < 2 ^ 63 \<and> uint (env_schema_version e) < 2 ^ 15"

definition pg_storable :: "('v, 'j) pg \<Rightarrow> 'j pg_db \<Rightarrow> JobId \<Rightarrow> 'v stream \<Rightarrow> bool" where
  "pg_storable K d j es \<longleftrightarrow>
     distinct (map env_event_id es)
     \<and> (\<forall>e \<in> set es. envelope_storable K e \<and> (\<forall>r \<in> set (db_events d). er_event_id r \<noteq> env_event_id e))
     \<and> (\<forall>job. from_events (pg_hist K d j @ es) = Ok job \<longrightarrow> projectable K job)"

lemma project_accepts: "projectable K job \<Longrightarrow> \<exists>d'. project_in_tx K job d = Ok d'"
  by (auto simp: projectable_def project_in_tx_def upsert_dispatch_def Let_def split: JobState.splits option.splits)

lemma insert_envelope_accepts:
  assumes "envelope_storable K e" and "\<forall>r \<in> set (db_events d). er_event_id r \<noteq> env_event_id e"
    and "\<forall>r \<in> set (stream_rows d j). er_version r \<noteq> uint (env_version e)"
  shows "\<exists>d'. insert_envelope K j v e d = Ok d'"
  using assms
  by (auto simp: envelope_storable_def insert_envelope_def insert_event_def insert_outbox_def bound_row_def
      i64_try_from_def i16_try_from_def list_ex_iff split: option.splits)

lemma insert_all_accepts:
  assumes "pg_ok K" and "sequential (of_nat n) es" and "n < 2 ^ 63"
    and "list_all (\<lambda>e. env_stream_id e = j) es" and "distinct (map env_event_id es)"
    and "\<forall>e \<in> set es. envelope_storable K e \<and> (\<forall>r \<in> set (db_events d). er_event_id r \<noteq> env_event_id e)"
    and "\<forall>r \<in> set (stream_rows d j). er_version r \<le> int n"
  shows "\<exists>d'. insert_all K j v es d = Ok d'"
  using assms(2-)
proof (induction es arbitrary: n d)
  case (Cons e es)
  have ver: "uint (env_version e) = int n + 1" "uint (env_version e) < 2 ^ 63"
    using Cons.prems(1,2,5) by (simp_all add: uint_next envelope_storable_def)
  obtain d1 where d1: "insert_envelope K j v e d = Ok d1"
    using insert_envelope_accepts [of K e d j v] Cons.prems(5,6) ver(1) by force
  obtain r y where g: "grown_by K j [e] [r] [y] d d1"
    using insert_envelope_Ok [OF d1 assms(1)] Cons.prems(3) by auto
  then have r: "er_event_id r = env_event_id e" "er_version r = int n + 1" "db_events d1 = db_events d @ [r]"
    using ver by (auto simp: grown_by_def stored_row_def)
  have "\<exists>d'. insert_all K j v es d1 = Ok d'"
  proof (rule Cons.IH)
    show "sequential (of_nat (Suc n)) es" using Cons.prems(1) by (simp add: ac_simps)
    show "Suc n < 2 ^ 63" using ver by simp
    show "\<forall>e \<in> set es. envelope_storable K e \<and> (\<forall>r \<in> set (db_events d1). er_event_id r \<noteq> env_event_id e)"
      using Cons.prems(4,5) r by force
    show "\<forall>r \<in> set (stream_rows d1 j). er_version r \<le> int (Suc n)"
      using Cons.prems(6) r(2) grown_rows(1) [OF g] by force
  qed (use Cons.prems in simp_all)
  with d1 show ?case by simp
qed simp

section \<open>The Postgres store implements the contract\<close>

lemma pg_append_eq_Ok: "pg_append K j v es d = (Ok u, d') \<longleftrightarrow> (\<exists>job. append_in_tx K j v es d = Ok (job, d'))"
  by (cases "append_in_tx K j v es d") (auto simp: pg_append_def commit_def)

lemma pg_append_Err: "pg_append K j v es d = (Err x, d') \<Longrightarrow> d' = d"
  by (cases "append_in_tx K j v es d") (auto simp: pg_append_def commit_def split: prod.splits)

lemma collect_not_Panic: "\<forall>r \<in> set rs. r \<noteq> Panic \<Longrightarrow> collect rs \<noteq> Panic"
  by (induction rs) (auto simp: outcome_simps)

lemma load_in_tx_not_Panic: "load_in_tx K j d \<noteq> Panic"
  unfolding load_in_tx_def by (rule collect_not_Panic) (auto simp: envelope_from_row_def outcome_simps)

lemma insert_event_not_Panic: "insert_event K row d \<noteq> Panic"
  by (auto simp: insert_event_def split: option.splits)

lemma insert_outbox_not_Panic: "insert_outbox K i j z d \<noteq> Panic"
  by (auto simp: insert_outbox_def split: option.splits)

lemma insert_all_not_Panic: "insert_all K j v es d \<noteq> Panic"
  by (induction es arbitrary: d)
     (auto simp: insert_envelope_def outcome_simps insert_event_not_Panic insert_outbox_not_Panic)

lemma project_in_tx_not_Panic: "project_in_tx K job d \<noteq> Panic"
  by (auto simp: project_in_tx_def Let_def upsert_dispatch_def outcome_simps split: JobState.splits option.splits)

lemma append_in_tx_not_Panic: "append_in_tx K j v es d \<noteq> Panic"
  by (auto simp: append_in_tx_def append_checked_def stream_version_def Let_def outcome_simps insert_all_not_Panic
      load_in_tx_not_Panic project_in_tx_not_Panic)

lemma pg_append_not_Panic: "fst (pg_append K j v es d) \<noteq> Panic"
  using append_in_tx_not_Panic [of K j v es d]
  by (cases "append_in_tx K j v es d") (auto simp: pg_append_def commit_def split: prod.splits)

lemma pg_append_law:
  assumes "pg_inv K d" and "pg_append K j v es d = (Ok u, d')"
  shows "pg_inv K d' \<and> unat v = length (pg_hist K d j)
    \<and> (\<exists>es'. list_all2 kept_as es es' \<and> pg_hist K d' = (pg_hist K d)(j := pg_hist K d j @ es'))"
  using assms append_in_tx_inv [OF assms(1)] by (auto simp: pg_append_eq_Ok)

lemma pg_hist_folds:
  assumes "pg_inv K d" and "pg_hist K d j \<noteq> []"
  shows "\<exists>job. from_events (pg_hist K d j) = Ok job \<and> job_id job = j"
  using pg_inv_stream [OF assms(1), of j] assms pg_hist_Nil [OF assms(1), of j] by (auto simp: stream_ok_def)

lemma pg_load_law:
  assumes "pg_inv K d"
  shows "pg_load K j d = (if pg_hist K d j = [] then Err (StreamNotFound j) else Ok (pg_hist K d j))"
  using load_rows_ok(1) [OF pg_inv_rows [OF assms], of j] pg_hist_Nil [OF assms, of j]
  by (simp add: pg_load_def load_in_tx_def rows_ok_sorted [OF pg_inv_rows [OF assms]])

lemma pg_append_stale:
  assumes "pg_inv K d" and "unat v \<noteq> length (pg_hist K d j)"
  shows "pg_append K j v es d = (Err (VersionConflict j v), d)"
proof -
  note rows = pg_inv_rows [OF assms(1), of j]
  have "of_nat (length (stream_rows d j)) \<noteq> v"
    using assms(2) rows by (auto simp: length_pg_hist [OF rows] rows_ok_def unat_of_nat_small)
  then show ?thesis
    by (simp add: pg_append_def commit_def append_in_tx_def stream_version_ok [OF rows] append_checked_def)
qed

text \<open>A well-formed batch that can be stored is inserted and read back.\<close>

lemma storable_inserts:
  assumes "pg_inv K d" and "unat v = length (pg_hist K d j)" and "sequential v es"
    and "list_all (\<lambda>e. env_stream_id e = j) es" and "pg_storable K d j es"
  obtains d1 es' where "insert_all K j v es d = Ok d1" "load_in_tx K j d1 = Ok (pg_hist K d j @ es')"
    "list_all2 kept_as es es'" "v = of_nat (length (stream_rows d j))"
proof -
  let ?n = "length (stream_rows d j)"
  note rows = pg_inv_rows [OF assms(1), of j]
  have pg: "pg_ok K" using assms(1) by (simp add: pg_inv_def)
  have n: "?n < 2 ^ 63" using rows by (simp add: rows_ok_def)
  have v: "v = of_nat ?n" by (simp flip: length_pg_hist [OF rows] add: assms(2) [symmetric])
  have le: "\<forall>r \<in> set (stream_rows d j). er_version r \<le> int ?n"
  proof
    fix r assume "r \<in> set (stream_rows d j)"
    then have "er_version r \<in> set (map er_version (stream_rows d j))" by simp
    also have "map er_version (stream_rows d j) = map int [1..<Suc ?n]" using rows by (simp only: rows_ok_def)
    finally show "er_version r \<le> int ?n" by (auto simp del: upt_Suc)
  qed
  obtain d1 where ins: "insert_all K j v es d = Ok d1"
    using insert_all_accepts [OF pg _ n assms(4) _ _ le, where v = v] assms(3,5) v by (auto simp: pg_storable_def)
  obtain rs ys where g: "grown_by K j es rs ys d d1"
    using insert_all_Ok [OF ins pg assms(4)] by blast
  have rows1: "rows_ok K (stream_rows d1 j)"
    by (rule grown_rows_ok [OF g rows]) (use assms(3) v in simp)
  obtain es' where es': "list_all2 (\<lambda>r e. envelope_from_row K r = Ok e) rs es'" "list_all2 kept_as es es'"
    by (rule stored_rows_decode [of K j es rs]) (use g in \<open>simp_all add: grown_by_def\<close>)
  have "load_in_tx K j d1 = Ok (pg_hist K d j @ es')"
    using load_rows_ok(1) [OF rows1] pg_hist_extend [OF rows rows1 grown_rows(1) [OF g] es'(1)] by simp
  with that [OF ins _ es'(2) v] show thesis .
qed

lemma storable_projectable:
  assumes "pg_storable K d j es" and "list_all2 kept_as es es'" and "from_events (pg_hist K d j @ es') = Ok job"
  shows "projectable K job"
proof -
  let ?f = "from_events (pg_hist K d j @ es)"
  note eq = from_events_forget [OF kept_as_append [OF assms(2), of "pg_hist K d j"], where q = "job_payload job", unfolded assms(3)]
  from forget_payload_Ok [OF eq [symmetric]] obtain p where "?f = Ok (job\<lparr>job_payload := p\<rparr>)" by blast
  with assms(1) have "projectable K (job\<lparr>job_payload := p\<rparr>)" by (simp add: pg_storable_def)
  then show ?thesis by (auto simp: projectable_def split: JobState.splits)
qed

text \<open>The answer of an append whose batch can be stored.\<close>

lemma pg_append_answer:
  assumes "pg_inv K d" and "pg_storable K d j es"
  shows "\<exists>es'. list_all2 kept_as es es' \<and> fst (pg_append K j v es d) =
    (if unat v \<noteq> length (pg_hist K d j) then Err (VersionConflict j v)
     else if \<not> (sequential v es \<and> list_all (\<lambda>e. env_stream_id e = j) es)
     then Err (StoreBackend (Msg_id ''malformed envelope batch for'' j))
     else and_then (map_err (\<lambda>e. StoreBackend (Msg_error ''stream does not fold'' e))
            (from_events (pg_hist K d j @ es'))) (\<lambda>_. Ok ()))"
proof (cases "unat v = length (pg_hist K d j) \<and> sequential v es \<and> list_all (\<lambda>e. env_stream_id e = j) es")
  case True
  note rows = pg_inv_rows [OF assms(1), of j]
  obtain d1 es' where es': "insert_all K j v es d = Ok d1" "load_in_tx K j d1 = Ok (pg_hist K d j @ es')"
      "list_all2 kept_as es es'" "v = of_nat (length (stream_rows d j))"
    by (rule storable_inserts [OF assms(1) _ _ _ assms(2), of v]) (use True in simp_all)
  have tx: "append_in_tx K j v es d =
      and_then (map_err (\<lambda>e. StoreBackend (Msg_error ''stream does not fold'' e)) (from_events (pg_hist K d j @ es'))) (\<lambda>job.
      and_then (project_in_tx K job d1) (\<lambda>d. Ok (job, d)))"
    using True es' by (simp add: append_in_tx_def stream_version_ok [OF rows] append_checked_def well_formed_batch_iff)
  have "fst (pg_append K j v es d) =
      and_then (map_err (\<lambda>e. StoreBackend (Msg_error ''stream does not fold'' e)) (from_events (pg_hist K d j @ es'))) (\<lambda>_. Ok ())"
  proof (cases "from_events (pg_hist K d j @ es')")
    case (Ok job)
    with project_accepts [OF storable_projectable [OF assms(2) es'(3) Ok], of d1] show ?thesis
      by (auto simp: pg_append_def commit_def tx)
  qed (simp_all add: pg_append_def commit_def tx)
  with True es'(3) show ?thesis by auto
next
  case False
  have kept: "list_all2 kept_as es es" by (rule list_all2_refl) simp
  show ?thesis
  proof (cases "unat v = length (pg_hist K d j)")
    case True
    note rows = pg_inv_rows [OF assms(1), of j]
    have "v = of_nat (length (stream_rows d j))" by (simp flip: length_pg_hist [OF rows] add: True [symmetric])
    with True False kept show ?thesis
      by (auto simp: pg_append_def commit_def append_in_tx_def stream_version_ok [OF rows] append_checked_def well_formed_batch_iff)
  next
    case False
    with pg_append_stale [OF assms(1) False] kept show ?thesis by auto
  qed
qed

lemma pg_append_accepts:
  assumes "pg_inv K d" and "unat v = length (pg_hist K d j)" and "sequential v es"
    and "list_all (\<lambda>e. env_stream_id e = j) es" and "from_events (pg_hist K d j @ es) = Ok job"
    and "pg_storable K d j es"
  shows "\<exists>d'. pg_append K j v es d = (Ok (), d')"
proof -
  obtain es' where es': "list_all2 kept_as es es'" "fst (pg_append K j v es d) =
      and_then (map_err (\<lambda>e. StoreBackend (Msg_error ''stream does not fold'' e)) (from_events (pg_hist K d j @ es'))) (\<lambda>_. Ok ())"
    using pg_append_answer [OF assms(1,6), of v] assms(2-4) by auto
  obtain p where "from_events (pg_hist K d j @ es') = Ok (job\<lparr>job_payload := p\<rparr>)"
    using from_events_payload [OF kept_as_append [OF es'(1)] assms(5)] by blast
  with es'(2) have "fst (pg_append K j v es d) = Ok ()" by simp
  then show ?thesis by (metis surjective_pairing)
qed

interpretation postgres: event_store_contract "pg_store K" "pg_inv K" "pg_hist K" "pg_storable K"
  for K :: "('v, 'j) pg"
  apply unfold_locales
        apply (erule (1) pg_hist_folds)
       apply (simp add: pg_store_def pg_load_law)
      apply (unfold pg_store_def event_store.simps)
      apply (erule (1) pg_append_law)
     apply (erule pg_append_Err)
    apply (rule pg_append_not_Panic)
   apply (erule (1) pg_append_stale)
  apply (erule (5) pg_append_accepts)
  done

end
