(* ===== verification/Postgres_Properties.thy ===== *)
theory Postgres_Properties
  imports Postgres_Store
begin

text \<open>
  What the Postgres store guarantees: the append is all or nothing and fills the outbox, the
  version check cannot be raced, the dispatch table can be rebuilt from the log.
\<close>

section \<open>A sample database for the concrete evaluations\<close>

text \<open>A value is a number and null is 0; a timestamp is cut to the microsecond.\<close>

definition sample_stored :: "nat JobEvent \<Rightarrow> nat JobEvent" where
  "sample_stored ev =
     (case ev of E_Succeeded (Some 0) \<Rightarrow> E_Succeeded None | E_Repaired (Some 0) note' \<Rightarrow> E_Repaired None note' | _ \<Rightarrow> ev)"

definition sample_pg :: "(nat, nat JobEvent + nat EventEnvelope) pg" where
  "sample_pg =
     \<lparr>event_to_value = (\<lambda>ev. Some (Inl (sample_stored ev))),
      event_from_value = (\<lambda>x. case x of Inl ev \<Rightarrow> Some ev | _ \<Rightarrow> None),
      envelope_to_value = (\<lambda>env. Some (Inr (env\<lparr>env_event := sample_stored (env_event env)\<rparr>))),
      envelope_from_value = (\<lambda>x. case x of Inr env \<Rightarrow> Some env | _ \<Rightarrow> None),
      jsonb = Some, timestamptz = (\<lambda>t. Some (1000 * (t div 1000))), null_value = 0\<rparr>"

lemma sample_pg_simps:
  "event_to_value sample_pg ev = Some (Inl (sample_stored ev))"
  "event_from_value sample_pg x = (case x of Inl ev \<Rightarrow> Some ev | _ \<Rightarrow> None)"
  "envelope_to_value sample_pg env = Some (Inr (env\<lparr>env_event := sample_stored (env_event env)\<rparr>))"
  "envelope_from_value sample_pg x = (case x of Inr env \<Rightarrow> Some env | _ \<Rightarrow> None)"
  "jsonb sample_pg x = Some x" "timestamptz sample_pg t = Some (1000 * (t div 1000))" "null_value sample_pg = 0"
  by (simp_all add: sample_pg_def)

lemma sample_stored_event: "sample_stored ev = stored_event sample_pg ev"
  by (cases ev) (auto simp: sample_stored_def stored_event_def non_null_def sample_pg_simps split: option.split nat.split)

lemma sample_pg_ok: "pg_ok sample_pg"
proof -
  have "\<bar>t - 1000 * (t div 1000)\<bar> < 1000" for t :: int
  proof -
    have "t - 1000 * (t div 1000) = t mod 1000" by (simp add: minus_mult_div_eq_mod)
    then show ?thesis by simp
  qed
  then show ?thesis
    by (auto simp: pg_ok_def sample_pg_simps sample_stored_event stored_envelope_def intro: zdiv_mono1)
qed

definition sample_db :: "nat stream \<Rightarrow> (nat JobEvent + nat EventEnvelope) pg_db" where
  "sample_db xs = snd (pg_append sample_pg (JobId 1) 0 xs pg_empty)"

lemma sample_projectable: "projectable sample_pg (sample_job st 0 v) \<longleftrightarrow>
    (case st of S_Leased w l x \<Rightarrow> pg_text (worker_str w) | S_Running w l x \<Rightarrow> pg_text (worker_str w) | _ \<Rightarrow> True)"
  by (auto simp: projectable_def sample_defs sample_pg_def pg_text_def lit_def pg_timestamp_def split: JobState.splits option.splits)

lemma pg_hist_empty: "pg_hist K pg_empty j = []"
  by (simp add: pg_hist_def load_in_tx_def stream_rows_def pg_empty_def)

lemma sample_append:
  assumes "from_events xs = Ok (sample_job st 0 v)" and "list_all (\<lambda>e. env_stream_id e = JobId 1) xs"
    and "distinct (map env_event_id xs)" and "\<forall>e \<in> set xs. envelope_storable sample_pg e"
    and "case st of S_Leased w l x \<Rightarrow> pg_text (worker_str w) | S_Running w l x \<Rightarrow> pg_text (worker_str w) | _ \<Rightarrow> True"
  shows "pg_append sample_pg (JobId 1) 0 xs pg_empty = (Ok (), sample_db xs)"
proof -
  note inv = pg_inv_empty [OF sample_pg_ok]
  have "sequential 0 xs" using from_events_frame [OF assms(1)] by blast
  moreover have "pg_storable sample_pg pg_empty (JobId 1) xs"
    using assms sample_projectable [of st v] by (simp add: pg_storable_def pg_hist_empty) (simp add: pg_empty_def)
  ultimately obtain d where "pg_append sample_pg (JobId 1) 0 xs pg_empty = (Ok (), d)"
    using pg_append_accepts [OF inv _ _ assms(2), of 0 "sample_job st 0 v"] assms(1) by (auto simp: pg_hist_empty)
  then show ?thesis by (simp add: sample_db_def)
qed

lemma pg_first_append:
  assumes "pg_ok K" and "pg_append K j v xs pg_empty = (Ok u, d)"
    and "list_all (\<lambda>e. \<not> replaces_payload (env_event e)) xs"
  shows "pg_inv K d" "from_events (pg_hist K d j) = from_events xs" "k \<noteq> j \<Longrightarrow> pg_hist K d k = []"
proof -
  note law = pg_append_law [OF pg_inv_empty [OF assms(1)] assms(2)]
  show "pg_inv K d" using law by blast
  from law obtain es' where es': "list_all2 kept_as xs es'" "pg_hist K d = (\<lambda>_. [])(j := es')"
    by (auto simp: pg_hist_empty fun_eq_iff)
  then show "from_events (pg_hist K d j) = from_events xs" "k \<noteq> j \<Longrightarrow> pg_hist K d k = []"
    using from_events_kept [OF es'(1)] assms(3) by (simp_all add: list_all_iff)
qed

lemma sample_storable: "\<forall>e \<in> set sample_running. envelope_storable sample_pg e"
  by (simp add: sample_streams sample_envelope_def envelope_storable_def sample_pg_def SCHEMA_VERSION_def)

lemma sample_appends:
  "pg_append sample_pg (JobId 1) 0 sample_pending pg_empty = (Ok (), sample_db sample_pending)"
  "pg_append sample_pg (JobId 1) 0 sample_leased pg_empty = (Ok (), sample_db sample_leased)"
  "pg_append sample_pg (JobId 1) 0 sample_running pg_empty = (Ok (), sample_db sample_running)"
proof -
  have w: "pg_text (worker_str sample_worker)" by (simp add: pg_text_def sample_worker_def lit_def)
  note ids = sample_streams sample_envelope_def
  show "pg_append sample_pg (JobId 1) 0 sample_pending pg_empty = (Ok (), sample_db sample_pending)"
    by (rule sample_append [OF sample_folds(1)]) (use sample_storable in \<open>simp_all add: ids\<close>)
  show "pg_append sample_pg (JobId 1) 0 sample_leased pg_empty = (Ok (), sample_db sample_leased)"
    by (rule sample_append [OF sample_folds(2)]) (use sample_storable w in \<open>simp_all add: ids\<close>)
  show "pg_append sample_pg (JobId 1) 0 sample_running pg_empty = (Ok (), sample_db sample_running)"
    by (rule sample_append [OF sample_folds(3)]) (use sample_storable w in \<open>simp_all add: ids\<close>)
qed

lemma sample_db_inv:
  "pg_inv sample_pg (sample_db sample_pending)" "pg_inv sample_pg (sample_db sample_leased)"
  "pg_inv sample_pg (sample_db sample_running)"
  using pg_append_law [OF pg_inv_empty [OF sample_pg_ok]] sample_appends by blast+

section \<open>All or nothing\<close>

text \<open>
  C7. An append to the database is all or nothing.  When it succeeds, the version was the
  expected one and one transaction has recorded the whole batch (the time of recording rounded
  to a microsecond, a null result read back as none), queued each envelope in the outbox with
  no other change, in order and behind what was there, re-derived the job's dispatch row from the folded stream, and announced the queue
  exactly when the job is pending.  When it fails, nothing has changed.
\<close>

theorem pg_append_all_or_nothing:
  assumes "pg_inv K d"
  shows "case pg_append K j v es d of
     (Ok _, d') \<Rightarrow> pg_inv K d' \<and> unat v = length (pg_hist K d j)
       \<and> (\<exists>es' ys job. list_all2 kept_as es es' \<and> pg_hist K d' = (pg_hist K d)(j := pg_hist K d j @ es')
           \<and> db_outbox d' = db_outbox d @ ys
           \<and> map (\<lambda>y. envelope_from_value K (ob_envelope y)) ys = map (\<lambda>e. Some (stored_envelope K e)) es
           \<and> map ob_seq ys = [Suc (db_outbox_seq d)..<Suc (db_outbox_seq d) + length ys]
           \<and> from_events (pg_hist K d' j) = Ok job \<and> row_projected K job (map_of (db_dispatch_queue d') j)
           \<and> db_notified d' = db_notified d @
               (case job_state job of S_Pending _ \<Rightarrow> [queue_str (job_queue job)] | _ \<Rightarrow> []))
   | (Err _, d') \<Rightarrow> d' = d
   | (Panic, _) \<Rightarrow> False"
proof (cases "append_in_tx K j v es d")
  case (Ok p)
  then obtain job d' where p: "append_in_tx K j v es d = Ok (job, d')" by (cases p) simp
  obtain es' rs ys d1 where g: "grown_by K j es rs ys d d1" and proj: "projects K job d1 d'"
    by (rule append_in_tx_Ok [OF assms p])
  have "list_all2 (queued K) es ys" using g by (simp add: grown_by_def)
  then have ys: "map (\<lambda>y. envelope_from_value K (ob_envelope y)) ys = map (\<lambda>e. Some (stored_envelope K e)) es"
    by (induction rule: list_all2_induct) (simp_all add: queued_def)
  have "db_outbox d' = db_outbox d @ ys"
      "map ob_seq ys = [Suc (db_outbox_seq d)..<Suc (db_outbox_seq d) + length ys]"
      "db_notified d' = db_notified d @ (case job_state job of S_Pending _ \<Rightarrow> [queue_str (job_queue job)] | _ \<Rightarrow> [])"
    using g proj by (auto simp: grown_by_def projects_def simp del: upt_Suc)
  with ys append_in_tx_inv [OF assms p] p show ?thesis
    by (auto simp: pg_append_def commit_def simp del: upt_Suc)
next
  case Panic
  then show ?thesis using append_in_tx_not_Panic by blast
qed (simp add: pg_append_def commit_def)

theorem pg_append_all_or_nothing_witness:
  "pg_hist sample_pg (sample_db sample_pending) (JobId 1) \<noteq> []
   \<and> map (\<lambda>y. envelope_from_value sample_pg (ob_envelope y)) (db_outbox (sample_db sample_pending)) = map Some sample_pending"
proof -
  have a: "pg_append sample_pg (JobId 1) 0 sample_pending pg_empty = (Ok (), sample_db sample_pending)"
    by (rule sample_appends)
  have "db_outbox (pg_empty :: (nat JobEvent + nat EventEnvelope) pg_db) = []"
    by (simp add: pg_empty_def)
  with pg_append_all_or_nothing [OF pg_inv_empty [OF sample_pg_ok], where j = "JobId 1" and v = 0 and es = sample_pending] show ?thesis
    unfolding a by (auto simp: sample_pending_def pg_hist_empty list_all2_Cons1 stored_envelope_exact exact_event_def sample_streams sample_envelope_def sample_enqueued_def)
qed

section \<open>Two appends at once\<close>

text \<open>
  C8. The race between the version check and the inserts is closed by the unique constraint.
  When other transactions have committed \<open>rs\<close> to the stream after the check, a non-empty
  append never commits, and a batch the database would otherwise take is refused with the
  version conflict the check itself would have given; an append that commits is the append run
  as a whole at the time of its inserts.
\<close>

theorem append_race_closed:
  assumes "pg_inv K d0" and "pg_inv K d1" and "stream_rows d1 j = stream_rows d0 j @ rs" and "es \<noteq> []"
    and "stream_version j d0 = Ok current"
  shows "(\<forall>r. append_checked K j v es current d1 = Ok r \<longrightarrow> rs = [] \<and> append_in_tx K j v es d1 = Ok r)
    \<and> (rs \<noteq> [] \<and> current = v \<and> sequential v es \<and> list_all (\<lambda>e. env_stream_id e = j) es \<and> pg_storable K d1 j es
        \<longrightarrow> append_checked K j v es current d1 = Err (VersionConflict j v))"
proof (cases "rs = []")
  case True
  then have "stream_version j d1 = stream_version j d0"
    using assms(3) by (simp add: stream_version_def)
  with assms(5) True show ?thesis by (auto simp: append_in_tx_def)
next
  case False
  let ?n = "length (stream_rows d0 j)"
  note rows = pg_inv_rows [OF assms(1), of j] and rows1 = pg_inv_rows [OF assms(2), of j]
  have current: "current = of_nat ?n"
    using assms(5) stream_version_ok [OF rows] by simp
  have "map er_version (stream_rows d1 j) ! ?n = int ?n + 1"
    using rows1 False assms(3) by (simp add: rows_ok_def del: upt_Suc)
  then have taken: "\<exists>r \<in> set (stream_rows d1 j). er_version r = int ?n + 1"
    using False assms(3) by (metis length_append length_greater_0_conv less_add_same_cancel1 nth_map nth_mem)
  obtain e es1 where es: "es = e # es1" using assms(4) by (cases es) auto
  have ver: "uint (env_version e) = int ?n + 1" if "sequential current es"
    using that rows by (simp add: es current uint_next rows_ok_def)
  have no: "insert_envelope K j v e d1 \<noteq> Ok d'" if "sequential current es" for d'
    using taken ver [OF that]
    by (auto simp: insert_envelope_def outcome_simps insert_event_def bound_row_def i64_try_from_def list_ex_iff
        split: option.splits if_splits)
  have conflict: "insert_envelope K j v e d1 = Err (VersionConflict j v)"
    if "sequential current es" "pg_storable K d1 j es"
  proof -
    have "envelope_storable K e" "\<forall>r \<in> set (db_events d1). er_event_id r \<noteq> env_event_id e"
      using that(2) by (simp_all add: es pg_storable_def)
    with taken ver [OF that(1)] show ?thesis
      by (auto simp: insert_envelope_def envelope_storable_def insert_event_def bound_row_def i64_try_from_def
          i16_try_from_def list_ex_iff is_version_conflict_def)
  qed
  show ?thesis
    using no conflict False
    by (auto simp: append_checked_def well_formed_batch_iff es outcome_simps simp del: sequential.simps split: if_splits)
qed


definition sample_rival :: "nat EventEnvelope" where
  "sample_rival = (sample_envelope 1 sample_enqueued)\<lparr>env_event_id := EventId 77\<rparr>"

lemma append_in_tx_grows:
  assumes "pg_inv K d" and "append_in_tx K j v es d = Ok (job, d')"
  obtains rs ys where "db_events d' = db_events d @ rs" "list_all2 (stored_row K j) es rs"
    "db_outbox d' = db_outbox d @ ys" "list_all2 (queued K) es ys"
    "map ob_seq ys = [Suc (db_outbox_seq d)..<Suc (db_outbox_seq d) + length ys]"
    "db_outbox_seq d' = db_outbox_seq d + length ys"
proof -
  obtain rs ys d1 where g: "grown_by K j es rs ys d d1" and p: "projects K job d1 d'"
    by (rule append_in_tx_Ok [OF assms])
  show thesis
    by (rule that [of rs ys]) (use g p in \<open>auto simp: grown_by_def projects_def simp del: upt_Suc\<close>)
qed

lemma pg_append_grows:
  assumes "pg_inv K d" and "pg_append K j v es d = (Ok u, d')"
  obtains rs ys where "db_events d' = db_events d @ rs" "list_all2 (stored_row K j) es rs"
    "db_outbox d' = db_outbox d @ ys" "list_all2 (queued K) es ys"
    "map ob_seq ys = [Suc (db_outbox_seq d)..<Suc (db_outbox_seq d) + length ys]"
    "db_outbox_seq d' = db_outbox_seq d + length ys"
proof -
  obtain job where job: "append_in_tx K j v es d = Ok (job, d')"
    using assms(2) by (auto simp: pg_append_eq_Ok)
  show thesis by (rule append_in_tx_grows [OF assms(1) job]) (rule that)
qed

lemma sample_db_rows:
  obtains r where "db_events (sample_db sample_pending) = [r]" "er_stream_id r = JobId 1" "er_event_id r = EventId 1"
  by (rule pg_append_grows [OF pg_inv_empty [OF sample_pg_ok] sample_appends(1)])
     (auto simp: pg_empty_def sample_pending_def list_all2_Cons1 stored_row_def sample_envelope_def)

theorem append_race_closed_witness:
  "append_checked sample_pg (JobId 1) 0 [sample_rival] 0 (sample_db sample_pending) = Err (VersionConflict (JobId 1) 0)"
proof -
  obtain r where r: "db_events (sample_db sample_pending) = [r]" "er_stream_id r = JobId 1" "er_event_id r = EventId 1"
    by (rule sample_db_rows)
  have rows: "stream_rows (sample_db sample_pending) (JobId 1) = stream_rows pg_empty (JobId 1) @ [r]"
    by (simp add: stream_rows_def r pg_empty_def)
  have v: "stream_version (JobId 1) (pg_empty :: (nat JobEvent + nat EventEnvelope) pg_db) = Ok 0"
    by (simp add: stream_version_def stream_rows_def pg_empty_def u64_try_from_i64_def)
  have "envelope_storable sample_pg sample_rival"
    by (simp add: sample_rival_def sample_envelope_def envelope_storable_def sample_pg_def SCHEMA_VERSION_def)
  moreover have "from_events (pg_hist sample_pg (sample_db sample_pending) (JobId 1) @ [sample_rival]) \<noteq> Ok job" for job
  proof
    assume f: "from_events (pg_hist sample_pg (sample_db sample_pending) (JobId 1) @ [sample_rival]) = Ok job"
    have "length (pg_hist sample_pg (sample_db sample_pending) (JobId 1)) = 1"
      using length_pg_hist [OF pg_inv_rows [OF sample_db_inv(1)]] by (simp add: rows) (simp add: stream_rows_def pg_empty_def)
    then obtain e where e: "pg_hist sample_pg (sample_db sample_pending) (JobId 1) = [e]"
      by (auto simp: length_Suc_conv)
    show False
      using from_events_frame [OF f] by (simp add: e sample_rival_def sample_envelope_def)
  qed
  ultimately have st: "pg_storable sample_pg (sample_db sample_pending) (JobId 1) [sample_rival]"
    using r by (simp add: pg_storable_def sample_rival_def)
  have e: "env_version sample_rival = 1" "env_stream_id sample_rival = JobId 1"
    by (simp_all add: sample_rival_def sample_envelope_def)
  show ?thesis
    using append_race_closed [OF pg_inv_empty [OF sample_pg_ok] sample_db_inv(1) rows _ v, where es = "[sample_rival]" and v = 0] st e
    by simp
qed

section \<open>Rebuilding the dispatch table\<close>

text \<open>The jobs a rebuild counts.\<close>

definition live_job :: "('v, 'j) pg \<Rightarrow> 'j pg_db \<Rightarrow> JobId \<Rightarrow> bool" where
  "live_job K d j \<longleftrightarrow> (case from_events (pg_hist K d j) of Ok job \<Rightarrow> dispatchable (job_state job) | _ \<Rightarrow> False)"

definition seq_before :: "'j pg_db \<Rightarrow> JobId \<Rightarrow> JobId \<Rightarrow> bool" where
  "seq_before d j k \<longleftrightarrow>
     (\<forall>r r'. map_of (db_dispatch_queue d) j = Some r \<and> map_of (db_dispatch_queue d) k = Some r' \<longrightarrow> dr_seq r < dr_seq r')"

text \<open>The first event of \<open>j\<close> was recorded before any of \<open>k\<close>.\<close>

definition began_before :: "'j pg_db \<Rightarrow> JobId \<Rightarrow> JobId \<Rightarrow> bool" where
  "began_before d j k \<longleftrightarrow> k \<noteq> j \<and>
     (\<exists>us r vs. db_events d = us @ r # vs \<and> er_stream_id r = j \<and> (\<forall>u \<in> set us. er_stream_id u \<noteq> k))"

text \<open>What has been achieved when the streams \<open>js\<close> have been projected one by one.\<close>

definition rebuilt :: "('v, 'j) pg \<Rightarrow> JobId list \<Rightarrow> 'j pg_db \<Rightarrow> 'j pg_db \<Rightarrow> bool" where
  "rebuilt K js d d' \<longleftrightarrow>
     db_events d' = db_events d \<and> db_outbox d' = db_outbox d \<and> dispatch_ok d'
     \<and> db_dispatch_seq d \<le> db_dispatch_seq d'
     \<and> (\<forall>k. k \<notin> set js \<longrightarrow> map_of (db_dispatch_queue d') k = map_of (db_dispatch_queue d) k)
     \<and> (\<forall>k \<in> set js. \<forall>job. from_events (pg_hist K d k) = Ok job \<longrightarrow> row_projected K job (map_of (db_dispatch_queue d') k))
     \<and> (\<forall>k \<in> set js. \<forall>r. map_of (db_dispatch_queue d') k = Some r \<longrightarrow> db_dispatch_seq d < dr_seq r)
     \<and> sorted_wrt (seq_before d') js"

definition rebuildable :: "('v, 'j) pg \<Rightarrow> 'j pg_db \<Rightarrow> JobId \<Rightarrow> bool" where
  "rebuildable K d j \<longleftrightarrow> rows_ok K (stream_rows d j) \<and> map_of (db_dispatch_queue d) j = None
     \<and> (\<exists>job. from_events (pg_hist K d j) = Ok job \<and> job_id job = j \<and> projectable K job)"

lemma rebuilt_step:
  assumes "projects K job d d1" and "dispatch_ok d" and "from_events (pg_hist K d (job_id job)) = Ok job"
    and "map_of (db_dispatch_queue d) (job_id job) = None" and "job_id job \<notin> set js" and "rebuilt K js d1 d'"
  shows "rebuilt K (job_id job # js) d d'"
proof -
  let ?j = "job_id job"
  note frame = projects_frame [OF assms(1)]
  have eq: "db_events d1 = db_events d" "db_outbox d1 = db_outbox d" "db_dispatch_seq d \<le> db_dispatch_seq d1"
    using assms(1) by (simp_all add: projects_def)
  have h: "pg_hist K d1 k = pg_hist K d k" for k by (rule frame(2))
  have row: "map_of (db_dispatch_queue d') ?j = map_of (db_dispatch_queue d1) ?j"
    using assms(5,6) by (simp add: rebuilt_def)
  have new: "dr_seq r = db_dispatch_seq d + 1 \<and> db_dispatch_seq d1 = db_dispatch_seq d + 1"
    if "map_of (db_dispatch_queue d') ?j = Some r" for r
    using assms(1,4) that row by (auto simp: projects_def next_seq_def)
  have later: "db_dispatch_seq d1 < dr_seq r" if "k \<in> set js" "map_of (db_dispatch_queue d') k = Some r" for k r
    using assms(6) that by (simp add: rebuilt_def)
  have "\<forall>k \<in> set js. seq_before d' ?j k"
    using new later by (force simp: seq_before_def)
  moreover have "\<forall>k \<in> set (?j # js). \<forall>r. map_of (db_dispatch_queue d') k = Some r \<longrightarrow> db_dispatch_seq d < dr_seq r"
    using new later eq(3) by fastforce
  moreover have "\<forall>k. k \<notin> set (?j # js) \<longrightarrow> map_of (db_dispatch_queue d') k = map_of (db_dispatch_queue d) k"
    using assms(6) frame(3) by (auto simp: rebuilt_def)
  moreover have "\<forall>k \<in> set (?j # js). \<forall>job. from_events (pg_hist K d k) = Ok job \<longrightarrow> row_projected K job (map_of (db_dispatch_queue d') k)"
    using assms(3,6) frame(4) row by (auto simp: rebuilt_def h)
  ultimately show ?thesis
    using assms(6) eq by (auto simp: rebuilt_def)
qed

lemma rebuild_loop_rebuilds:
  assumes "distinct js" and "dispatch_ok d" and "\<forall>j \<in> set js. rebuildable K d j"
  shows "\<exists>d'. rebuild_loop K js n d = Ok (n + of_nat (length (filter (live_job K d) js)), d') \<and> rebuilt K js d d'"
  using assms
proof (induction js arbitrary: n d)
  case Nil
  then show ?case by (simp add: rebuilt_def)
next
  case (Cons j js)
  then obtain job where job: "from_events (pg_hist K d j) = Ok job" "job_id job = j" "projectable K job"
      and rows: "rows_ok K (stream_rows d j)" and none: "map_of (db_dispatch_queue d) j = None"
    by (auto simp: rebuildable_def)
  obtain d1 where d1: "project_in_tx K job d = Ok d1"
    using project_accepts [OF job(3)] by blast
  note proj = project_in_tx_Ok [OF d1]
  note frame = projects_frame [OF proj]
  have ok1: "dispatch_ok d1" by (rule dispatch_ok_projects [OF Cons.prems(2) proj])
  have "rebuildable K d1 k" if "k \<in> set js" for k
  proof -
    have "k \<noteq> job_id job" and "rebuildable K d k"
      using that Cons.prems(1,3) job(2) by auto
    then show ?thesis by (simp add: rebuildable_def frame(1-3))
  qed
  moreover have live: "live_job K d1 = live_job K d"
    by (simp add: fun_eq_iff live_job_def frame(2))
  ultimately obtain d' where d': "rebuild_loop K js (if dispatchable (job_state job) then n + 1 else n) d1 =
      Ok ((if dispatchable (job_state job) then n + 1 else n) + of_nat (length (filter (live_job K d) js)), d')"
      "rebuilt K js d1 d'"
    using Cons.IH [OF _ ok1, of "if dispatchable (job_state job) then n + 1 else n"] Cons.prems(1) by auto
  have "live_job K d j = dispatchable (job_state job)"
    by (simp add: live_job_def job)
  then have "rebuild_loop K (j # js) n d = Ok (n + of_nat (length (filter (live_job K d) (j # js))), d')"
    using d'(1) by (simp add: load_rows_ok(1) [OF rows] job(1) d1)
  moreover have "rebuilt K (j # js) d d'"
    using rebuilt_step [OF proj Cons.prems(2) _ _ _ d'(2)] job(1,2) none Cons.prems(1) by simp
  ultimately show ?case by blast
qed

lemma streams_by_first_event_set [simp]: "set (streams_by_first_event d) = er_stream_id ` set (db_events d)"
  and streams_by_first_event_distinct [simp]: "distinct (streams_by_first_event d)"
  by (simp_all add: streams_by_first_event_def)

lemma known_stream_iff: "j \<in> er_stream_id ` set (db_events d) \<longleftrightarrow> stream_rows d j \<noteq> []"
  by (auto simp: stream_rows_def filter_empty_conv)

lemma remdups_split: "remdups (xs @ ys) = remdups (filter (\<lambda>x. x \<notin> set ys) xs) @ remdups ys"
  by (induction xs) auto

lemma first_event_order:
  assumes "began_before d j k" and "sorted_wrt P (streams_by_first_event d)" and "k \<in> er_stream_id ` set (db_events d)"
  shows "P j k"
proof -
  from assms(1) obtain us r vs where d: "db_events d = us @ r # vs" "er_stream_id r = j" "k \<noteq> j"
      "k \<notin> er_stream_id ` set us" by (auto simp: began_before_def)
  let ?B = "j # rev (map er_stream_id us)"
  have "streams_by_first_event d = rev (remdups (rev (map er_stream_id vs) @ ?B))"
    by (simp add: streams_by_first_event_def d(1,2))
  then have "streams_by_first_event d =
      rev (remdups ?B) @ rev (remdups (filter (\<lambda>x. x \<notin> set ?B) (rev (map er_stream_id vs))))"
    by (simp only: remdups_split [of _ ?B] rev_append)
  moreover have "j \<in> set (rev (remdups ?B))" by simp
  moreover have "k \<in> set (rev (remdups (filter (\<lambda>x. x \<notin> set ?B) (rev (map er_stream_id vs)))))"
    using assms(3) d by auto
  ultimately show ?thesis
    using assms(2) by (simp only: sorted_wrt_append)
qed

lemma live_jobs_counted:
  assumes "pg_inv K d"
  shows "length (filter (live_job K d) (streams_by_first_event d)) = card {j. live_job K d j}"
proof -
  have "j \<in> set (streams_by_first_event d)" if "live_job K d j" for j
  proof -
    from that obtain job where "from_events (pg_hist K d j) = Ok job" by (auto simp: live_job_def split: outcome.splits)
    with from_events_frame [OF this] pg_hist_Nil [OF assms] show ?thesis by (auto simp: known_stream_iff)
  qed
  then have "set (filter (live_job K d) (streams_by_first_event d)) = {j. live_job K d j}" by auto
  with distinct_card [of "filter (live_job K d) (streams_by_first_event d)"] show ?thesis by simp
qed

text \<open>
  C11. The dispatch table is derived state.  When all its rows are lost, a rebuild from the log
  of an intact database succeeds and gives an intact database back: every job has exactly the
  row its folded stream calls for, a lease with the deadline it was recorded with, and rows are
  served in the order in which their streams began; the result is the number of live jobs.
\<close>

theorem rebuild_restores:
  assumes "pg_inv K d"
  shows "\<exists>d'. rebuild_dispatch K (d\<lparr>db_dispatch_queue := []\<rparr>) =
      (Ok (of_nat (card {j. live_job K d j})), d')
    \<and> pg_inv K d' \<and> pg_hist K d' = pg_hist K d \<and> db_outbox d' = db_outbox d
    \<and> (\<forall>j job. from_events (pg_hist K d j) = Ok job \<longrightarrow> row_projected K job (map_of (db_dispatch_queue d') j))
    \<and> (\<forall>j k. began_before d j k \<longrightarrow> seq_before d' j k)"
proof -
  let ?d = "d\<lparr>db_dispatch_queue := []\<rparr>" and ?js = "streams_by_first_event d"
  have rows: "stream_rows ?d j = stream_rows d j" for j by (simp add: stream_rows_def)
  have h: "pg_hist K ?d j = pg_hist K d j" for j by (rule pg_hist_cong [OF rows])
  have js: "streams_by_first_event ?d = ?js" by (simp add: streams_by_first_event_def)
  have ok: "dispatch_ok ?d" by (simp add: dispatch_ok_def)
  have "rebuildable K ?d j" if "stream_rows d j \<noteq> []" for j
    using pg_inv_stream [OF assms, of j] that by (auto simp: rebuildable_def rows h stream_ok_def)
  then have "\<forall>j \<in> set ?js. rebuildable K ?d j"
    by (simp add: known_stream_iff flip: image_iff)
  from rebuild_loop_rebuilds [OF _ ok this, of 0] obtain d' where
      d': "rebuild_loop K ?js 0 ?d = Ok (of_nat (length (filter (live_job K ?d) ?js)), d')" and r: "rebuilt K ?js ?d d'"
    by auto
  have ev: "db_events d' = db_events d" "db_outbox d' = db_outbox d" using r by (simp_all add: rebuilt_def)
  have rows': "stream_rows d' j = stream_rows d j" for j by (simp add: stream_rows_def ev)
  have h': "pg_hist K d' j = pg_hist K d j" for j by (rule pg_hist_cong [OF rows'])
  have live: "live_job K ?d = live_job K d" by (simp add: fun_eq_iff live_job_def h)
  have proj: "row_projected K job (map_of (db_dispatch_queue d') j)" if "from_events (pg_hist K d j) = Ok job" for j job
  proof -
    have "j \<in> set ?js"
      using from_events_frame [OF that] pg_hist_Nil [OF assms] by (auto simp: known_stream_iff)
    with r that show ?thesis by (auto simp: rebuilt_def h)
  qed
  have "stream_ok K d' j" for j
  proof (cases "stream_rows d j = []")
    case True
    then have "j \<notin> set ?js" by (simp add: known_stream_iff)
    with r True pg_inv_rows [OF assms, of j] show ?thesis by (simp add: stream_ok_def rows' rebuilt_def)
  next
    case False
    with pg_inv_stream [OF assms, of j] proj show ?thesis
      by (auto simp: stream_ok_def rows' h' row_projected_def)
  qed
  then have inv: "pg_inv K d'" using assms r by (simp add: pg_inv_def rebuilt_def)
  have order: "seq_before d' j k" if "began_before d j k" for j k
  proof (cases "k \<in> er_stream_id ` set (db_events d)")
    case True
    have "sorted_wrt (seq_before d') ?js" using r by (simp add: rebuilt_def)
    from first_event_order [where P = "seq_before d'", OF that this True] show ?thesis .
  next
    case False
    with r show ?thesis by (simp add: rebuilt_def seq_before_def)
  qed
  have "rebuild_dispatch K ?d = (Ok (of_nat (card {j. live_job K d j})), d')"
    using d' by (simp add: rebuild_dispatch_def js commit_def live live_jobs_counted [OF assms])
  moreover have "pg_hist K d' = pg_hist K d" by (rule ext) (rule h')
  ultimately show ?thesis using inv ev(2) proj order by blast
qed

theorem rebuild_restores_witness:
  "\<exists>d'. rebuild_dispatch sample_pg ((sample_db sample_running)\<lparr>db_dispatch_queue := []\<rparr>) =
      (Ok (of_nat (card {j. live_job sample_pg (sample_db sample_running) j})), d')
    \<and> pg_inv sample_pg d'"
  using rebuild_restores [OF sample_db_inv(3)] by blast

end
