(* ===== verification/Postgres_Relay.thy ===== *)
theory Postgres_Relay
  imports Postgres_Properties
begin

text \<open>
  The outbox relay of \<open>koine-store-postgres/src/relay.rs\<close> with the \<open>EventSink\<close> port of
  \<open>koine-application/src/ports.rs\<close> and the printing sink of \<open>koine-server/src/sinks.rs\<close>.  A sink
  is a function on a state of its own; \<open>skip\<close> tells the outbox rows that other transactions
  hold locked.
\<close>

section \<open>Sinks\<close>

datatype SinkError = SinkFailed rstring

datatype RelayError = RelaySink SinkError | RelayBackend Message

type_synonym ('v, 'k) event_sink = "'v stream \<Rightarrow> 'k \<Rightarrow> (unit, SinkError) outcome \<times> 'k"

text \<open>\<open>PrintingSink\<close>: its state is the lines printed so far.\<close>

definition printed_line :: "'v EventEnvelope \<Rightarrow> JobId \<times> u64 \<times> string" where
  "printed_line env = (env_stream_id env, env_version env, kind (env_event env))"

definition printing_sink :: "('v, (JobId \<times> u64 \<times> string) list) event_sink" where
  "printing_sink envelopes out = (Ok (), foldl (\<lambda>out env. out @ [printed_line env]) out envelopes)"

section \<open>One pass of the relay\<close>

text \<open>\<open>SELECT ... ORDER BY outbox_seq LIMIT $1 FOR UPDATE SKIP LOCKED\<close>; a negative limit is an error.\<close>

definition select_batch :: "int \<Rightarrow> (nat \<Rightarrow> bool) \<Rightarrow> 'j pg_db \<Rightarrow> ('j outbox_row list, RelayError) outcome" where
  "select_batch batch skip d =
     (if batch < 0 then Err (RelayBackend (Msg ''db''))
      else Ok (take (nat batch) (filter (\<lambda>r. \<not> skip (ob_seq r)) (sort_key ob_seq (db_outbox d)))))"

definition u32_len :: "nat \<Rightarrow> u32" where
  "u32_len n = (if n < 2 ^ 32 then of_nat n else - 1)"

definition relay_once ::
  "('v, 'j) pg \<Rightarrow> ('v, 'k) event_sink \<Rightarrow> int \<Rightarrow> (nat \<Rightarrow> bool) \<Rightarrow> 'j pg_db \<times> 'k
   \<Rightarrow> (u32, RelayError) outcome \<times> 'j pg_db \<times> 'k" where
  "relay_once K deliver batch skip w =
     (let (d, k) = w
      in case select_batch batch skip d of
           Err x \<Rightarrow> (Err x, d, k)
         | Panic \<Rightarrow> (Panic, d, k)
         | Ok rows \<Rightarrow>
             if rows = [] then (Ok 0, d, k)
             else let seqs = map ob_seq rows
                  in case collect (map (\<lambda>row. ok_or (RelayBackend (Msg ''envelope decode''))
                                                 (envelope_from_value K (ob_envelope row))) rows) of
                       Err x \<Rightarrow> (Err x, d, k)
                     | Panic \<Rightarrow> (Panic, d, k)
                     | Ok envelopes \<Rightarrow>
                         (case deliver envelopes k of
                            (Err x, k) \<Rightarrow> (Err (RelaySink x), d, k)
                          | (Panic, k) \<Rightarrow> (Panic, d, k)
                          | (Ok _, k) \<Rightarrow>
                              (Ok (u32_len (length envelopes)),
                               d\<lparr>db_outbox := filter (\<lambda>r. ob_seq r \<notin> set seqs) (db_outbox d)\<rparr>, k)))"

section \<open>The outbox\<close>

text \<open>
  The outbox is in the order of its sequence and its rows decode; \<open>outbox_envelopes\<close> are the
  envelopes it holds.
\<close>

definition outbox_ok :: "('v, 'j) pg \<Rightarrow> 'j pg_db \<Rightarrow> bool" where
  "outbox_ok K d \<longleftrightarrow>
     sorted_wrt (<) (map ob_seq (db_outbox d)) \<and> (\<forall>r \<in> set (db_outbox d). ob_seq r \<le> db_outbox_seq d)
     \<and> (\<forall>r \<in> set (db_outbox d). envelope_from_value K (ob_envelope r) \<noteq> None)"

definition outbox_envelopes :: "('v, 'j) pg \<Rightarrow> 'j pg_db \<Rightarrow> 'v stream" where
  "outbox_envelopes K d = map (\<lambda>r. the (envelope_from_value K (ob_envelope r))) (db_outbox d)"

lemma outbox_ok_empty: "outbox_ok K pg_empty"
  by (simp add: outbox_ok_def pg_empty_def)

lemma printing_sink_eq: "printing_sink envs out = (Ok (), out @ map printed_line envs)"
proof -
  have "foldl (\<lambda>out env. out @ [printed_line env]) out envs = out @ map printed_line envs"
    by (induction envs arbitrary: out) simp_all
  then show ?thesis by (simp add: printing_sink_def)
qed

lemma sorted_seq_id: "sorted_wrt (<) (map f xs) \<Longrightarrow> sort_key f xs = xs"
  for f :: "'a \<Rightarrow> nat"
  by (rule sort_key_id_if_sorted) (simp add: strict_sorted_imp_sorted)

lemma collect_decoded:
  assumes "\<forall>r \<in> set rows. f r \<noteq> None"
  shows "collect (map (\<lambda>r. ok_or x (f r)) rows) = Ok (map (\<lambda>r. the (f r)) rows)"
  using assms by (induction rows) auto

lemma filter_not_taken:
  fixes f :: "'a \<Rightarrow> nat"
  assumes "sorted_wrt (<) (map f xs)"
  shows "filter (\<lambda>r. f r \<notin> set (map f (take n xs))) xs = drop n xs"
proof -
  have d: "distinct (map f xs)" using assms by (simp add: strict_sorted_iff)
  let ?P = "\<lambda>r. f r \<notin> set (map f (take n xs))"
  have "\<forall>r \<in> set (drop n xs). ?P r"
  proof
    fix r assume "r \<in> set (drop n xs)"
    then have "f r \<in> set (drop n (map f xs))" by (auto simp: drop_map)
    with d show "?P r"
      using set_take_disj_set_drop_if_distinct [OF d order_refl] by (auto simp: take_map)
  qed
  then have "filter ?P (drop n xs) = drop n xs" by (simp add: filter_id_conv)
  moreover have "filter ?P (take n xs) = []" by (auto simp: filter_empty_conv)
  ultimately show ?thesis
    by (metis append_Nil append_take_drop_id filter_append)
qed

lemma relay_once_eq:
  assumes "outbox_ok K d" and "0 \<le> batch"
  shows "relay_once K deliver batch (\<lambda>_. False) (d, k) =
    (let envs = take (nat batch) (outbox_envelopes K d)
     in if envs = [] then (Ok 0, d, k)
        else case deliver envs k of
          (Ok _, k') \<Rightarrow> (Ok (u32_len (length envs)), d\<lparr>db_outbox := drop (nat batch) (db_outbox d)\<rparr>, k')
        | (Err x, k') \<Rightarrow> (Err (RelaySink x), d, k')
        | (Panic, k') \<Rightarrow> (Panic, d, k'))"
proof -
  let ?rows = "take (nat batch) (db_outbox d)"
  let ?envs = "take (nat batch) (outbox_envelopes K d)"
  have so: "sorted_wrt (<) (map ob_seq (db_outbox d))" using assms(1) by (simp add: outbox_ok_def)
  have sel: "select_batch batch (\<lambda>_. False) d = Ok ?rows"
    using assms(2) by (simp add: select_batch_def sorted_seq_id [OF so])
  have "\<forall>r \<in> set ?rows. envelope_from_value K (ob_envelope r) \<noteq> None"
    using assms(1) by (auto simp: outbox_ok_def dest: in_set_takeD)
  then have dec: "collect (map (\<lambda>row. ok_or (RelayBackend (Msg ''envelope decode'')) (envelope_from_value K (ob_envelope row))) ?rows) = Ok ?envs"
    by (simp add: collect_decoded outbox_envelopes_def take_map)
  have nil: "?envs = [] \<longleftrightarrow> ?rows = []" by (simp add: outbox_envelopes_def)
  have "filter (\<lambda>r. ob_seq r \<notin> set (map ob_seq ?rows)) (db_outbox d) = drop (nat batch) (db_outbox d)"
    by (rule filter_not_taken [OF so])
  then show ?thesis
    using nil by (auto simp: relay_once_def sel dec Let_def split: outcome.splits prod.splits)
qed

lemma outbox_dropped:
  assumes "outbox_ok K d"
  shows "outbox_ok K (d\<lparr>db_outbox := drop n (db_outbox d)\<rparr>)"
    "outbox_envelopes K d = take n (outbox_envelopes K d) @ outbox_envelopes K (d\<lparr>db_outbox := drop n (db_outbox d)\<rparr>)"
proof -
  show "outbox_ok K (d\<lparr>db_outbox := drop n (db_outbox d)\<rparr>)"
    using assms by (auto simp: outbox_ok_def drop_map [symmetric] sorted_wrt_drop dest: in_set_dropD)
  show "outbox_envelopes K d = take n (outbox_envelopes K d) @ outbox_envelopes K (d\<lparr>db_outbox := drop n (db_outbox d)\<rparr>)"
    by (simp add: outbox_envelopes_def take_map drop_map flip: map_append)
qed

text \<open>
  C12. The relay delivers at least once and in order.  With no rows held by another transaction, a
  pass hands the sink the oldest \<open>batch\<close> envelopes of the outbox in order, and removes exactly
  these, reporting their number, when the sink took them; when the sink refuses, and on every
  other error, the outbox is untouched, so the batch is delivered again.
\<close>

theorem relay_delivers_in_order:
  assumes "outbox_ok K d" and "0 \<le> batch"
  shows "let envs = take (nat batch) (outbox_envelopes K d) in
    (if envs = [] then relay_once K deliver batch (\<lambda>_. False) (d, k) = (Ok 0, d, k)
     else case deliver envs k of
        (Ok _, k') \<Rightarrow> \<exists>d'. relay_once K deliver batch (\<lambda>_. False) (d, k) = (Ok (u32_len (length envs)), d', k')
          \<and> outbox_ok K d' \<and> outbox_envelopes K d = envs @ outbox_envelopes K d'
          \<and> db_events d' = db_events d \<and> db_dispatch_queue d' = db_dispatch_queue d
      | (Err x, k') \<Rightarrow> relay_once K deliver batch (\<lambda>_. False) (d, k) = (Err (RelaySink x), d, k')
      | (Panic, k') \<Rightarrow> relay_once K deliver batch (\<lambda>_. False) (d, k) = (Panic, d, k'))"
  using outbox_dropped [OF assms(1), of "nat batch"]
  by (auto simp: relay_once_eq [OF assms] Let_def split: outcome.split prod.split)

lemma outbox_ok_append:
  assumes "pg_inv K d" and "outbox_ok K d" and "append_in_tx K j v es d = Ok (job, d')"
  shows "outbox_ok K d' \<and> outbox_envelopes K d' = outbox_envelopes K d @ map (stored_envelope K) es"
proof -
  obtain ys where ys: "db_outbox d' = db_outbox d @ ys" "list_all2 (queued K) es ys"
      "map ob_seq ys = [Suc (db_outbox_seq d)..<Suc (db_outbox_seq d) + length ys]"
      "db_outbox_seq d' = db_outbox_seq d + length ys"
    by (rule append_in_tx_grows [OF assms(1,3)])
  have q: "\<forall>y \<in> set ys. ob_seq y \<in> {Suc (db_outbox_seq d)..db_outbox_seq d + length ys}"
  proof
    fix y assume "y \<in> set ys"
    then have "ob_seq y \<in> set (map ob_seq ys)" by simp
    then show "ob_seq y \<in> {Suc (db_outbox_seq d)..db_outbox_seq d + length ys}"
      unfolding ys(3) by (simp del: upt_Suc)
  qed
  have "sorted_wrt (<) (map ob_seq ys)" unfolding ys(3) by (rule sorted_wrt_upt)
  moreover have "\<forall>y \<in> set ys. envelope_from_value K (ob_envelope y) \<noteq> None"
    using list_all2_set2 [OF ys(2)] by (auto simp: queued_def)
  ultimately have "outbox_ok K d'"
    using assms(2) q by (force simp: outbox_ok_def ys(1,4) sorted_wrt_append)
  moreover have "map (\<lambda>r. the (envelope_from_value K (ob_envelope r))) ys = map (stored_envelope K) es"
    using ys(2) by (induction rule: list_all2_induct) (simp_all add: queued_def)
  ultimately show ?thesis by (simp add: outbox_envelopes_def ys(1))
qed

theorem relay_delivers_in_order_witness:
  "\<exists>d'. relay_once sample_pg printing_sink 64 (\<lambda>_. False) (sample_db sample_running, []) =
      (Ok 3, d', [(JobId 1, 1, ''enqueued''), (JobId 1, 2, ''leased''), (JobId 1, 3, ''started'')])"
proof -
  obtain job where "append_in_tx sample_pg (JobId 1) 0 sample_running pg_empty = Ok (job, sample_db sample_running)"
    using sample_appends(3) by (auto simp: pg_append_eq_Ok)
  from outbox_ok_append [OF pg_inv_empty [OF sample_pg_ok] outbox_ok_empty this]
  have ob: "outbox_ok sample_pg (sample_db sample_running)"
      "outbox_envelopes sample_pg (sample_db sample_running) = sample_running"
    by (simp_all add: outbox_envelopes_def pg_empty_def)
       (simp add: sample_streams sample_envelope_def stored_envelope_exact exact_event_def sample_enqueued_def)
  have lines: "map printed_line sample_running =
      [(JobId 1, 1, ''enqueued''), (JobId 1, 2, ''leased''), (JobId 1, 3, ''started'')]"
    by (simp add: sample_streams sample_envelope_def printed_line_def sample_enqueued_def)
  have len: "length sample_running = 3" by (simp add: sample_streams)
  then have t: "take (nat 64) sample_running = sample_running" "sample_running \<noteq> []" by auto
  show ?thesis
    using relay_delivers_in_order [OF ob(1), of 64 printing_sink "[]"]
    by (auto simp: ob(2) t printing_sink_eq lines len u32_len_def)
qed

end
