(* ===== verification/Postgres_Dispatcher.thy ===== *)
theory Postgres_Dispatcher
  imports Postgres_Properties
begin

text \<open>
  The Postgres dispatcher of \<open>koine-store-postgres/src/dispatcher.rs\<close>: claim, lease extension
  and lease retirement, each one transaction.  \<open>busy\<close> tells the rows that other transactions
  hold locked when the query runs, which \<open>FOR UPDATE SKIP LOCKED\<close> passes over; it is an
  arbitrary parameter of claim and retirement.
\<close>

section \<open>Queries\<close>

text \<open>\<open>ORDER BY ... LIMIT 1\<close> for an order \<open>le\<close>.\<close>

definition limit_one :: "('a \<Rightarrow> 'a \<Rightarrow> bool) \<Rightarrow> 'a list \<Rightarrow> 'a option" where
  "limit_one le rows = max_by (\<lambda>a b. le b a) rows"

text \<open>\<open>ORDER BY priority DESC, seq\<close> and \<open>ORDER BY lease_expires_at, job_id\<close>.\<close>

definition claim_order :: "JobId \<times> dispatch_row \<Rightarrow> JobId \<times> dispatch_row \<Rightarrow> bool" where
  "claim_order a b \<longleftrightarrow>
     dr_priority (snd b) < dr_priority (snd a)
     \<or> (dr_priority (snd a) = dr_priority (snd b) \<and> dr_seq (snd a) \<le> dr_seq (snd b))"

definition deadline_of :: "dispatch_row \<Rightarrow> date_time" where
  "deadline_of row = (case dr_lease_expires_at row of Some t \<Rightarrow> t | None \<Rightarrow> 0)"

definition expiry_order :: "JobId \<times> dispatch_row \<Rightarrow> JobId \<times> dispatch_row \<Rightarrow> bool" where
  "expiry_order a b \<longleftrightarrow>
     deadline_of (snd a) < deadline_of (snd b)
     \<or> (deadline_of (snd a) = deadline_of (snd b) \<and> fst a \<le> fst b)"

definition row_eligible :: "QueueName \<Rightarrow> date_time \<Rightarrow> dispatch_row \<Rightarrow> bool" where
  "row_eligible queue now row \<longleftrightarrow>
     dr_queue row = queue_str queue \<and> dr_lease_id row = None \<and> is_none_or (\<lambda>t. t \<le> now) (dr_not_before row)"

definition row_expired :: "date_time \<Rightarrow> dispatch_row \<Rightarrow> bool" where
  "row_expired now row \<longleftrightarrow>
     dr_lease_id row \<noteq> None \<and> (case dr_lease_expires_at row of Some t \<Rightarrow> t \<le> now | None \<Rightarrow> False)"

definition select_claim ::
  "('v, 'j) pg \<Rightarrow> (JobId \<Rightarrow> bool) \<Rightarrow> QueueName \<Rightarrow> date_time \<Rightarrow> 'j pg_db \<Rightarrow> (JobId option, EventStoreError) outcome"
where
  "select_claim K locked_row queue now d =
     (case timestamptz K now of
        None \<Rightarrow> Err (db sql_refused)
      | Some now \<Rightarrow>
          if \<not> pg_text (queue_str queue) then Err (db sql_refused)
          else Ok (map_option fst (limit_one claim_order
                 (filter (\<lambda>(k, row). row_eligible queue now row \<and> \<not> locked_row k) (db_dispatch_queue d)))))"

definition select_expired ::
  "('v, 'j) pg \<Rightarrow> (JobId \<Rightarrow> bool) \<Rightarrow> date_time \<Rightarrow> 'j pg_db \<Rightarrow> (JobId option, EventStoreError) outcome" where
  "select_expired K locked_row now d =
     (case timestamptz K now of
        None \<Rightarrow> Err (db sql_refused)
      | Some now \<Rightarrow>
          Ok (map_option fst (limit_one expiry_order
            (filter (\<lambda>(k, row). row_expired now row \<and> \<not> locked_row k) (db_dispatch_queue d)))))"

section \<open>The dispatcher\<close>

type_synonym ('j, 'e) pg_world = "'j pg_db \<times> 'e"
type_synonym ('j, 'e) row_locks = "'j pg_db \<Rightarrow> 'e \<Rightarrow> JobId \<Rightarrow> bool"

definition pg_claim ::
  "chrono \<Rightarrow> 'e runtime \<Rightarrow> ('v, 'j) pg \<Rightarrow> ('j, 'e) row_locks \<Rightarrow> QueueName \<Rightarrow> WorkerId \<Rightarrow> duration
   \<Rightarrow> ('j, 'e) pg_world \<Rightarrow> ('v LeasedJob option, DispatchError) outcome \<times> ('j, 'e) pg_world" where
  "pg_claim C rt K busy queue worker ttl w =
     (let (d, e) = w; (now, e) = clock_now rt e
      in case select_claim K (busy d e) queue now d of
           Err x \<Rightarrow> (Err (DispatchStore x), d, e)
         | Panic \<Rightarrow> (Panic, d, e)
         | Ok None \<Rightarrow> (Ok None, d, e)
         | Ok (Some jid) \<Rightarrow>
        (case load_in_tx K jid d of
           Err x \<Rightarrow> (Err (DispatchStore x), d, e)
         | Panic \<Rightarrow> (Panic, d, e)
         | Ok stream \<Rightarrow>
        (case from_events stream of
           Err x \<Rightarrow> (Err (DispatchStore (StoreBackend (Msg_error ''fold'' x))), d, e)
         | Panic \<Rightarrow> (Panic, d, e)
         | Ok job \<Rightarrow>
             let (lease_id, e) = new_lease_id rt e
             in case lease C job worker lease_id now ttl of
                  Err x \<Rightarrow> (Err (DispatchStore (StoreBackend (Msg_error ''index/state drift'' x))), d, e)
                | Panic \<Rightarrow> (Panic, d, e)
                | Ok event \<Rightarrow>
                    let (correlation_id, causation_id, traceparent) = lineage_of stream;
                        (envelopes, e) = wrap_events rt jid (job_version job) correlation_id causation_id
                                           traceparent [event] e
                    in case envelopes of
                         [] \<Rightarrow> (Panic, d, e)
                       | first # _ \<Rightarrow>
                           (case env_event first of
                              E_Leased _ _ expires_at \<Rightarrow>
                                (case append_in_tx K jid (job_version job) envelopes d of
                                   Ok (folded, d) \<Rightarrow>
                                     (Ok (Some \<lparr>lj_job_id = jid, lj_queue = job_queue folded,
                                                lj_payload = job_payload folded, lj_attempt = job_attempt folded,
                                                lj_lease = lease_id, lj_expires_at = expires_at,
                                                lj_correlation_id = correlation_id,
                                                lj_traceparent = traceparent\<rparr>), d, e)
                                 | Err x \<Rightarrow> (Err (DispatchStore x), d, e)
                                 | Panic \<Rightarrow> (Panic, d, e))
                            | _ \<Rightarrow> (Err (DispatchStore (StoreBackend (Msg ''lease produced non-lease''))), d, e)))))"

definition pg_retire_one ::
  "chrono \<Rightarrow> 'e runtime \<Rightarrow> ('v, 'j) pg \<Rightarrow> ('j, 'e) row_locks \<Rightarrow> ('j, 'e) pg_world
   \<Rightarrow> (JobId option, DispatchError) outcome \<times> ('j, 'e) pg_world" where
  "pg_retire_one C rt K busy w =
     (let (d, e) = w; (now, e) = clock_now rt e
      in case select_expired K (busy d e) now d of
           Err x \<Rightarrow> (Err (DispatchStore x), d, e)
         | Panic \<Rightarrow> (Panic, d, e)
         | Ok None \<Rightarrow> (Ok None, d, e)
         | Ok (Some jid) \<Rightarrow>
        (case load_in_tx K jid d of
           Err x \<Rightarrow> (Err (DispatchStore x), d, e)
         | Panic \<Rightarrow> (Panic, d, e)
         | Ok stream \<Rightarrow>
        (case from_events stream of
           Err x \<Rightarrow> (Err (DispatchDomain x), d, e)
         | Panic \<Rightarrow> (Panic, d, e)
         | Ok job \<Rightarrow>
             let (seed, e) = jitter_seed rt e
             in case expire_lease C job now seed of
                  Err x \<Rightarrow> (Err (DispatchDomain x), d, e)
                | Panic \<Rightarrow> (Panic, d, e)
                | Ok events \<Rightarrow>
                    let (correlation_id, causation_id, traceparent) = lineage_of stream;
                        (envelopes, e) = wrap_events rt jid (job_version job) correlation_id causation_id
                                           traceparent events e
                    in case append_in_tx K jid (job_version job) envelopes d of
                         Ok (_, d) \<Rightarrow> (Ok (Some jid), d, e)
                       | Err x \<Rightarrow> (Err (DispatchStore x), d, e)
                       | Panic \<Rightarrow> (Panic, d, e))))"

definition extends_row :: "LeaseId \<Rightarrow> date_time \<Rightarrow> dispatch_row \<Rightarrow> bool" where
  "extends_row lease_id now row \<longleftrightarrow>
     dr_lease_id row = Some lease_id \<and> (case dr_lease_expires_at row of Some t \<Rightarrow> t > now | None \<Rightarrow> False)"

definition update_deadline :: "LeaseId \<Rightarrow> date_time \<Rightarrow> date_time \<Rightarrow> 'j pg_db \<Rightarrow> nat \<times> 'j pg_db" where
  "update_deadline lease_id now deadline d =
     (length (filter (\<lambda>(k, row). extends_row lease_id now row) (db_dispatch_queue d)),
      d\<lparr>db_dispatch_queue :=
          map (\<lambda>(k, row). (k, if extends_row lease_id now row then row\<lparr>dr_lease_expires_at := Some deadline\<rparr> else row))
            (db_dispatch_queue d)\<rparr>)"

definition pg_extend_lease ::
  "chrono \<Rightarrow> 'e runtime \<Rightarrow> ('v, 'j) pg \<Rightarrow> LeaseId \<Rightarrow> duration \<Rightarrow> ('j, 'e) pg_world
   \<Rightarrow> (bool, DispatchError) outcome \<times> ('j, 'e) pg_world" where
  "pg_extend_lease C rt K lease_id ttl w =
     (let (d, e) = w
      in case from_std C ttl of
           None \<Rightarrow> (Err (DispatchBackend (Msg ''ttl out of range'')), d, e)
         | Some delta \<Rightarrow>
             let (now, e) = clock_now rt e
             in case plus_or_panic C now delta of
                  Err x \<Rightarrow> (Err x, d, e)
                | Panic \<Rightarrow> (Panic, d, e)
                | Ok deadline \<Rightarrow>
                    (case (timestamptz K deadline, timestamptz K now) of
                       (Some deadline, Some now) \<Rightarrow>
                         let (rows_affected, d) = update_deadline lease_id now deadline d
                         in (Ok (rows_affected > 0), d, e)
                     | _ \<Rightarrow> (Err (DispatchStore (db sql_refused)), d, e)))"

definition pg_dispatcher ::
  "chrono \<Rightarrow> 'e runtime \<Rightarrow> ('v, 'j) pg \<Rightarrow> ('j, 'e) row_locks \<Rightarrow> (('j, 'e) pg_world, 'v) dispatcher" where
  "pg_dispatcher C rt K busy =
     \<lparr>lease_next = pg_claim C rt K busy,
      extend_lease = pg_extend_lease C rt K,
      retire_next_expired_lease = pg_retire_one C rt K busy\<rparr>"

section \<open>Facts about the queries\<close>

lemma limit_one_None: "limit_one le xs = None \<longleftrightarrow> xs = []"
  by (simp add: limit_one_def)

lemma limit_one_Some:
  assumes "transp le" and "\<forall>a b. le a b \<or> le b a" and "limit_one le xs = Some m"
  shows "m \<in> set xs \<and> (\<forall>y \<in> set xs. le m y)"
proof -
  have "transp (\<lambda>a b. le b a)"
    using assms(1) by (auto simp: transp_def)
  with max_by_eq_Some [of "\<lambda>a b. le b a" xs m] assms(2,3) show ?thesis
    by (auto simp: limit_one_def)
qed

lemma claim_order_trans: "transp claim_order"
  and claim_order_total: "\<forall>a b. claim_order a b \<or> claim_order b a"
  and expiry_order_trans: "transp expiry_order"
  and expiry_order_total: "\<forall>a b. expiry_order a b \<or> expiry_order b a"
  by (auto simp: transp_def claim_order_def expiry_order_def)

lemma dispatch_member:
  assumes "pg_inv K d"
  shows "(k, row) \<in> set (db_dispatch_queue d) \<longleftrightarrow> map_of (db_dispatch_queue d) k = Some row"
  using assms by (simp add: pg_inv_def dispatch_ok_def)

lemma select_claim_Some:
  assumes "pg_inv K d" and "select_claim K locked_row queue now d = Ok (Some k)"
  obtains now' row where "timestamptz K now = Some now'" "map_of (db_dispatch_queue d) k = Some row"
    "row_eligible queue now' row" "\<not> locked_row k"
    "\<And>k' row'. map_of (db_dispatch_queue d) k' = Some row' \<Longrightarrow> row_eligible queue now' row' \<Longrightarrow> \<not> locked_row k' \<Longrightarrow>
       claim_order (k, row) (k', row')"
proof -
  from assms(2) obtain now' row where sel: "timestamptz K now = Some now'"
      "limit_one claim_order (filter (\<lambda>(k, row). row_eligible queue now' row \<and> \<not> locked_row k) (db_dispatch_queue d)) = Some (k, row)"
    by (auto simp: select_claim_def split: option.splits if_splits)
  from limit_one_Some [OF claim_order_trans claim_order_total sel(2)] sel(1) show thesis
    by (intro that [of now' row]) (auto simp: dispatch_member [OF assms(1)])
qed

lemma select_expired_Some:
  assumes "pg_inv K d" and "select_expired K locked_row now d = Ok (Some k)"
  obtains now' row where "timestamptz K now = Some now'" "map_of (db_dispatch_queue d) k = Some row"
    "row_expired now' row" "\<not> locked_row k"
    "\<And>k' row'. map_of (db_dispatch_queue d) k' = Some row' \<Longrightarrow> row_expired now' row' \<Longrightarrow> \<not> locked_row k' \<Longrightarrow>
       expiry_order (k, row) (k', row')"
proof -
  from assms(2) obtain now' row where sel: "timestamptz K now = Some now'"
      "limit_one expiry_order (filter (\<lambda>(k, row). row_expired now' row \<and> \<not> locked_row k) (db_dispatch_queue d)) = Some (k, row)"
    by (auto simp: select_expired_def split: option.splits)
  from limit_one_Some [OF expiry_order_trans expiry_order_total sel(2)] sel(1) show thesis
    by (intro that [of now' row]) (auto simp: dispatch_member [OF assms(1)])
qed

lemma dispatch_row_job:
  assumes "pg_inv K d" and "map_of (db_dispatch_queue d) k = Some row"
  obtains job where "from_events (pg_hist K d k) = Ok job" "job_id job = k" "row_fields K job row"
proof -
  have "stream_ok K d k" using assms(1) by (rule pg_inv_stream)
  with assms(2) that show thesis by (auto simp: stream_ok_def row_matches_def split: if_splits)
qed

section \<open>The composite transactions\<close>

lemma append_wrapped:
  assumes "pg_inv K d" and "from_events (pg_hist K d k) = Ok job" and "lineage_of (pg_hist K d k) = (corr, caus, trace)"
    and "wrap_events rt k (job_version job) corr caus trace evs e = (es, e')" and "apply_all job evs = Ok job'"
    and "append_in_tx K k (job_version job) es d = Ok (folded, d')" and exact: "\<forall>ev \<in> set evs. exact_event ev"
  shows "folded = job' \<and> pg_inv K d' \<and> extends (pg_hist K d) k evs (pg_hist K d')
    \<and> from_events (pg_hist K d' k) = Ok job' \<and> row_projected K job' (map_of (db_dispatch_queue d') k)"
proof -
  note w = wrap_events_wrapped [OF assms(4)]
  have v: "job_version job = of_nat (length (pg_hist K d k))"
    using from_events_frame [OF assms(2)] by simp
  note a = append_in_tx_inv [OF assms(1,6)]
  then obtain es' where es': "list_all2 kept_as es es'" "pg_hist K d' = (pg_hist K d)(k := pg_hist K d k @ es')"
    by blast
  have "from_events (pg_hist K d k @ es) = Ok job'"
    using assms(2,5) wrappedD(1,2) [OF w] by (simp add: from_events_snoc_cases)
  moreover have "\<forall>x \<in> set es. \<not> replaces_payload (env_event x)"
    using exact exact_event_keeps_payload [where 'a = 'a] wrappedD(1) [OF w] by auto
  ultimately have f: "from_events (pg_hist K d' k) = Ok job'"
    using from_events_append_kept [OF assms(2) es'(1)] by (simp add: es'(2))
  moreover have "extends (pg_hist K d) k evs (pg_hist K d')"
    using w wrapped_kept [OF es'(1) _ exact] by (auto simp: extends_def assms(3) es'(2) v)
  ultimately show ?thesis using a by simp
qed

lemma pg_claim_cases:
  fixes d :: "'j pg_db" and K :: "('v, 'j) pg"
  assumes inv: "pg_inv K d" and now: "clock_now rt e = (now, e1)" and l: "new_lease_id rt e1 = (l, e2)"
    and run: "pg_claim C rt K busy queue worker ttl (d, e) = (r, d', e')"
  obtains
    (none) "select_claim K (busy d e1) queue now d = Ok None" "r = Ok None" "d' = d"
  | (err) x where "r = Err x" "d' = d"
  | (panic) "r = Panic" "d' = d"
  | (leased) k job x where "select_claim K (busy d e1) queue now d = Ok (Some k)"
      "from_events (pg_hist K d k) = Ok job" "job_id job = k" "due job queue now"
      "r = Ok (Some (leased_job_of k job (pg_hist K d k) l x))" "pg_inv K d'"
      "extends (pg_hist K d) k [E_Leased worker l x] (pg_hist K d')"
      "from_events (pg_hist K d' k) =
         Ok (job\<lparr>job_state := S_Leased worker l x, job_version := job_version job + 1\<rparr>)"
      "lease C job worker l now ttl = Ok (E_Leased worker l x)"
proof (cases "select_claim K (busy d e1) queue now d")
  case (Ok sel)
  show thesis
  proof (cases sel)
    case None
    show thesis by (rule that(1)) (use Ok None run now in \<open>simp_all add: pg_claim_def\<close>)
  next
    case (Some k)
    with Ok have sel: "select_claim K (busy d e1) queue now d = Ok (Some k)" by simp
    obtain now' row where row: "map_of (db_dispatch_queue d) k = Some row" "row_eligible queue now' row"
      by (rule select_claim_Some [OF inv sel])
    obtain job where job: "from_events (pg_hist K d k) = Ok job" "job_id job = k" "row_fields K job row"
      by (rule dispatch_row_job [OF inv row(1)])
    have queue: "job_queue job = queue"
      using row(2) job(3) by (auto simp: row_eligible_def row_fields_def intro: QueueName.expand)
    note load = load_rows_ok(1) [OF pg_inv_rows [OF inv], of k]
    obtain corr caus trace where lin: "lineage_of (pg_hist K d k) = (corr, caus, trace)" by (metis surj_pair)
    show thesis
    proof (cases "lease C job worker l now ttl")
      case (Ok event)
      then obtain x where ev: "event = E_Leased worker l x" and due: "due job queue now"
        using queue by (auto simp: lease_eq_Ok due_def)
      with Ok have lease: "lease C job worker l now ttl = Ok (E_Leased worker l x)" by simp
      obtain es :: "'v stream" and e3 where es: "wrap_events rt k (job_version job) corr caus trace [E_Leased worker l x] e2 = (es, e3)"
        by fastforce
      then obtain env where env: "es = [env]" "env_event env = E_Leased worker l x"
        using wrappedD(1) [OF wrap_events_wrapped [OF es]] by auto
      show thesis
      proof (cases "append_in_tx K k (job_version job) es d")
        case (Ok p)
        then obtain folded d1 where p: "append_in_tx K k (job_version job) es d = Ok (folded, d1)" by (cases p) simp
        have "\<forall>ev \<in> set [E_Leased worker l x]. exact_event ev" by (simp add: exact_event_def)
        note a = append_wrapped [OF inv job(1) lin es due_lease_applies [OF due] p this]
        have r: "r = Ok (Some (leased_job_of k job (pg_hist K d k) l x))" "d' = d1"
          using run a p by (simp_all add: pg_claim_def now sel load job(1) l lease lin es env leased_job_of_def)
        show thesis
          by (rule that(4) [OF sel job(1,2) due r(1)]) (use a r(2) lease in simp_all)
      next
        case (Err y)
        with run that(2) show thesis
          by (auto simp: pg_claim_def now sel load job(1) l lease lin es env)
      next
        case Panic
        then show thesis using append_in_tx_not_Panic by blast
      qed
    next
      case (Err y)
      with run that(2) show thesis by (auto simp: pg_claim_def now sel load job(1) l)
    next
      case Panic
      with run that(3) show thesis by (auto simp: pg_claim_def now sel load job(1) l)
    qed
  qed
next
  case (Err y)
  with run that(2) show thesis by (auto simp: pg_claim_def now)
next
  case Panic
  then show thesis by (simp add: select_claim_def split: option.splits if_splits)
qed

lemma pg_retire_cases:
  fixes d :: "'j pg_db" and K :: "('v, 'j) pg"
  assumes inv: "pg_inv K d" and now: "clock_now rt e = (now, e1)" and seed: "jitter_seed rt e1 = (seed, e2)"
    and run: "pg_retire_one C rt K busy (d, e) = (r, d', e')"
  obtains
    (none) "select_expired K (busy d e1) now d = Ok None" "r = Ok None" "d' = d"
  | (err) x where "r = Err x" "d' = d"
  | (retired) k job evs job' where "select_expired K (busy d e1) now d = Ok (Some k)"
      "from_events (pg_hist K d k) = Ok job" "job_id job = k" "held_lease (job_state job) \<noteq> None"
      "expire_lease C job now seed = Ok evs" "apply_all job evs = Ok job'" "r = Ok (Some k)" "pg_inv K d'"
      "extends (pg_hist K d) k evs (pg_hist K d')" "from_events (pg_hist K d' k) = Ok job'"
proof (cases "select_expired K (busy d e1) now d")
  case (Ok sel)
  show thesis
  proof (cases sel)
    case None
    show thesis by (rule that(1)) (use Ok None run now in \<open>simp_all add: pg_retire_one_def\<close>)
  next
    case (Some k)
    with Ok have sel: "select_expired K (busy d e1) now d = Ok (Some k)" by simp
    obtain now' row where row: "map_of (db_dispatch_queue d) k = Some row" "row_expired now' row"
      by (rule select_expired_Some [OF inv sel])
    obtain job where job: "from_events (pg_hist K d k) = Ok job" "job_id job = k" "row_fields K job row"
      by (rule dispatch_row_job [OF inv row(1)])
    have held: "held_lease (job_state job) \<noteq> None"
      using job(3) row(2) by (auto simp: row_fields_def row_expired_def held_lease_def split: JobState.splits)
    note load = load_rows_ok(1) [OF pg_inv_rows [OF inv], of k]
    obtain corr caus trace where lin: "lineage_of (pg_hist K d k) = (corr, caus, trace)" by (metis surj_pair)
    show thesis
    proof (cases "expire_lease C job now seed")
      case (Ok evs)
      obtain es e3 where es: "wrap_events rt k (job_version job) corr caus trace evs e2 = (es, e3)" by fastforce
      obtain job' where app: "apply_all job evs = Ok job'"
        using expire_lease_applies [OF Ok] by auto
      show thesis
      proof (cases "append_in_tx K k (job_version job) es d")
        case (Ok p)
        then obtain folded d1 where p: "append_in_tx K k (job_version job) es d = Ok (folded, d1)" by (cases p) simp
        have "\<forall>ev \<in> set evs. exact_event ev"
          by (rule command_exact [of C job "Cmd_Expire now seed"]) (simp_all add: \<open>expire_lease C job now seed = Ok evs\<close>)
        note a = append_wrapped [OF inv job(1) lin es app p this]
        have r: "r = Ok (Some k)" "d' = d1"
          using run by (simp_all add: pg_retire_one_def now sel load job(1) seed \<open>expire_lease C job now seed = Ok evs\<close> lin es p)
        show thesis
          by (rule that(3) [OF sel job(1,2) held \<open>expire_lease C job now seed = Ok evs\<close> app r(1)]) (use a r(2) in simp_all)
      next
        case (Err y)
        with run that(2) show thesis
          by (auto simp: pg_retire_one_def now sel load job(1) seed Ok lin es)
      next
        case Panic
        then show thesis using append_in_tx_not_Panic by blast
      qed
    next
      case (Err y)
      with run that(2) show thesis by (auto simp: pg_retire_one_def now sel load job(1) seed)
    next
      case Panic
      then show thesis by simp
    qed
  qed
next
  case (Err y)
  with run that(2) show thesis by (auto simp: pg_retire_one_def now)
next
  case Panic
  then show thesis by (simp add: select_expired_def split: option.splits if_splits)
qed

section \<open>Extension\<close>

lemma update_deadline_row:
  "map_of (db_dispatch_queue (snd (update_deadline l now dl d))) k =
     map_option (\<lambda>row. if extends_row l now row then row\<lparr>dr_lease_expires_at := Some dl\<rparr> else row)
       (map_of (db_dispatch_queue d) k)"
  by (simp add: update_deadline_def map_of_map o_def)

lemma update_deadline_frame:
  "stream_rows (snd (update_deadline l now dl d)) j = stream_rows d j"
  "pg_hist K (snd (update_deadline l now dl d)) j = pg_hist K d j"
proof -
  show r: "stream_rows (snd (update_deadline l now dl d)) j = stream_rows d j"
    by (simp add: update_deadline_def stream_rows_def)
  show "pg_hist K (snd (update_deadline l now dl d)) j = pg_hist K d j"
    by (rule pg_hist_cong [OF r])
qed

lemma extended_row_matches:
  assumes "row_matches K job orow"
  shows "row_matches K job
    (map_option (\<lambda>row. if extends_row l now row then row\<lparr>dr_lease_expires_at := Some dl\<rparr> else row) orow)"
  using assms
  by (cases orow) (auto simp: row_matches_def row_fields_def extends_row_def split: JobState.splits)

lemma dispatch_ok_same_seq:
  assumes "map fst (db_dispatch_queue d') = map fst (db_dispatch_queue d)" and "db_dispatch_seq d' = db_dispatch_seq d"
    and "\<And>k row. map_of (db_dispatch_queue d') k = Some row \<Longrightarrow>
           \<exists>old. map_of (db_dispatch_queue d) k = Some old \<and> dr_seq old = dr_seq row"
    and "dispatch_ok d"
  shows "dispatch_ok d'"
  unfolding dispatch_ok_def
proof (intro conjI allI impI)
  show "distinct (map fst (db_dispatch_queue d'))" using assms(1,4) by (simp add: dispatch_ok_def)
next
  fix k r
  assume "map_of (db_dispatch_queue d') k = Some r"
  from assms(3) [OF this] obtain old where "map_of (db_dispatch_queue d) k = Some old" "dr_seq old = dr_seq r" by blast
  moreover have "\<forall>k r. map_of (db_dispatch_queue d) k = Some r \<longrightarrow> dr_seq r \<le> db_dispatch_seq d"
    using assms(4) unfolding dispatch_ok_def by blast
  ultimately show "dr_seq r \<le> db_dispatch_seq d'" using assms(2) by metis
next
  fix k k' r r'
  assume a: "map_of (db_dispatch_queue d') k = Some r \<and> map_of (db_dispatch_queue d') k' = Some r' \<and> dr_seq r = dr_seq r'"
  then obtain o1 o2 where o: "map_of (db_dispatch_queue d) k = Some o1" "map_of (db_dispatch_queue d) k' = Some o2"
      "dr_seq o1 = dr_seq o2"
    using assms(3) [of k r] assms(3) [of k' r'] by auto
  from assms(4) have "\<forall>k k' r r'. map_of (db_dispatch_queue d) k = Some r \<and> map_of (db_dispatch_queue d) k' = Some r'
      \<and> dr_seq r = dr_seq r' \<longrightarrow> k = k'"
    unfolding dispatch_ok_def by blast
  with o show "k = k'" by blast
qed

lemma update_deadline_inv:
  assumes "pg_inv K d"
  shows "pg_inv K (snd (update_deadline l now dl d))"
proof -
  let ?d = "snd (update_deadline l now dl d)"
  have ok: "dispatch_ok d" using assms by (simp add: pg_inv_def)
  have "map fst (db_dispatch_queue ?d) = map fst (db_dispatch_queue d)"
    by (simp add: update_deadline_def case_prod_beta)
  moreover have "db_dispatch_seq ?d = db_dispatch_seq d"
    by (simp add: update_deadline_def)
  moreover have "\<exists>old. map_of (db_dispatch_queue d) k = Some old \<and> dr_seq old = dr_seq row"
    if "map_of (db_dispatch_queue ?d) k = Some row" for k row
    using that by (auto simp: update_deadline_row)
  ultimately have "dispatch_ok ?d"
    using dispatch_ok_same_seq [of ?d d] ok by blast
  moreover have "stream_ok K ?d j" for j
    using pg_inv_stream [OF assms, of j] extended_row_matches
    by (auto simp: stream_ok_def update_deadline_frame update_deadline_row split: if_splits)
  ultimately show ?thesis
    using assms by (simp add: pg_inv_def)
qed

lemma leased_row_held:
  assumes "pg_inv K d" and "map_of (db_dispatch_queue d) k = Some row" and "dr_lease_id row = Some l"
  shows "held (pg_hist K d k) = Some l"
proof -
  obtain job where "from_events (pg_hist K d k) = Ok job" "row_fields K job row"
    by (rule dispatch_row_job [OF assms(1,2)])
  with assms(3) show ?thesis
    by (auto simp: held_Ok held_lease_def row_fields_def split: JobState.splits)
qed

lemma pg_extend_cases:
  assumes "pg_extend_lease C rt K l ttl (d, e) = (r, d', e')" and "clock_now rt e = (now, e1)"
  obtains (none) "\<forall>b. r \<noteq> Ok b" "d' = d"
  | (updated) delta x x' now' where "from_std C ttl = Some delta" "checked_add_signed C now delta = Some x"
      "timestamptz K x = Some x'" "timestamptz K now = Some now'"
      "r = Ok (\<exists>(k, row) \<in> set (db_dispatch_queue d). extends_row l now' row)" "d' = snd (update_deadline l now' x' d)"
proof (cases "from_std C ttl")
  case None
  with assms that(1) show thesis by (auto simp: pg_extend_lease_def)
next
  case (Some delta)
  show thesis
  proof (cases "checked_add_signed C now delta")
    case None
    with assms Some that(1) show thesis by (auto simp: pg_extend_lease_def plus_or_panic_def)
  next
    case (Some x)
    with \<open>from_std C ttl = Some delta\<close> assms have run: "(case (timestamptz K x, timestamptz K now) of
         (Some deadline, Some now) \<Rightarrow>
           let (rows_affected, d) = update_deadline l now deadline d in (Ok (rows_affected > 0), d, e1)
       | _ \<Rightarrow> (Err (DispatchStore (db sql_refused)), d, e1)) = (r, d', e')"
      by (simp add: pg_extend_lease_def plus_or_panic_def)
    show thesis
    proof (cases "timestamptz K x = None \<or> timestamptz K now = None")
      case True
      with run that(1) show thesis by (auto split: option.splits)
    next
      case False
      then obtain x' now' where t: "timestamptz K x = Some x'" "timestamptz K now = Some now'" by auto
      show thesis
        by (rule that(2) [OF \<open>from_std C ttl = Some delta\<close> Some t])
           (use run t in \<open>auto simp: update_deadline_def filter_empty_conv\<close>)
    qed
  qed
qed

section \<open>The Postgres dispatcher implements the contract\<close>

definition pg_winv :: "('v, 'j) pg \<Rightarrow> ('j, 'e) pg_world \<Rightarrow> bool" where
  "pg_winv K w = pg_inv K (fst w)"

definition pg_whist :: "('v, 'j) pg \<Rightarrow> ('j, 'e) pg_world \<Rightarrow> JobId \<Rightarrow> 'v stream" where
  "pg_whist K w = pg_hist K (fst w)"

lemma pg_finite_held:
  assumes "pg_winv K w"
  shows "finite {j. held (pg_whist K w j) \<noteq> None}"
proof (rule finite_subset)
  show "{j. held (pg_whist K w j) \<noteq> None} \<subseteq> er_stream_id ` set (db_events (fst w))"
  proof
    fix j
    assume "j \<in> {j. held (pg_whist K w j) \<noteq> None}"
    then have "pg_hist K (fst w) j \<noteq> []"
      by (auto simp: pg_whist_def held_def from_events_def)
    with pg_hist_Nil assms show "j \<in> er_stream_id ` set (db_events (fst w))"
      unfolding known_stream_iff pg_winv_def by blast
  qed
qed simp

lemma pg_claim_Some_law:
  assumes "pg_winv K w" and "pg_claim C rt K busy q worker ttl w = (Ok (Some lj), w')"
  shows "pg_winv K w' \<and> held (pg_whist K w (lj_job_id lj)) = None
    \<and> held (pg_whist K w' (lj_job_id lj)) = Some (lj_lease lj)
    \<and> (\<exists>e. env_event e = E_Leased worker (lj_lease lj) (lj_expires_at lj)
          \<and> pg_whist K w' = (pg_whist K w)(lj_job_id lj := pg_whist K w (lj_job_id lj) @ [e]))"
proof -
  obtain d e d' e' where w: "w = (d, e)" "w' = (d', e')" by (metis surj_pair)
  obtain now e1 l e2 where r: "clock_now rt e = (now, e1)" "new_lease_id rt e1 = (l, e2)" by (metis surj_pair)
  have inv: "pg_inv K d" using assms(1) by (simp add: w pg_winv_def)
  have run: "pg_claim C rt K busy q worker ttl (d, e) = (Ok (Some lj), d', e')" using assms(2) by (simp add: w)
  from inv r run show ?thesis
  proof (cases rule: pg_claim_cases)
    case (leased k job x)
    then have lj: "lj_job_id lj = k" "lj_lease lj = l" "lj_expires_at lj = x" by (simp_all add: leased_job_of_def)
    obtain es where es: "pg_hist K d' = (pg_hist K d)(k := pg_hist K d k @ es)" "map env_event es = [E_Leased worker l x]"
      using leased(7) by (rule extends_events)
    then obtain ev where ev: "es = [ev]" "env_event ev = E_Leased worker l x" by auto
    have "held (pg_hist K d k) = None" using held_Ok [OF leased(2)] due_unleased [OF leased(4)] by simp
    moreover have "held (pg_hist K d' k) = Some l" using held_Ok [OF leased(8)] by (simp add: held_lease_def)
    ultimately show ?thesis
      using leased(6) es(1) ev unfolding lj pg_whist_def pg_winv_def w by (intro conjI exI [of _ ev]) simp_all
  qed simp_all
qed

lemma pg_claim_same_law:
  assumes "pg_winv K w" and "pg_claim C rt K busy q worker ttl w = (r, w')" and "r = Ok None \<or> (\<exists>x. r = Err x)"
  shows "pg_winv K w' \<and> pg_whist K w' = pg_whist K w"
proof -
  obtain d e d' e' where w: "w = (d, e)" "w' = (d', e')" by (metis surj_pair)
  obtain now e1 l e2 where s: "clock_now rt e = (now, e1)" "new_lease_id rt e1 = (l, e2)" by (metis surj_pair)
  have inv: "pg_inv K d" using assms(1) by (simp add: w pg_winv_def)
  have run: "pg_claim C rt K busy q worker ttl (d, e) = (r, d', e')" using assms(2) by (simp add: w)
  have "d' = d" by (rule pg_claim_cases [OF inv s run]) (use assms(3) in simp_all)
  with inv show ?thesis by (simp add: w pg_winv_def pg_whist_def)
qed

lemma pg_extend_Ok_law:
  assumes "pg_winv K w" and "pg_extend_lease C rt K l ttl w = (Ok b, w')"
  shows "pg_winv K w' \<and> pg_whist K w' = pg_whist K w \<and> (b \<longrightarrow> (\<exists>j. held (pg_whist K w j) = Some l))"
proof -
  obtain d e d' e' where w: "w = (d, e)" "w' = (d', e')" by (metis surj_pair)
  obtain now e1 where now: "clock_now rt e = (now, e1)" by (metis surj_pair)
  have inv: "pg_inv K d" using assms(1) by (simp add: w pg_winv_def)
  have run: "pg_extend_lease C rt K l ttl (d, e) = (Ok b, d', e')" using assms(2) by (simp add: w)
  from run now show ?thesis
  proof (cases rule: pg_extend_cases)
    case (updated delta x x' now')
    have "\<exists>j. held (pg_hist K d j) = Some l" if b
    proof -
      from that updated(5) obtain k row where row: "(k, row) \<in> set (db_dispatch_queue d)" "extends_row l now' row" by auto
      then have "map_of (db_dispatch_queue d) k = Some row" "dr_lease_id row = Some l"
        by (simp_all add: dispatch_member [OF inv] extends_row_def)
      from leased_row_held [OF inv this] show ?thesis by blast
    qed
    with updated(6) update_deadline_inv [OF inv] update_deadline_frame(2) show ?thesis
      by (auto simp: w pg_winv_def pg_whist_def fun_eq_iff)
  qed blast
qed

lemma pg_retire_Some_law:
  assumes "pg_winv K w" and "pg_retire_one C rt K busy w = (Ok (Some j), w')"
  shows "pg_winv K w' \<and> held (pg_whist K w j) \<noteq> None \<and> held (pg_whist K w' j) = None
    \<and> (\<exists>es. pg_whist K w' = (pg_whist K w)(j := pg_whist K w j @ es))"
proof -
  obtain d e d' e' where w: "w = (d, e)" "w' = (d', e')" by (metis surj_pair)
  obtain now e1 seed e2 where s: "clock_now rt e = (now, e1)" "jitter_seed rt e1 = (seed, e2)" by (metis surj_pair)
  have inv: "pg_inv K d" using assms(1) by (simp add: w pg_winv_def)
  have run: "pg_retire_one C rt K busy (d, e) = (Ok (Some j), d', e')" using assms(2) by (simp add: w)
  from inv s run show ?thesis
  proof (cases rule: pg_retire_cases)
    case (retired k job evs job')
    then have k: "j = k" by simp
    have "held (pg_hist K d' k) = None"
      using held_Ok [OF retired(10)] retire_state_unleased [OF retired(5,6)] by simp
    moreover have "held (pg_hist K d k) \<noteq> None"
      using held_Ok [OF retired(2)] retired(4) by simp
    moreover obtain es where "pg_hist K d' = (pg_hist K d)(k := pg_hist K d k @ es)"
      using retired(9) by (rule extends_events)
    ultimately show ?thesis
      using retired(8) k by (auto simp: w pg_winv_def pg_whist_def)
  qed simp_all
qed

lemma pg_retire_same_law:
  assumes "pg_winv K w" and "pg_retire_one C rt K busy w = (r, w')" and "r = Ok None \<or> (\<exists>x. r = Err x)"
  shows "pg_winv K w' \<and> pg_whist K w' = pg_whist K w"
proof -
  obtain d e d' e' where w: "w = (d, e)" "w' = (d', e')" by (metis surj_pair)
  obtain now e1 seed e2 where s: "clock_now rt e = (now, e1)" "jitter_seed rt e1 = (seed, e2)" by (metis surj_pair)
  have inv: "pg_inv K d" using assms(1) by (simp add: w pg_winv_def)
  have run: "pg_retire_one C rt K busy (d, e) = (r, d', e')" using assms(2) by (simp add: w)
  have "d' = d" by (rule pg_retire_cases [OF inv s run]) (use assms(3) in simp_all)
  with inv show ?thesis by (simp add: w pg_winv_def pg_whist_def)
qed

interpretation postgres_disp: dispatcher_contract "pg_dispatcher C rt K busy" "pg_winv K" "pg_whist K"
  for C rt K busy
  apply unfold_locales
         apply (erule pg_finite_held)
        apply (unfold pg_dispatcher_def dispatcher.simps)
        apply (erule (1) pg_claim_Some_law)
       apply (erule (1) pg_claim_same_law, simp)
      apply (erule (1) pg_claim_same_law, simp)
     apply (erule (1) pg_extend_Ok_law)
    apply (erule (1) pg_retire_Some_law)
   apply (erule (1) pg_retire_same_law, simp)
  apply (erule (1) pg_retire_same_law, simp)
  done

end
