(* ===== verification/Postgres_Broker.thy ===== *)
theory Postgres_Broker
  imports Postgres_Relay Postgres_Dispatcher Test_Support
begin

text \<open>
  What the broker promises over the Postgres adapters: the claim serves the best job it may
  touch, where a claim and the projection can disagree, and the sweep ends.
\<close>

section \<open>Claims\<close>

lemma row_not_before:
  assumes "row_fields K job row" and "job_state job = S_Pending nb"
  shows "(nb = None \<and> dr_not_before row = None)
    \<or> (\<exists>t t'. nb = Some t \<and> timestamptz K t = Some t' \<and> dr_not_before row = Some t')"
  using assms by (cases nb; cases "dr_not_before row") (auto simp: row_fields_def)

lemma due_row:
  assumes "pg_inv K d" and "from_events (pg_hist K d k) = Ok job" and "due job queue now" and "timestamptz K now = Some now'"
  obtains row where "map_of (db_dispatch_queue d) k = Some row" "row_eligible queue now' row"
    "dr_priority row = job_priority job"
proof -
  have ne: "stream_rows d k \<noteq> []"
    using from_events_frame [OF assms(2)] pg_hist_Nil [OF assms(1)] by auto
  with pg_inv_stream [OF assms(1), of k] assms(2) have m: "row_matches K job (map_of (db_dispatch_queue d) k)"
    by (auto simp: stream_ok_def)
  from assms(3) obtain nb where nb: "job_state job = S_Pending nb" "is_none_or (\<lambda>t. t \<le> now) nb" "job_queue job = queue"
    by (auto simp: due_def split: JobState.splits)
  with m obtain row where row: "map_of (db_dispatch_queue d) k = Some row" "row_fields K job row"
    by (auto simp: row_matches_def dispatchable_def split: option.splits)
  have mono: "t' \<le> u'" if "timestamptz K t = Some t'" "timestamptz K u = Some u'" "t \<le> u" for t t' u u'
  proof -
    have "\<forall>t u t' u'. timestamptz K t = Some t' \<and> timestamptz K u = Some u' \<and> t \<le> u \<longrightarrow> t' \<le> u'"
      using assms(1) by (simp add: pg_inv_def pg_ok_def)
    with that show ?thesis by blast
  qed
  have "is_none_or (\<lambda>t. t \<le> now') (dr_not_before row)"
    using row_not_before [OF row(2) nb(1)] nb(2) mono [OF _ assms(4)] by auto
  with row nb that show thesis
    by (simp add: row_eligible_def row_fields_def)
qed



text \<open>
  C13. Where the projection and the fold disagree.  The dispatch table keeps \<open>not_before\<close> with
  the precision of a microsecond, the log exactly.  In the last moments before its \<open>not_before\<close>,
  less than two microseconds, a job can already be selected, and the claim then fails as an
  index/state drift, although nothing is wrong, instead of passing over the job.
\<close>

theorem pg_claim_drifts:
  assumes "pg_inv K d" and "clock_now rt e = (now, e1)"
    and "select_claim K (busy d e1) queue now d = Ok (Some k)"
    and "from_events (pg_hist K d k) = Ok job" and "job_state job = S_Pending (Some nb)" and "now < nb"
  shows "nb - now < 2000 \<and>
    (\<exists>e'. pg_claim C rt K busy queue worker ttl (d, e) =
       (Err (DispatchStore (StoreBackend (Msg_error ''index/state drift'' (IllegalTransition ''pending'' ''leased'')))), d, e'))"
proof -
  obtain now' row where row: "timestamptz K now = Some now'" "map_of (db_dispatch_queue d) k = Some row"
      "row_eligible queue now' row"
    by (rule select_claim_Some [OF assms(1,3)])
  have rf: "row_fields K job row"
    using dispatch_row_job [OF assms(1) row(2)] assms(4) by force
  obtain nb' where nb': "timestamptz K nb = Some nb'" "nb' \<le> now'"
    using row_not_before [OF rf assms(5)] row(3) by (auto simp: row_eligible_def)
  have "\<forall>t t'. timestamptz K t = Some t' \<longrightarrow> \<bar>t - t'\<bar> < 1000"
    using assms(1) by (simp add: pg_inv_def pg_ok_def)
  then have "\<bar>nb - nb'\<bar> < 1000" "\<bar>now - now'\<bar> < 1000"
    using nb'(1) row(1) by blast+
  with nb'(2) have "nb - now < 2000" by linarith
  moreover have "lease C job worker l now ttl = Err (IllegalTransition ''pending'' ''leased'')" for l
    using assms(5,6) by (simp add: lease_def)
  ultimately show ?thesis
    using load_rows_ok(1) [OF pg_inv_rows [OF assms(1)], of k]
    by (auto simp: pg_claim_def assms(2-4) split: prod.split)
qed

definition sample_delayed :: "nat stream" where
  "sample_delayed =
     [sample_envelope 1 (E_Enqueued (QueueName (lit ''default'')) 7 (Priority 3) sample_policy (Some 1500))]"

lemma sample_delayed_db:
  "pg_inv sample_pg (sample_db sample_delayed)"
  "from_events (pg_hist sample_pg (sample_db sample_delayed) (JobId 1)) = Ok (sample_job (S_Pending (Some 1500)) 0 1)"
  "k \<noteq> JobId 1 \<Longrightarrow> map_of (db_dispatch_queue (sample_db sample_delayed)) k = None"
proof -
  have f: "from_events sample_delayed = Ok (sample_job (S_Pending (Some 1500)) 0 1)"
    by (simp add: sample_delayed_def from_events_def sample_defs)
  have a: "pg_append sample_pg (JobId 1) 0 sample_delayed pg_empty = (Ok (), sample_db sample_delayed)"
    by (rule sample_append [OF f])
       (simp_all add: sample_delayed_def sample_envelope_def envelope_storable_def sample_pg_def SCHEMA_VERSION_def)
  note first = pg_first_append [OF sample_pg_ok a]
  have keeps: "list_all (\<lambda>e. \<not> replaces_payload (env_event e)) sample_delayed"
    by (simp add: sample_delayed_def sample_envelope_def replaces_payload_def)
  show inv: "pg_inv sample_pg (sample_db sample_delayed)" by (rule first(1) [OF keeps])
  show "from_events (pg_hist sample_pg (sample_db sample_delayed) (JobId 1)) = Ok (sample_job (S_Pending (Some 1500)) 0 1)"
    using first(2) [OF keeps] f by simp
  show "map_of (db_dispatch_queue (sample_db sample_delayed)) k = None" if "k \<noteq> JobId 1"
    using pg_inv_stream [OF inv, of k] pg_hist_Nil [OF inv, of k] that first(3) [OF keeps] by (simp add: stream_ok_def)
qed

theorem pg_claim_drifts_witness:
  "\<exists>e'. pg_claim chrono_doc test_runtime sample_pg (\<lambda>_ _ _. False) (QueueName (lit ''default'')) sample_worker 100
      (sample_db sample_delayed, fixed_at 1200 5) =
     (Err (DispatchStore (StoreBackend (Msg_error ''index/state drift'' (IllegalTransition ''pending'' ''leased'')))),
      sample_db sample_delayed, e')"
proof -
  let ?d = "sample_db sample_delayed" and ?q = "QueueName (lit ''default'')"
  have now: "clock_now test_runtime (fixed_at 1200 5) = (1200, fixed_at 1200 5)" by (simp add: fixed_at_def)
  have "due (sample_job (S_Pending (Some 1500)) 0 1) ?q 1500" by (simp add: due_def sample_job_def)
  then obtain row where row: "map_of (db_dispatch_queue ?d) (JobId 1) = Some row" "row_eligible ?q 1000 row"
    by (rule due_row [OF sample_delayed_db(1,2)]) (simp add: sample_pg_def)
  let ?rows = "filter (\<lambda>(k, row). row_eligible ?q 1000 row \<and> \<not> False) (db_dispatch_queue ?d)"
  have "(JobId 1, row) \<in> set ?rows"
    using row by (simp add: dispatch_member [OF sample_delayed_db(1)])
  then have "limit_one claim_order ?rows \<noteq> None"
    unfolding limit_one_None by (metis empty_iff empty_set)
  then obtain k r where m: "limit_one claim_order ?rows = Some (k, r)" by auto
  have "map_of (db_dispatch_queue ?d) k = Some r"
    using limit_one_Some [OF claim_order_trans claim_order_total m] by (auto simp: dispatch_member [OF sample_delayed_db(1)])
  then have "k = JobId 1" using sample_delayed_db(3) [of k] by (cases "k = JobId 1") simp_all
  moreover have "pg_text (queue_str ?q)" by (simp add: pg_text_def lit_def)
  ultimately have sel: "select_claim sample_pg ((\<lambda>_ _ _. False) ?d (fixed_at 1200 5)) ?q 1200 ?d = Ok (Some (JobId 1))"
    using m by (simp add: select_claim_def sample_pg_def)
  show ?thesis
    using pg_claim_drifts [OF sample_delayed_db(1) now sel sample_delayed_db(2), where nb = 1500] by (simp add: sample_job_def)
qed

end
