(* ===== verification/Koine_Server.thy ===== *)
theory Koine_Server
  imports Postgres_Broker Server_Config
begin

text \<open>
  The production server, \<open>run\<close> of \<open>koine-server/src/serve.rs\<close>: the gRPC service over the
  Postgres adapters, the sweep ticker and the outbox relay ticker, all on one database.  Each
  unary call, each round of a fetch task, each tick and each command of another process on the
  same database is one step; \<open>serve_step\<close> interleaves them in any order.
\<close>

section \<open>The composition\<close>

definition RELAY_BATCH :: int where
  "RELAY_BATCH = 64"

definition serve_deps ::
  "chrono \<Rightarrow> 'e runtime \<Rightarrow> ('v, 'j) pg \<Rightarrow> ('j, 'e) row_locks \<Rightarrow> (WorkerId \<Rightarrow> QueueName option \<Rightarrow> 'p \<Rightarrow> 'p)
   \<Rightarrow> 'addr ServeConfig \<Rightarrow> ('j pg_db, 'e, 'p, 'v) deps" where
  "serve_deps C rt K busy seen cfg =
     \<lparr>dep_store = pg_store K, dep_dispatcher = pg_dispatcher C rt K busy, dep_runtime = rt,
      dep_seen = seen, dep_config = serve_grpc_config cfg\<rparr>"

text \<open>The body of the sweep ticker; its result is only logged.\<close>

definition sweep_tick :: "('w, 'v) dispatcher \<Rightarrow> 'w \<Rightarrow> 'w option" where
  "sweep_tick D w = map_option snd (sweep_execute D w)"

text \<open>The body of the relay ticker.\<close>

definition relay_tick ::
  "('v, 'j) pg \<Rightarrow> 'j pg_db \<times> (JobId \<times> u64 \<times> string) list \<Rightarrow> 'j pg_db \<times> (JobId \<times> u64 \<times> string) list" where
  "relay_tick K w = snd (relay_once K printing_sink RELAY_BATCH (\<lambda>_. False) w)"

text \<open>
  The state of the server: database and runtime, presence, the fetch streams that are open, what
  they have sent, and the lines the sink has printed.
\<close>

record ('j, 'e, 'p) server =
  sv_world :: "('j, 'e) pg_world"
  sv_presence :: 'p
  sv_streams :: "(WorkerId \<times> QueueName \<times> duration) list"
  sv_sent :: "(WorkerId \<times> ProtoLeasedJob) list"
  sv_printed :: "(JobId \<times> u64 \<times> string) list"

definition sent_jobs :: "WorkerId \<Rightarrow> (ProtoLeasedJob, Status) outcome list \<Rightarrow> (WorkerId \<times> ProtoLeasedJob) list" where
  "sent_jobs worker sent = concat (map (\<lambda>r. case r of Ok m \<Rightarrow> [(worker, m)] | _ \<Rightarrow> []) sent)"

inductive serve_step ::
  "chrono \<Rightarrow> 'v wire \<Rightarrow> 'e runtime \<Rightarrow> ('v, 'j) pg \<Rightarrow> ('j pg_db, 'e, 'p, 'v) deps
   \<Rightarrow> ('j, 'e, 'p) server \<Rightarrow> ('j, 'e, 'p) server \<Rightarrow> bool"
  for C W rt K deps where
  serve_start: "grpc_start W deps md job (sv_world s) (sv_presence s) = (r, w, p) \<Longrightarrow>
    serve_step C W rt K deps s (s\<lparr>sv_world := w, sv_presence := p\<rparr>)"
| serve_succeed: "grpc_succeed W deps md sreq (sv_world s) (sv_presence s) = (r', w, p) \<Longrightarrow>
    serve_step C W rt K deps s (s\<lparr>sv_world := w, sv_presence := p\<rparr>)"
| serve_fail: "grpc_fail C W deps md freq (sv_world s) (sv_presence s) = (r', w, p) \<Longrightarrow>
    serve_step C W rt K deps s (s\<lparr>sv_world := w, sv_presence := p\<rparr>)"
| serve_heartbeat: "grpc_heartbeat W deps md hreq (sv_world s) (sv_presence s) = (b, w, p) \<Longrightarrow>
    serve_step C W rt K deps s (s\<lparr>sv_world := w, sv_presence := p\<rparr>)"
| serve_fetch: "fetch_open W deps md req (sv_world s) (sv_presence s) = (Ok stream, w, p) \<Longrightarrow>
    serve_step C W rt K deps s (s\<lparr>sv_world := w, sv_presence := p, sv_streams := stream # sv_streams s\<rparr>)"
| serve_round: "(worker, queue, ttl) \<in> set (sv_streams s) \<Longrightarrow>
    fetch_round W (dep_dispatcher deps) queue worker ttl closed (sv_world s) = (sent, True, w) \<Longrightarrow>
    serve_step C W rt K deps s (s\<lparr>sv_world := w, sv_sent := sv_sent s @ sent_jobs worker sent\<rparr>)"
| serve_last_round: "(worker, queue, ttl) \<in> set (sv_streams s) \<Longrightarrow>
    fetch_round W (dep_dispatcher deps) queue worker ttl closed (sv_world s) = (sent, False, w) \<Longrightarrow>
    serve_step C W rt K deps s (s\<lparr>sv_world := w, sv_sent := sv_sent s @ sent_jobs worker sent,
      sv_streams := remove1 (worker, queue, ttl) (sv_streams s)\<rparr>)"
| serve_sweep: "sweep_tick (dep_dispatcher deps) (sv_world s) = Some w \<Longrightarrow>
    serve_step C W rt K deps s (s\<lparr>sv_world := w\<rparr>)"
| serve_relay: "relay_tick K (fst (sv_world s), sv_printed s) = (d, out) \<Longrightarrow>
    serve_step C W rt K deps s (s\<lparr>sv_world := (d, snd (sv_world s)), sv_printed := out\<rparr>)"
| serve_enqueue: "enqueue_execute (pg_store K) rt cmd (sv_world s) = (j, w) \<Longrightarrow>
    serve_step C W rt K deps s (s\<lparr>sv_world := w\<rparr>)"
| serve_cancel: "cancel_execute (pg_store K) rt jid reason (sv_world s) = (u, w) \<Longrightarrow>
    serve_step C W rt K deps s (s\<lparr>sv_world := w\<rparr>)"

definition server_init :: "'e \<Rightarrow> 'p \<Rightarrow> ('j, 'e, 'p) server" where
  "server_init e p =
     \<lparr>sv_world = (pg_empty, e), sv_presence = p, sv_streams = [], sv_sent = [], sv_printed = []\<rparr>"

section \<open>Every operation is a few transactions\<close>

text \<open>What one committed transaction does to the tables, the relay apart.\<close>

inductive pg_step :: "('v, 'j) pg \<Rightarrow> 'j pg_db \<Rightarrow> 'j pg_db \<Rightarrow> bool" for K where
  pg_step_append: "append_in_tx K j v es d = Ok (job, d') \<Longrightarrow> pg_step K d d'"
| pg_step_deadline: "pg_step K d (snd (update_deadline l now dl d))"

lemma pg_append_step: "(pg_step K)\<^sup>*\<^sup>* d (snd (pg_append K j v es d))"
proof (cases "append_in_tx K j v es d")
  case (Ok p)
  then obtain job d' where "append_in_tx K j v es d = Ok (job, d')" by (cases p) simp
  then show ?thesis by (auto simp: pg_append_def commit_def intro: pg_step_append)
qed (simp_all add: pg_append_def commit_def)

lemma pg_append_stepD: "pg_append K j v es d = (r, d') \<Longrightarrow> (pg_step K)\<^sup>*\<^sup>* d d'"
  using pg_append_step [of K d j v es] by simp

lemma ack_append_step:
  "(pg_step K)\<^sup>*\<^sup>* (fst w) (fst (snd (ack_append (pg_store K) rt job xs evs w)))"
  by (cases w) (auto simp: ack_append_def pg_store_def Let_def split: prod.split dest: pg_append_stepD)

lemma ack_loaded_step:
  assumes "\<And>job xs. (pg_step K)\<^sup>*\<^sup>* (fst w) (fst (snd (k job xs w)))"
  shows "(pg_step K)\<^sup>*\<^sup>* (fst w) (fst (snd (ack_loaded S j k w)))"
  using assms by (auto simp: ack_loaded_def split: outcome.split)

lemma ack_steps:
  "(pg_step K)\<^sup>*\<^sup>* (fst w) (fst (snd (ack_start (pg_store K) rt j worker w)))"
  "(pg_step K)\<^sup>*\<^sup>* (fst w) (fst (snd (ack_succeed (pg_store K) rt j worker l res w)))"
  "(pg_step K)\<^sup>*\<^sup>* (fst w) (fst (snd (ack_fail C (pg_store K) rt j worker l err w)))"
  "(pg_step K)\<^sup>*\<^sup>* (fst w) (fst (snd (cancel_execute (pg_store K) rt j reason w)))"
  unfolding ack_start_def ack_succeed_def ack_fail_def cancel_execute_def
proof -
  note defs = ack_start_loaded_def ack_succeed_loaded_def ack_fail_loaded_def cancel_loaded_eq record_conflict_def ack_reply_def Let_def
  have a: "(pg_step K)\<^sup>*\<^sup>* d (fst (snd (ack_append (pg_store K) rt job xs evs (d, e))))" for d e job xs evs
    using ack_append_step [of K "(d, e)"] by simp
  show "(pg_step K)\<^sup>*\<^sup>* (fst w) (fst (snd (ack_loaded (pg_store K) j (\<lambda>job stream. ack_start_loaded (pg_store K) rt job stream worker) w)))"
    by (rule ack_loaded_step) (cases w, simp add: defs a split: outcome.split)
  show "(pg_step K)\<^sup>*\<^sup>* (fst w) (fst (snd (ack_loaded (pg_store K) j (\<lambda>job stream. ack_succeed_loaded (pg_store K) rt job stream worker l res) w)))"
    by (rule ack_loaded_step) (cases w, simp add: defs a split: outcome.split)
  show "(pg_step K)\<^sup>*\<^sup>* (fst w) (fst (snd (ack_loaded (pg_store K) j (\<lambda>job stream. ack_fail_loaded C (pg_store K) rt job stream worker l err) w)))"
    by (rule ack_loaded_step) (cases w, simp add: defs a split: outcome.split prod.split)
  show "(pg_step K)\<^sup>*\<^sup>* (fst w) (fst (snd (ack_loaded (pg_store K) j (\<lambda>job stream. cancel_loaded (pg_store K) rt job stream reason) w)))"
    by (rule ack_loaded_step) (cases w, simp add: defs a split: outcome.split)
qed

lemma enqueue_step: "(pg_step K)\<^sup>*\<^sup>* (fst w) (fst (snd (enqueue_execute (pg_store K) rt cmd w)))"
  by (cases w) (auto simp: enqueue_execute_def pg_store_def Let_def split: outcome.split prod.split option.split
      dest: pg_append_stepD)

lemma pg_step_appendD: "append_in_tx K j v es d = Ok (job, d') \<Longrightarrow> (pg_step K)\<^sup>*\<^sup>* d d'"
  by (blast intro: pg_step_append)

lemma pg_claim_step:
  assumes "pg_claim C rt K busy queue worker ttl w = (r, w')"
  shows "(pg_step K)\<^sup>*\<^sup>* (fst w) (fst w')"
  using assms
  by (cases w) (auto simp: pg_claim_def Let_def split: prod.splits outcome.splits option.splits list.splits JobEvent.splits
      dest: pg_step_appendD)

lemma pg_retire_step:
  assumes "pg_retire_one C rt K busy w = (r, w')"
  shows "(pg_step K)\<^sup>*\<^sup>* (fst w) (fst w')"
  using assms
  by (cases w) (auto simp: pg_retire_one_def Let_def split: prod.splits outcome.splits option.splits dest: pg_step_appendD)

lemma pg_extend_step:
  assumes "pg_extend_lease C rt K l ttl w = (r, w')"
  shows "(pg_step K)\<^sup>*\<^sup>* (fst w) (fst w')"
proof -
  obtain d e d' e' where w: "w = (d, e)" "w' = (d', e')" by (metis surj_pair)
  obtain now e1 where now: "clock_now rt e = (now, e1)" by (metis surj_pair)
  from assms have "pg_extend_lease C rt K l ttl (d, e) = (r, d', e')" by (simp add: w)
  from this now show ?thesis
    by (cases rule: pg_extend_cases) (auto simp: w intro: pg_step_deadline)
qed

lemma sweep_step:
  assumes "sweep_loop (pg_dispatcher C rt K busy) n w = Some (r, w')"
  shows "(pg_step K)\<^sup>*\<^sup>* (fst w) (fst w')"
proof (rule sweep_loop_rel [OF assms, where R = "\<lambda>w w'. (pg_step K)\<^sup>*\<^sup>* (fst w) (fst w')"])
  show "(pg_step K)\<^sup>*\<^sup>* (fst w) (fst (snd (retire_next_expired_lease (pg_dispatcher C rt K busy) w)))" for w
    by (rule pg_retire_step [of C rt K busy w "fst (pg_retire_one C rt K busy w)"]) (simp add: pg_dispatcher_def)
qed (rule rtranclp_trans)

section \<open>The books of the server\<close>

text \<open>All recorded events in commit order, as they are read back.\<close>

definition event_log :: "('v, 'j) pg \<Rightarrow> 'j pg_db \<Rightarrow> 'v stream" where
  "event_log K d = concat (map (\<lambda>r. case envelope_from_row K r of Ok env \<Rightarrow> [env] | _ \<Rightarrow> []) (db_events d))"

definition books_ok :: "('v, 'j) pg \<Rightarrow> 'j pg_db \<Rightarrow> (JobId \<times> u64 \<times> string) list \<Rightarrow> bool" where
  "books_ok K d printed \<longleftrightarrow> pg_inv K d \<and> outbox_ok K d
     \<and> printed @ map printed_line (outbox_envelopes K d) = map printed_line (event_log K d)"

lemma printed_line_stored: "printed_line \<circ> stored_envelope K = printed_line"
  by (auto simp: fun_eq_iff printed_line_def)

lemma event_log_stored:
  assumes "list_all2 (stored_row K j) es rs"
  shows "map printed_line (concat (map (\<lambda>r. case envelope_from_row K r of Ok env \<Rightarrow> [env] | _ \<Rightarrow> []) rs)) =
    map printed_line es"
  using assms
proof (induction rule: list_all2_induct)
  case (Cons e es r rs)
  then obtain e' where "envelope_from_row K r = Ok e'" "kept_as e e'" by (auto simp: stored_row_def)
  with Cons(3) show ?case by (simp add: printed_line_def kept_asD kept_event_kind [OF kept_as_event])
qed simp

lemma books_step:
  assumes "pg_step K d d'" and "books_ok K d printed"
  shows "books_ok K d' printed \<and> (\<forall>j. \<exists>ys. pg_hist K d' j = pg_hist K d j @ ys)"
  using assms
proof (induction rule: pg_step.cases)
  case (pg_step_append j v es d job d')
  then have inv: "pg_inv K d" and ob: "outbox_ok K d" by (simp_all add: books_ok_def)
  obtain rs where rs: "db_events d' = db_events d @ rs" "list_all2 (stored_row K j) es rs"
    by (rule append_in_tx_grows [OF inv pg_step_append(3)])
  have "map printed_line (event_log K d') = map printed_line (event_log K d) @ map printed_line es"
    using event_log_stored [OF rs(2)] by (simp add: event_log_def rs(1))
  moreover note append_in_tx_inv [OF inv pg_step_append(3)] outbox_ok_append [OF inv ob pg_step_append(3)]
  ultimately show ?case
    using pg_step_append by (auto simp: books_ok_def printed_line_stored)
next
  case (pg_step_deadline d l now dl)
  have "db_outbox (snd (update_deadline l now dl d)) = db_outbox d" "db_events (snd (update_deadline l now dl d)) = db_events d"
      "db_outbox_seq (snd (update_deadline l now dl d)) = db_outbox_seq d"
    by (simp_all add: update_deadline_def)
  with pg_step_deadline update_deadline_inv [of K d l now dl] show ?case
    by (simp add: books_ok_def outbox_ok_def outbox_envelopes_def event_log_def update_deadline_frame(2))
qed

lemma books_steps:
  assumes "(pg_step K)\<^sup>*\<^sup>* d d'" and "books_ok K d printed"
  shows "books_ok K d' printed \<and> (\<forall>j. \<exists>ys. pg_hist K d' j = pg_hist K d j @ ys)"
  using assms(1)
proof (induction rule: rtranclp_induct)
  case base
  then show ?case using assms(2) by simp
next
  case (step d1 d2)
  with books_step [OF step(2)] show ?case by (metis append.assoc)
qed

lemma books_relay:
  assumes "books_ok K d printed" and "relay_tick K (d, printed) = (d', printed')"
  shows "books_ok K d' printed' \<and> pg_hist K d' = pg_hist K d"
proof -
  have ob: "outbox_ok K d" using assms(1) by (simp add: books_ok_def)
  have "(0 :: int) \<le> RELAY_BATCH" by (simp add: RELAY_BATCH_def)
  note eq = relay_once_eq [OF ob this, where deliver = printing_sink and k = printed]
  show ?thesis
  proof (cases "take (nat RELAY_BATCH) (outbox_envelopes K d) = []")
    case True
    with assms show ?thesis by (simp add: relay_tick_def eq)
  next
    case False
    let ?n = "nat RELAY_BATCH"
    from False assms(2) have d': "d' = d\<lparr>db_outbox := drop ?n (db_outbox d)\<rparr>"
        "printed' = printed @ map printed_line (take ?n (outbox_envelopes K d))"
      by (simp_all add: relay_tick_def eq printing_sink_eq Let_def)
    have rows: "stream_rows d' j = stream_rows d j" for j by (simp add: d' stream_rows_def)
    have h: "pg_hist K d' = pg_hist K d" by (intro ext pg_hist_cong rows)
    have "pg_inv K d'"
      using assms(1) h rows by (simp add: books_ok_def pg_inv_def stream_ok_def dispatch_ok_def) (simp add: d')
    moreover have "event_log K d' = event_log K d" by (simp add: event_log_def d')
    moreover have "printed' @ map printed_line (outbox_envelopes K d') = printed @ map printed_line (outbox_envelopes K d)"
      using outbox_dropped(2) [OF ob, of ?n] by (simp add: d' flip: map_append)
    ultimately show ?thesis
      using assms(1) outbox_dropped(1) [OF ob, of ?n] h by (simp add: books_ok_def d')
  qed
qed

section \<open>What a step of the server does to its world\<close>

text \<open>
  A relation on worlds that every use case over the Postgres adapters respects is respected by
  every step of the server, the relay apart.
\<close>

lemma serve_step_world:
  assumes step: "serve_step C W rt K (serve_deps C rt K busy seen cfg) s s'"
    and refl: "\<And>w. P w w"
    and start: "\<And>j worker w. P w (snd (ack_start (pg_store K) rt j worker w))"
    and succeed: "\<And>j worker l res w. P w (snd (ack_succeed (pg_store K) rt j worker l res w))"
    and fail: "\<And>j worker l err w. P w (snd (ack_fail C (pg_store K) rt j worker l err w))"
    and cancel: "\<And>j reason w. P w (snd (cancel_execute (pg_store K) rt j reason w))"
    and enqueue: "\<And>cmd w. P w (snd (enqueue_execute (pg_store K) rt cmd w))"
    and extend: "\<And>l ttl w. P w (snd (pg_extend_lease C rt K l ttl w))"
    and claim: "\<And>queue worker ttl w. P w (snd (pg_claim C rt K busy queue worker ttl w))"
    and sweep: "\<And>w r w'. sweep_loop (pg_dispatcher C rt K busy) 0 w = Some (r, w') \<Longrightarrow> P w w'"
  shows "P (sv_world s) (sv_world s') \<and> sv_printed s' = sv_printed s
    \<or> (\<exists>d. relay_tick K (fst (sv_world s), sv_printed s) = (d, sv_printed s') \<and> sv_world s' = (d, snd (sv_world s)))"
proof -
  have d: "dep_store (serve_deps C rt K busy seen cfg) = pg_store K" "dep_runtime (serve_deps C rt K busy seen cfg) = rt"
      "dep_dispatcher (serve_deps C rt K busy seen cfg) = pg_dispatcher C rt K busy"
    by (simp_all add: serve_deps_def)
  have round: "P w w'" if "fetch_round W (pg_dispatcher C rt K busy) queue worker ttl closed w = (sent, continue, w')"
    for queue worker ttl closed w sent continue w'
    using that claim [of w queue worker ttl]
    by (auto simp: fetch_round_def lease_execute_def pg_dispatcher_def Let_def case_prod_beta split: outcome.splits option.splits)
  from step show ?thesis
  proof cases
    case (serve_start md job r w p)
    with refl start [of "sv_world s"] show ?thesis
      by (auto simp: grpc_start_def try_step_def d Let_def case_prod_beta split: outcome.splits)
  next
    case (serve_succeed md sreq r' w p)
    with refl succeed [of "sv_world s"] show ?thesis
      by (auto simp: grpc_succeed_def try_step_def d Let_def case_prod_beta split: outcome.splits)
  next
    case (serve_fail md freq r' w p)
    with refl fail [of "sv_world s"] show ?thesis
      by (auto simp: grpc_fail_def try_step_def d Let_def case_prod_beta split: outcome.splits)
  next
    case (serve_heartbeat md hreq b w p)
    with refl extend [of "sv_world s"] show ?thesis
      by (auto simp: grpc_heartbeat_def try_step_def d Let_def heartbeat_execute_def pg_dispatcher_def case_prod_beta
          split: outcome.splits)
  next
    case (serve_fetch md req stream w p)
    with refl show ?thesis
      by (auto simp: fetch_open_def try_step_def Let_def case_prod_beta split: outcome.splits)
  next
    case (serve_round worker queue ttl closed sent w)
    then show ?thesis using round by (simp add: d)
  next
    case (serve_last_round worker queue ttl closed sent w)
    then show ?thesis using round by (simp add: d)
  next
    case (serve_sweep w)
    then obtain r where "sweep_loop (pg_dispatcher C rt K busy) 0 (sv_world s) = Some (r, w)"
      by (auto simp: sweep_tick_def sweep_execute_def d)
    from sweep [OF this] serve_sweep(1) show ?thesis by simp
  next
    case (serve_relay d out)
    then show ?thesis by simp
  next
    case (serve_enqueue cmd j w)
    with enqueue [of "sv_world s" cmd] show ?thesis by simp
  next
    case (serve_cancel jid reason u w)
    with cancel [of "sv_world s" jid reason] show ?thesis by simp
  qed
qed

lemma sent_jobs_mem: "(w, m) \<in> set (sent_jobs worker sent) \<longleftrightarrow> w = worker \<and> Ok m \<in> set sent"
  by (force simp: sent_jobs_def split: outcome.splits)

lemma last_round_sends_nothing:
  "fetch_round W D queue worker ttl closed w = (sent, False, w') \<Longrightarrow> Ok m \<notin> set sent"
  by (auto simp: fetch_round_def lease_execute_def Let_def split: outcome.splits option.splits if_splits prod.splits)

lemma round_sends_leased:
  assumes "pg_inv K (fst w)" and "fetch_round W (pg_dispatcher C rt K busy) queue worker ttl closed w = (sent, continue, w')"
    and "Ok m \<in> set sent"
  shows "leased_in W (pg_hist K (fst w')) worker m"
proof (cases continue)
  case True
  note contract = postgres_disp.dispatcher_contract_axioms [where K = K and C = C and rt = rt and busy = busy]
  have w: "pg_winv K w" using assms(1) by (simp add: pg_winv_def)
  have "fetch_round W (pg_dispatcher C rt K busy) queue worker ttl closed w = (sent, True, w')"
    using assms(2) True by simp
  note facts = dispatcher_contract.fetch_round_facts [OF contract w this]
  then have "leased_in W (pg_whist K w') worker m" using assms(3) by blast
  then show ?thesis by (simp only: pg_whist_def)
next
  case False
  with assms(2) have "fetch_round W (pg_dispatcher C rt K busy) queue worker ttl closed w = (sent, False, w')" by simp
  from last_round_sends_nothing [OF this] assms(3) show ?thesis by blast
qed

section \<open>The server keeps its books\<close>

definition serve_ok :: "'v wire \<Rightarrow> ('v, 'j) pg \<Rightarrow> ('j, 'e, 'p) server \<Rightarrow> bool" where
  "serve_ok W K s \<longleftrightarrow> books_ok K (fst (sv_world s)) (sv_printed s)
     \<and> (\<forall>worker m. (worker, m) \<in> set (sv_sent s) \<longrightarrow> leased_in W (pg_hist K (fst (sv_world s))) worker m)"

lemma serve_step_pg:
  fixes K :: "('v, 'j) pg" and rt :: "'e runtime"
  assumes "serve_step C W rt K (serve_deps C rt K busy seen cfg) s s'"
  shows "(pg_step K)\<^sup>*\<^sup>* (fst (sv_world s)) (fst (sv_world s')) \<and> sv_printed s' = sv_printed s
    \<or> (\<exists>d. relay_tick K (fst (sv_world s), sv_printed s) = (d, sv_printed s') \<and> sv_world s' = (d, snd (sv_world s)))"
proof -
  have "(pg_step K)\<^sup>*\<^sup>* (fst w) (fst (snd (pg_extend_lease C rt K l ttl w)))" for l ttl and w :: "('j, 'e) pg_world"
    by (rule pg_extend_step [of C rt K l ttl w "fst (pg_extend_lease C rt K l ttl w)"]) simp
  moreover have "(pg_step K)\<^sup>*\<^sup>* (fst w) (fst (snd (pg_claim C rt K busy queue worker ttl w)))" for queue worker ttl w
    by (rule pg_claim_step [of C rt K busy queue worker ttl w "fst (pg_claim C rt K busy queue worker ttl w)"]) simp
  ultimately show ?thesis
    by (intro serve_step_world [OF assms, where P = "\<lambda>w w'. (pg_step K)\<^sup>*\<^sup>* (fst w) (fst w')"])
       (simp_all add: ack_steps enqueue_step sweep_step)
qed

lemma serve_step_sent:
  assumes "serve_step C W rt K (serve_deps C rt K busy seen cfg) s s'" and "pg_inv K (fst (sv_world s))"
    and "(worker, m) \<in> set (sv_sent s')"
  shows "(worker, m) \<in> set (sv_sent s) \<or> leased_in W (pg_hist K (fst (sv_world s'))) worker m"
  using assms(1)
proof cases
  case (serve_round worker' queue ttl closed sent w)
  then have "fetch_round W (pg_dispatcher C rt K busy) queue worker' ttl closed (sv_world s) = (sent, True, w)"
    by (simp add: serve_deps_def)
  from round_sends_leased [OF assms(2) this] serve_round(1) assms(3) show ?thesis by (auto simp: sent_jobs_mem)
next
  case (serve_last_round worker' queue ttl closed sent w)
  then have "fetch_round W (pg_dispatcher C rt K busy) queue worker' ttl closed (sv_world s) = (sent, False, w)"
    by (simp add: serve_deps_def)
  from round_sends_leased [OF assms(2) this] serve_last_round(1) assms(3) show ?thesis by (auto simp: sent_jobs_mem)
qed (use assms(3) in auto)

lemma serve_step_ok:
  assumes "serve_step C W rt K (serve_deps C rt K busy seen cfg) s s'" and "serve_ok W K s"
  shows "serve_ok W K s'"
proof -
  have books: "books_ok K (fst (sv_world s)) (sv_printed s)" and inv: "pg_inv K (fst (sv_world s))"
    using assms(2) by (simp_all add: serve_ok_def books_ok_def)
  have "books_ok K (fst (sv_world s')) (sv_printed s')
      \<and> (\<forall>j. \<exists>ys. pg_hist K (fst (sv_world s')) j = pg_hist K (fst (sv_world s)) j @ ys)"
    using serve_step_pg [OF assms(1)]
  proof
    assume "(pg_step K)\<^sup>*\<^sup>* (fst (sv_world s)) (fst (sv_world s')) \<and> sv_printed s' = sv_printed s"
    with books_steps [of K "fst (sv_world s)" "fst (sv_world s')" "sv_printed s"] books show ?thesis by simp
  next
    assume "\<exists>d. relay_tick K (fst (sv_world s), sv_printed s) = (d, sv_printed s') \<and> sv_world s' = (d, snd (sv_world s))"
    with books_relay [OF books] show ?thesis by auto
  qed
  with serve_step_sent [OF assms(1) inv] assms(2) leased_in_mono show ?thesis
    unfolding serve_ok_def by meson
qed

lemma serve_ok_init: "pg_ok K \<Longrightarrow> serve_ok W K (server_init e p)"
  using pg_inv_empty [of K] outbox_ok_empty [of K]
  by (simp add: serve_ok_def books_ok_def server_init_def outbox_envelopes_def event_log_def) (simp add: pg_empty_def)


definition sample_recorded :: "nat EventEnvelope" where
  "sample_recorded =
     \<lparr>env_event_id = EventId 3, env_stream_id = JobId 1, env_version = 1, env_recorded_at = 20,
      env_correlation_id = CorrelationId 2, env_causation_id = None, env_traceparent = None,
      env_schema_version = SCHEMA_VERSION, env_event = sample_enqueued\<rparr>"

lemma sample_enqueue:
  obtains e' where "enqueue_execute (pg_store sample_pg) test_runtime sample_command (pg_empty, fixed_at 20 0)
    = (Ok (JobId 1), sample_db [sample_recorded], e')"
    "outbox_ok sample_pg (sample_db [sample_recorded])"
    "outbox_envelopes sample_pg (sample_db [sample_recorded]) = [sample_recorded]"
proof -
  have f: "from_events [sample_recorded] = Ok (sample_job (S_Pending None) 0 1)"
    by (simp add: from_events_def sample_recorded_def sample_defs)
  have a: "pg_append sample_pg (JobId 1) 0 [sample_recorded] pg_empty = (Ok (), sample_db [sample_recorded])"
    by (rule sample_append [OF f])
       (simp_all add: sample_recorded_def envelope_storable_def sample_pg_def SCHEMA_VERSION_def)
  then obtain job where "append_in_tx sample_pg (JobId 1) 0 [sample_recorded] pg_empty = Ok (job, sample_db [sample_recorded])"
    by (auto simp: pg_append_eq_Ok)
  note ob = outbox_ok_append [OF pg_inv_empty [OF sample_pg_ok] outbox_ok_empty this]
  have "validate_policy (cmd_retry_policy sample_command) = Ok ()"
    by (simp add: validate_policy_def sample_command_def sample_policy_def MAX_SANE_ATTEMPTS_def
          MAX_SANE_DELAY_def from_secs_def)
  moreover obtain e' where "wrap_events test_runtime (JobId 1) 0 (CorrelationId 2) None None [sample_enqueued]
      \<lparr>fixed_now = 20, ids_seed = 0, ids_counter = 3\<rparr> = ([sample_recorded], e')"
    by (auto simp: wrap_events_def test_runtime_def seeded_next_def sample_recorded_def)
  ultimately have "enqueue_execute (pg_store sample_pg) test_runtime sample_command (pg_empty, fixed_at 20 0)
    = (Ok (JobId 1), sample_db [sample_recorded], e')"
    using a
    by (simp add: enqueue_execute_def pg_store_def sample_command_def lineage_default_def initial_event_def
        sample_enqueued_def test_runtime_def seeded_next_def fixed_at_def)
  moreover have "stored_envelope sample_pg sample_recorded = sample_recorded"
    by (rule stored_envelope_exact) (simp add: sample_recorded_def sample_enqueued_def exact_event_def)
  ultimately show thesis
    using ob that by (simp add: outbox_envelopes_def pg_empty_def)
qed


end
