(* ===== verification/Protocol_Refinement.thy ===== *)
theory Protocol_Refinement
  imports Lease_Protocol Koine_Server
begin

text \<open>
  The server implements the lease protocol: whatever the clients, the fetch tasks and the tickers
  do, the events recorded for a job are a run of the TLA specification.
\<close>

section \<open>The server keeps a journal\<close>

definition journaled :: "chrono \<Rightarrow> ('v, 'j) pg \<Rightarrow> ('j, 'e) pg_world \<Rightarrow> ('j, 'e) pg_world \<Rightarrow> bool" where
  "journaled C K w w' \<longleftrightarrow>
     (pg_inv K (fst w) \<longrightarrow>
        pg_inv K (fst w') \<and> (journal_step C)\<^sup>*\<^sup>* (pg_hist K (fst w)) (pg_hist K (fst w')))"

lemma journaled_refl: "journaled C K w w"
  by (simp add: journaled_def)

lemma journaled_trans: "journaled C K w w1 \<Longrightarrow> journaled C K w1 w2 \<Longrightarrow> journaled C K w w2"
  unfolding journaled_def by (meson rtranclp_trans)

lemma journaledI:
  assumes "\<And>d e. pg_inv K d \<Longrightarrow> w = (d, e) \<Longrightarrow>
      pg_inv K (fst w') \<and> (journal_step C)\<^sup>*\<^sup>* (pg_hist K d) (pg_hist K (fst w'))"
  shows "journaled C K w w'"
  using assms by (cases w) (simp add: journaled_def)

lemma use_cases_journaled:
  "journaled C K w (snd (ack_start (pg_store K) rt j worker w))"
  "journaled C K w (snd (ack_succeed (pg_store K) rt j worker l res w))"
  "journaled C K w (snd (ack_fail C (pg_store K) rt j worker l err w))"
  "journaled C K w (snd (cancel_execute (pg_store K) rt j reason w))"
  "journaled C K w (snd (enqueue_execute (pg_store K) rt cmd w))"
proof -
  note contract = postgres.event_store_contract_axioms [where K = K]
  note js = event_store_contract.ack_start_journal [OF contract]
    event_store_contract.ack_succeed_journal [OF contract] event_store_contract.ack_fail_journal [OF contract]
    event_store_contract.cancel_journal [OF contract] event_store_contract.enqueue_journal [OF contract]
  show "journaled C K w (snd (ack_start (pg_store K) rt j worker w))"
    by (rule journaledI) (use js(1) in \<open>metis prod.collapse\<close>)
  show "journaled C K w (snd (ack_succeed (pg_store K) rt j worker l res w))"
    by (rule journaledI) (use js(2) in \<open>metis prod.collapse\<close>)
  show "journaled C K w (snd (ack_fail C (pg_store K) rt j worker l err w))"
    by (rule journaledI) (use js(3) in \<open>metis prod.collapse\<close>)
  show "journaled C K w (snd (cancel_execute (pg_store K) rt j reason w))"
    by (rule journaledI) (use js(4) in \<open>metis prod.collapse\<close>)
  show "journaled C K w (snd (enqueue_execute (pg_store K) rt cmd w))"
    by (rule journaledI) (use js(5) in \<open>metis prod.collapse\<close>)
qed

lemma recorded_journal:
  assumes "from_events (h j) = Ok job" and "run_command C job cmd = Ok evs" and "extends h j evs h'"
    and "from_events (h' j) = Ok job'"
  shows "journal_step C h h'"
proof -
  obtain es where es: "h' = h(j := h j @ es)" "map env_event es = evs" using assms(3) by (rule extends_events)
  with journal_command [where h = h and j = j, OF assms(1,2)] assms(4) show ?thesis by simp
qed

lemma claim_journaled: "journaled C K w (snd (pg_claim C rt K busy queue worker ttl w))"
proof (rule journaledI)
  fix d e assume inv: "pg_inv K d" and w: "w = (d, e)"
  obtain r d' e' where run: "pg_claim C rt K busy queue worker ttl (d, e) = (r, d', e')" by (metis surj_pair)
  obtain now e1 l e2 where "clock_now rt e = (now, e1)" "new_lease_id rt e1 = (l, e2)" by fastforce
  from inv this run have "pg_inv K d' \<and> (journal_step C)\<^sup>*\<^sup>* (pg_hist K d) (pg_hist K d')"
  proof (cases rule: pg_claim_cases)
    case (leased k job x)
    then have "run_command C job (Cmd_Lease worker l now ttl) = Ok [E_Leased worker l x]" by (simp add: single_def)
    from recorded_journal [OF leased(2) this leased(7,8)] leased(6) show ?thesis by blast
  qed (use inv in simp_all)
  then show "pg_inv K (fst (snd (pg_claim C rt K busy queue worker ttl w)))
      \<and> (journal_step C)\<^sup>*\<^sup>* (pg_hist K d) (pg_hist K (fst (snd (pg_claim C rt K busy queue worker ttl w))))"
    by (simp add: w run)
qed

lemma retire_journaled: "journaled C K w (snd (pg_retire_one C rt K busy w))"
proof (rule journaledI)
  fix d e assume inv: "pg_inv K d" and w: "w = (d, e)"
  obtain r d' e' where run: "pg_retire_one C rt K busy (d, e) = (r, d', e')" by (metis surj_pair)
  obtain now e1 seed e2 where "clock_now rt e = (now, e1)" "jitter_seed rt e1 = (seed, e2)" by fastforce
  from inv this run have "pg_inv K d' \<and> (journal_step C)\<^sup>*\<^sup>* (pg_hist K d) (pg_hist K d')"
  proof (cases rule: pg_retire_cases)
    case (retired k job evs job')
    then have "run_command C job (Cmd_Expire now seed) = Ok evs" by simp
    from recorded_journal [OF retired(2) this retired(9,10)] retired(8) show ?thesis by blast
  qed (use inv in simp_all)
  then show "pg_inv K (fst (snd (pg_retire_one C rt K busy w)))
      \<and> (journal_step C)\<^sup>*\<^sup>* (pg_hist K d) (pg_hist K (fst (snd (pg_retire_one C rt K busy w))))"
    by (simp add: w run)
qed

lemma extend_journaled: "journaled C K w (snd (pg_extend_lease C rt K l ttl w))"
proof (rule journaledI)
  fix d e assume inv: "pg_inv K d" and w: "w = (d, e)"
  obtain r d' e' where run: "pg_extend_lease C rt K l ttl (d, e) = (r, d', e')" by (metis surj_pair)
  obtain now e1 where "clock_now rt e = (now, e1)" by fastforce
  from run this have "pg_inv K d' \<and> pg_hist K d' = pg_hist K d"
    by (cases rule: pg_extend_cases)
       (use inv in \<open>simp_all add: update_deadline_inv update_deadline_frame(2) fun_eq_iff\<close>)
  then show "pg_inv K (fst (snd (pg_extend_lease C rt K l ttl w)))
      \<and> (journal_step C)\<^sup>*\<^sup>* (pg_hist K d) (pg_hist K (fst (snd (pg_extend_lease C rt K l ttl w))))"
    by (simp add: w run)
qed

lemma sweep_journaled:
  assumes "sweep_loop (pg_dispatcher C rt K busy) n w = Some (r, w')"
  shows "journaled C K w w'"
  by (rule sweep_loop_rel [OF assms, where R = "journaled C K"])
     (simp add: pg_dispatcher_def retire_journaled, rule journaled_trans)

lemma serve_step_journal:
  assumes "serve_step C W rt K (serve_deps C rt K busy seen cfg) s s'" and "serve_ok W K s"
  shows "(journal_step C)\<^sup>*\<^sup>* (pg_hist K (fst (sv_world s))) (pg_hist K (fst (sv_world s')))"
proof -
  have books: "books_ok K (fst (sv_world s)) (sv_printed s)" and inv: "pg_inv K (fst (sv_world s))"
    using assms(2) by (simp_all add: serve_ok_def books_ok_def)
  have "journaled C K (sv_world s) (sv_world s') \<and> sv_printed s' = sv_printed s
    \<or> (\<exists>d. relay_tick K (fst (sv_world s), sv_printed s) = (d, sv_printed s') \<and> sv_world s' = (d, snd (sv_world s)))"
    by (rule serve_step_world [OF assms(1), where P = "journaled C K"])
       (simp_all add: journaled_refl use_cases_journaled claim_journaled extend_journaled sweep_journaled)
  with inv books_relay [OF books] show ?thesis by (auto simp: journaled_def)
qed

lemma serve_run_journal:
  assumes "(serve_step C W rt K (serve_deps C rt K busy seen cfg))\<^sup>*\<^sup>* s s'" and "serve_ok W K s"
  shows "serve_ok W K s' \<and> (journal_step C)\<^sup>*\<^sup>* (pg_hist K (fst (sv_world s))) (pg_hist K (fst (sv_world s')))"
  using assms(1)
proof (induction rule: rtranclp_induct)
  case base
  then show ?case using assms(2) by simp
next
  case (step s1 s2)
  then show ?case
    using serve_step_journal [OF step.hyps(2)] serve_step_ok [OF step.hyps(2)] by (meson rtranclp_trans)
qed

section \<open>Refinement\<close>

text \<open>
  C5. The server implements the lease protocol.  Take any run of the server from an empty database
  to \<open>s\<close> and on to \<open>s'\<close>, any interleaving of calls, fetch rounds, sweeps, relay passes and
  commands of other processes, any clock and any lease times; take a job that is recorded in
  \<open>s\<close>, and the constants of the specification that its retry policy stands for.  What is
  recorded of the job in \<open>s\<close> (state, attempts, leases granted, active lease) is what the
  specification shows in some state reachable from \<open>Init\<close>, and from every specification state
  that shows it, steps of \<open>Next\<close> lead to one that shows what is recorded in \<open>s'\<close>.
\<close>

theorem server_implements_lease_protocol:
  fixes K :: "('v, 'j) pg"
  assumes "pg_ok K"
    and "(serve_step C W rt K (serve_deps C rt K busy seen cfg))\<^sup>*\<^sup>* (server_init e p) s"
    and "(serve_step C W rt K (serve_deps C rt K busy seen cfg))\<^sup>*\<^sup>* s s'"
    and "protocol_for c (pg_hist K (fst (sv_world s)) j)"
  shows "(\<exists>m. (Next c)\<^sup>*\<^sup>* Init m \<and> protocol_view (pg_hist K (fst (sv_world s)) j) m)
    \<and> (\<forall>m. protocol_view (pg_hist K (fst (sv_world s)) j) m \<longrightarrow>
          (\<exists>m'. (Next c)\<^sup>*\<^sup>* m m' \<and> protocol_view (pg_hist K (fst (sv_world s')) j) m'))"
proof -
  let ?h = "pg_hist K (fst (sv_world s))"
  have ok: "serve_ok W K s" and run: "(journal_step C)\<^sup>*\<^sup>* (\<lambda>_. []) ?h"
    using serve_run_journal [OF assms(2) serve_ok_init [OF assms(1)]]
    by (simp_all add: server_init_def pg_hist_empty [abs_def])
  have ne: "?h j \<noteq> []" using assms(4) from_events_frame by (auto simp: protocol_for_def)
  have "journal_ok ?h" by (rule journal_run_ok [OF run]) (simp add: journal_ok_def)
  from journal_run_protocol [OF _ this ne assms(4)] serve_run_journal [OF assms(3) ok]
  have "\<forall>m. protocol_view (?h j) m \<longrightarrow>
      (\<exists>m'. (Next c)\<^sup>*\<^sup>* m m' \<and> protocol_view (pg_hist K (fst (sv_world s')) j) m')" by blast
  with journal_reach_protocol [OF run ne assms(4)] show ?thesis by blast
qed

lemma sample_recorded_folds:
  "from_events (pg_hist sample_pg (sample_db [sample_recorded]) (JobId 1)) = Ok (sample_job (S_Pending None) 0 1)"
proof -
  have f: "from_events [sample_recorded] = Ok (sample_job (S_Pending None) 0 1)"
    by (simp add: from_events_def sample_recorded_def sample_defs)
  have a: "pg_append sample_pg (JobId 1) 0 [sample_recorded] pg_empty = (Ok (), sample_db [sample_recorded])"
    by (rule sample_append [OF f])
       (simp_all add: sample_recorded_def envelope_storable_def sample_pg_def SCHEMA_VERSION_def)
  from pg_first_append(2) [OF sample_pg_ok a] f show ?thesis
    by (simp add: sample_recorded_def sample_enqueued_def replaces_payload_def)
qed

theorem server_implements_lease_protocol_witness:
  "\<exists>m e'. enqueue_execute (pg_store sample_pg) test_runtime sample_command (pg_empty, fixed_at 20 0)
      = (Ok (JobId 1), sample_db [sample_recorded], e')
    \<and> (Next tla_sample)\<^sup>*\<^sup>* Init m
    \<and> protocol_view (pg_hist sample_pg (fst (snd (cancel_execute (pg_store sample_pg) test_runtime (JobId 1) None
          (sample_db [sample_recorded], e')))) (JobId 1)) m"
proof -
  let ?d = "sample_db [sample_recorded]"
  obtain e' where en: "enqueue_execute (pg_store sample_pg) test_runtime sample_command (pg_empty, fixed_at 20 0)
      = (Ok (JobId 1), ?d, e')"
    by (rule sample_enqueue)
  obtain u w where c: "cancel_execute (pg_store sample_pg) test_runtime (JobId 1) None (?d, e') = (u, w)"
    by (metis surj_pair)
  let ?step = "serve_step chrono_doc sample_wire test_runtime sample_pg
        (serve_deps chrono_doc test_runtime sample_pg (\<lambda>_ _ _. False) (\<lambda>_ _ n. Suc n)
          \<lparr>database_url = DEFAULT_DATABASE_URL, worker_token = lit ''s3cr3t'', grpc_addr = DEFAULT_GRPC_ADDR,
           max_lease_ttl = from_millis 300000, idle_poll = from_millis 1000,
           pool_config = \<lparr>max_connections = 16, acquire_timeout_ms = 5000\<rparr>\<rparr>)"
  define s0 where "s0 = (server_init (fixed_at 20 0) (0 :: nat) :: (nat JobEvent + nat EventEnvelope, test_env, nat) server)"
  define s1 where "s1 = s0\<lparr>sv_world := (?d, e')\<rparr>"
  define s2 where "s2 = s1\<lparr>sv_world := w\<rparr>"
  have "?step s0 s1"
    unfolding s1_def by (rule serve_enqueue [where cmd = sample_command]) (simp add: s0_def server_init_def en)
  then have r1: "?step\<^sup>*\<^sup>* s0 s1" by (rule r_into_rtranclp)
  have "?step s1 s2"
    unfolding s2_def by (rule serve_cancel [where jid = "JobId 1" and reason = None]) (simp add: s1_def c)
  then have r2: "?step\<^sup>*\<^sup>* s1 s2" by (rule r_into_rtranclp)
  have "protocol_for tla_sample (pg_hist sample_pg (fst (sv_world s1)) (JobId 1))"
    using sample_recorded_folds
    by (simp add: s1_def protocol_for_def constants_for_def tla_sample_def sample_job_def sample_policy_def)
  note ref = server_implements_lease_protocol [OF sample_pg_ok r1 [unfolded s0_def] r2 this]
  then obtain m where m: "(Next tla_sample)\<^sup>*\<^sup>* Init m" "protocol_view (pg_hist sample_pg (fst (sv_world s1)) (JobId 1)) m"
    by blast
  with ref obtain m' where "(Next tla_sample)\<^sup>*\<^sup>* m m'" "protocol_view (pg_hist sample_pg (fst (sv_world s2)) (JobId 1)) m'"
    by blast
  with m(1) en show ?thesis by (auto simp: s2_def c intro: rtranclp_trans)
qed

end
