(* ===== verification/Dispatch_Signal.thy ===== *)
theory Dispatch_Signal
  imports Postgres_Properties
begin

text \<open>
  The wake-up channels of \<open>koine-store-memory/src/signal.rs\<close> and \<open>koine-store-postgres/src/signal.rs\<close>:
  per-queue \<open>Notify\<close> objects in one process, and \<open>LISTEN\<close>/\<open>NOTIFY\<close> fanned out to the waiters.
  Waiting is best effort; what is shown is which waiters a signal wakes and that what the
  database announces reaches them.
\<close>

section \<open>In-memory signal\<close>

text \<open>
  \<open>tokio::sync::Notify\<close> as a parameter: \<open>'n\<close> is its state and \<open>'w\<close> identifies a call of
  \<open>notified()\<close>.  Documented: \<open>notify_waiters\<close> wakes every current waiter and stores nothing for
  later ones.
\<close>

record ('n, 'w) notify_api =
  notify_new :: 'n
  notify_enroll :: "'w \<Rightarrow> 'n \<Rightarrow> 'n"
  notify_leave :: "'w \<Rightarrow> 'n \<Rightarrow> 'n"
  notify_waiters :: "'n \<Rightarrow> 'n"
  notify_waiting :: "'n \<Rightarrow> 'w set"

definition notify_ok :: "('n, 'w) notify_api \<Rightarrow> bool" where
  "notify_ok N \<longleftrightarrow>
     notify_waiting N (notify_new N) = {}
     \<and> (\<forall>w n. notify_waiting N (notify_enroll N w n) = insert w (notify_waiting N n))
     \<and> (\<forall>w n. notify_waiting N (notify_leave N w n) = notify_waiting N n - {w})
     \<and> (\<forall>n. notify_waiting N (notify_waiters N n) = {})"

type_synonym 'n channels = "(QueueName \<times> 'n) list"

text \<open>\<open>entry(queue).or_insert_with(Notify::new).clone()\<close>: the map shares its \<open>Notify\<close> objects.\<close>

definition channel :: "('n, 'w) notify_api \<Rightarrow> QueueName \<Rightarrow> 'n channels \<Rightarrow> 'n" where
  "channel N queue ch = (case map_of ch queue of Some n \<Rightarrow> n | None \<Rightarrow> notify_new N)"

definition signal_notify :: "('n, 'w) notify_api \<Rightarrow> QueueName \<Rightarrow> 'n channels \<Rightarrow> 'n channels" where
  "signal_notify N queue ch = AList.update queue (notify_waiters N (channel N queue ch)) ch"

text \<open>\<open>wait\<close> up to the point where it sleeps, and its end by the timeout.\<close>

definition signal_wait :: "('n, 'w) notify_api \<Rightarrow> QueueName \<Rightarrow> 'w \<Rightarrow> 'n channels \<Rightarrow> 'n channels" where
  "signal_wait N queue w ch = AList.update queue (notify_enroll N w (channel N queue ch)) ch"

definition signal_timeout :: "('n, 'w) notify_api \<Rightarrow> QueueName \<Rightarrow> 'w \<Rightarrow> 'n channels \<Rightarrow> 'n channels" where
  "signal_timeout N queue w ch = AList.update queue (notify_leave N w (channel N queue ch)) ch"

datatype 'w signal_op = Notify QueueName | Wait QueueName 'w | Timeout QueueName 'w

primrec signal_run :: "('n, 'w) notify_api \<Rightarrow> 'w signal_op list \<Rightarrow> 'n channels \<Rightarrow> 'n channels" where
  "signal_run N [] ch = ch"
| "signal_run N (x # xs) ch =
     signal_run N xs (case x of Notify q \<Rightarrow> signal_notify N q ch | Wait q w \<Rightarrow> signal_wait N q w ch
                      | Timeout q w \<Rightarrow> signal_timeout N q w ch)"

definition sleeping :: "('n, 'w) notify_api \<Rightarrow> QueueName \<Rightarrow> 'n channels \<Rightarrow> 'w set" where
  "sleeping N queue ch = notify_waiting N (channel N queue ch)"

text \<open>The reference: who sleeps on a queue, one operation at a time.\<close>

fun sleepers :: "QueueName \<Rightarrow> 'w signal_op \<Rightarrow> 'w set \<Rightarrow> 'w set" where
  "sleepers q (Notify q') ws = (if q' = q then {} else ws)"
| "sleepers q (Wait q' w) ws = (if q' = q then insert w ws else ws)"
| "sleepers q (Timeout q' w) ws = (if q' = q then ws - {w} else ws)"

lemma channel_update: "channel N q (AList.update q' n ch) = (if q' = q then n else channel N q ch)"
  by (simp add: channel_def update_conv')

lemma sleeping_run:
  assumes "notify_ok N"
  shows "sleeping N q (signal_run N ops ch) = fold (sleepers q) ops (sleeping N q ch)"
proof (induction ops arbitrary: ch)
  case (Cons x ops)
  have "sleeping N q (case x of Notify q \<Rightarrow> signal_notify N q ch | Wait q w \<Rightarrow> signal_wait N q w ch
      | Timeout q w \<Rightarrow> signal_timeout N q w ch) = sleepers q x (sleeping N q ch)"
    using assms
    by (cases x) (simp_all add: sleeping_def signal_notify_def signal_wait_def signal_timeout_def channel_update notify_ok_def)
  then show ?case by (simp add: Cons.IH)
qed simp

section \<open>Postgres signal\<close>

definition NOTIFICATION_BUFFER :: nat where
  "NOTIFICATION_BUFFER = 1024"

text \<open>
  The listener task.  Its input is what successive \<open>recv\<close> calls return, \<open>None\<close> an error; it
  fans out the payloads and logs the transitions of its health.
\<close>

datatype listener_log = Listener_lost | Listener_reconnected

primrec listener_loop :: "bool \<Rightarrow> rstring option list \<Rightarrow> rstring list \<times> listener_log list" where
  "listener_loop degraded [] = ([], [])"
| "listener_loop degraded (r # rs) =
     (case r of
        Some payload \<Rightarrow>
          let (sent, log) = listener_loop False rs
          in (payload # sent, (if degraded then [Listener_reconnected] else []) @ log)
      | None \<Rightarrow>
          let (sent, log) = listener_loop True rs
          in (sent, (if \<not> degraded then [Listener_lost] else []) @ log))"

text \<open>
  \<open>wait\<close>: what the receiver of the broadcast channel returns until the timeout.  It returns on
  the payload of its queue and whenever it cannot tell (\<open>Lagged\<close>, \<open>Closed\<close>).
\<close>

datatype recv = Payload rstring | Lagged nat | Closed

datatype wakeup = Woken | TimedOut

primrec pg_wait :: "QueueName \<Rightarrow> recv list \<Rightarrow> wakeup" where
  "pg_wait queue [] = TimedOut"
| "pg_wait queue (r # rs) =
     (case r of
        Payload payload \<Rightarrow> if payload = queue_str queue then Woken else pg_wait queue rs
      | Lagged _ \<Rightarrow> Woken
      | Closed \<Rightarrow> Woken)"

text \<open>\<open>notify\<close>: an error of the statement is discarded.\<close>

definition pg_notify :: "QueueName \<Rightarrow> 'j pg_db \<Rightarrow> 'j pg_db" where
  "pg_notify queue d =
     (if pg_text (queue_str queue) then d\<lparr>db_notified := db_notified d @ [queue_str queue]\<rparr> else d)"

text \<open>
  What a receiver of the broadcast channel may see of the messages sent since it subscribed
  (documented): all of them in order, or, when it fell behind by more than the capacity,
  \<open>Lagged\<close> in the place of the ones it missed.
\<close>

inductive receives :: "rstring list \<Rightarrow> recv list \<Rightarrow> bool" where
  receives_nil: "receives [] []"
| receives_message: "receives ms rs \<Longrightarrow> receives (m # ms) (Payload m # rs)"
| receives_lagged: "0 < n \<Longrightarrow> n \<le> length ms \<Longrightarrow> receives (drop n ms) rs \<Longrightarrow> receives ms (Lagged n # rs)"

lemma listener_fans_out: "fst (listener_loop degraded rs) = concat (map (\<lambda>r. case r of Some p \<Rightarrow> [p] | None \<Rightarrow> []) rs)"
  by (induction rs arbitrary: degraded) (auto simp: Let_def case_prod_beta split: option.split)

lemma pg_wait_TimedOut:
  "pg_wait queue rs = TimedOut \<longleftrightarrow> (\<forall>r \<in> set rs. \<exists>p. r = Payload p \<and> p \<noteq> queue_str queue)"
  by (induction rs) (auto split: recv.splits)

lemma receives_wakes:
  assumes "receives ms rs" and "queue_str queue \<in> set ms"
  shows "pg_wait queue rs = Woken"
  using assms by (induction rule: receives.induct) (auto split: recv.splits)

text \<open>The log of the listener: one line per change of its health.\<close>

lemma listener_logs_transitions:
  "snd (listener_loop degraded rs) =
     map (\<lambda>lost. if lost then Listener_lost else Listener_reconnected)
       (tl (remdups_adj (degraded # map (\<lambda>r. r = None) rs)))"
proof (induction rs arbitrary: degraded)
  case (Cons r rs)
  show ?case
    using Cons.IH [of True] Cons.IH [of False]
    by (cases r; cases degraded)
       (simp_all add: Let_def case_prod_beta remdups_adj_Cons' split: if_splits)
qed simp

section \<open>From the database to the waiters\<close>

text \<open>A committed append announces the queue of the job exactly when it leaves the job pending.\<close>

lemma pg_append_notified:
  assumes "pg_inv K d" and "pg_append K j v es d = (Ok u, d')" and "from_events (pg_hist K d' j) = Ok job"
  shows "db_notified d' = db_notified d @ (case job_state job of S_Pending _ \<Rightarrow> [queue_str (job_queue job)] | _ \<Rightarrow> [])"
proof -
  obtain job' where a: "append_in_tx K j v es d = Ok (job', d')" using assms(2) by (auto simp: pg_append_eq_Ok)
  obtain rs ys d1 where "grown_by K j es rs ys d d1" "projects K job' d1 d'" by (rule append_in_tx_Ok [OF assms(1) a])
  moreover have "job' = job" using append_in_tx_inv [OF assms(1) a] assms(3) by simp
  ultimately show ?thesis by (simp add: grown_by_def projects_def)
qed

text \<open>
  C16. A job that becomes pending wakes who waits for it.  Let an append commit that leaves its job
  pending, and let the listener receive what the database announced by it, whatever it received
  before and after and whether or not it had lost its connection: then a fetch task that waits
  on the queue of the job, subscribed before, is woken before its timeout, even when its
  receiver lags behind.
\<close>

theorem pending_job_wakes_waiter:
  assumes "pg_inv K d" and "pg_append K j v es d = (Ok u, d')"
    and "from_events (pg_hist K d' j) = Ok job" and "job_state job = S_Pending nb"
    and "receives (fst (listener_loop degraded
           (before @ map Some (drop (length (db_notified d)) (db_notified d')) @ after))) rs"
  shows "pg_wait (job_queue job) rs = Woken"
proof (rule receives_wakes [OF assms(5)])
  have "db_notified d' = db_notified d @ [queue_str (job_queue job)]"
    using pg_append_notified [OF assms(1-3)] assms(4) by simp
  then show "queue_str (job_queue job) \<in> set (fst (listener_loop degraded
      (before @ map Some (drop (length (db_notified d)) (db_notified d')) @ after)))"
    by (simp add: listener_fans_out)
qed

theorem pending_job_wakes_waiter_witness:
  "pg_wait (QueueName (lit ''default'')) [Lagged 1, Payload (lit ''default'')] = Woken"
proof -
  have h: "from_events (pg_hist sample_pg (sample_db sample_pending) (JobId 1)) = Ok (sample_job (S_Pending None) 0 1)"
    using pg_first_append(2) [OF sample_pg_ok sample_appends(1)] sample_folds(1)
    by (simp add: sample_pending_def sample_envelope_def sample_enqueued_def replaces_payload_def)
  have n: "db_notified (sample_db sample_pending) = [lit ''default'']" "db_notified (pg_empty :: (nat JobEvent + nat EventEnvelope) pg_db) = []"
    using pg_append_notified [OF pg_inv_empty [OF sample_pg_ok] sample_appends(1) h] by (simp_all add: sample_job_def pg_empty_def)
  have "receives [lit ''other'', lit ''default''] [Lagged 1, Payload (lit ''default'')]"
    by (rule receives_lagged) (simp_all add: receives_message receives_nil)
  then have "receives (fst (listener_loop True
      ([Some (lit ''other'')] @ map Some (drop (length (db_notified (pg_empty :: (nat JobEvent + nat EventEnvelope) pg_db)))
        (db_notified (sample_db sample_pending))) @ [None]))) [Lagged 1, Payload (lit ''default'')]"
    by (simp add: n listener_fans_out)
  from pending_job_wakes_waiter [OF pg_inv_empty [OF sample_pg_ok] sample_appends(1) h _ this] show ?thesis
    by (simp add: sample_job_def)
qed

text \<open>
  The in-memory signal wakes whom it should: after any sequence of calls, the waiters that
  still sleep on a queue are those that began to wait after its last signal and have not timed
  out; signals and timeouts of other queues change nothing.  So a signal wakes every waiter of
  its queue and none of another, and one that comes before the wait is missed.
\<close>

lemma signal_wakes_queue:
  assumes "notify_ok N"
  shows "sleeping N q (signal_run N ops []) = fold (sleepers q) ops {}"
    and "sleeping N q (signal_run N (ops @ [Notify q]) []) = {}"
    and "q' \<noteq> q \<Longrightarrow> sleeping N q (signal_run N (ops @ [Notify q']) []) = sleeping N q (signal_run N ops [])"
proof -
  have "sleeping N q [] = {}" using assms by (simp add: sleeping_def channel_def notify_ok_def)
  with sleeping_run [OF assms] show "sleeping N q (signal_run N ops []) = fold (sleepers q) ops {}"
    "sleeping N q (signal_run N (ops @ [Notify q]) []) = {}"
    "q' \<noteq> q \<Longrightarrow> sleeping N q (signal_run N (ops @ [Notify q']) []) = sleeping N q (signal_run N ops [])"
    by simp_all
qed

end
