(* ===== verification/Worker_Presence.thy ===== *)
theory Worker_Presence
  imports Postgres_Properties
begin

text \<open>
  Worker presence, \<open>koine-store-postgres/src/presence.rs\<close>: one row per worker, written at most
  once per call and never waited for.  What the pool and the network do to a call is an input.
\<close>

record worker_row =
  wk_first_seen :: date_time
  wk_last_seen :: date_time
  wk_last_queue :: "rstring option"

record pg_presence =
  presence_workers :: "(rstring \<times> worker_row) list"
  presence_dropped :: u64

definition presence_new :: pg_presence where
  "presence_new = \<lparr>presence_workers = [], presence_dropped = 0\<rparr>"

text \<open>
  What a call meets: whether the pool has a connection to spare, the time \<open>now()\<close> of the
  database, and the fate of the statement.  A statement that overruns the budget is abandoned by
  the client; the database may have executed it all the same.
\<close>

datatype write_fate = Completed | Failed | Overran bool

record presence_env =
  env_connection :: bool
  env_db_now :: date_time
  env_fate :: write_fate

text \<open>\<open>PRESENCE_UPSERT\<close>.\<close>

definition presence_upsert ::
  "date_time \<Rightarrow> rstring \<Rightarrow> rstring option \<Rightarrow> (rstring \<times> worker_row) list \<Rightarrow> (rstring \<times> worker_row) list" where
  "presence_upsert now worker_id last_queue rows =
     AList.update worker_id
       (case map_of rows worker_id of
          None \<Rightarrow> \<lparr>wk_first_seen = now, wk_last_seen = now, wk_last_queue = last_queue\<rparr>
        | Some row \<Rightarrow> row\<lparr>wk_last_seen := now,
            wk_last_queue := (case last_queue of None \<Rightarrow> wk_last_queue row | Some q \<Rightarrow> Some q)\<rparr>) rows"

definition statement_fate :: "rstring \<Rightarrow> rstring option \<Rightarrow> presence_env \<Rightarrow> write_fate" where
  "statement_fate worker_id last_queue env =
     (if pg_text worker_id \<and> is_none_or pg_text last_queue then env_fate env
      else case env_fate env of Completed \<Rightarrow> Failed | Failed \<Rightarrow> Failed | Overran _ \<Rightarrow> Overran False)"

definition seen_in :: "presence_env \<Rightarrow> WorkerId \<Rightarrow> QueueName option \<Rightarrow> pg_presence \<Rightarrow> pg_presence" where
  "seen_in env worker queue p =
     (if \<not> env_connection env then p\<lparr>presence_dropped := presence_dropped p + 1\<rparr>
      else let worker_id = worker_str worker;
               last_queue = map_option queue_str queue;
               written = p\<lparr>presence_workers := presence_upsert (env_db_now env) worker_id last_queue (presence_workers p)\<rparr>
           in case statement_fate worker_id last_queue env of
                Completed \<Rightarrow> written
              | Failed \<Rightarrow> p\<lparr>presence_dropped := presence_dropped p + 1\<rparr>
              | Overran executed \<Rightarrow>
                  (if executed then written else p)\<lparr>presence_dropped := presence_dropped p + 1\<rparr>)"

text \<open>The presence port of the service, with the environment as a source of \<open>presence_env\<close>.\<close>

definition pg_seen ::
  "('x \<Rightarrow> presence_env \<times> 'x) \<Rightarrow> WorkerId \<Rightarrow> QueueName option \<Rightarrow> pg_presence \<times> 'x \<Rightarrow> pg_presence \<times> 'x" where
  "pg_seen net worker queue px =
     (let (p, x) = px; (env, x) = net x in (seen_in env worker queue p, x))"

definition noop_seen :: "WorkerId \<Rightarrow> QueueName option \<Rightarrow> 'p \<Rightarrow> 'p" where
  "noop_seen worker queue p = p"

section \<open>What the table says\<close>

type_synonym presence_call = "WorkerId \<times> QueueName option \<times> presence_env"

definition took_effect :: "presence_call \<Rightarrow> bool" where
  "took_effect c \<longleftrightarrow>
     (case c of (worker, queue, env) \<Rightarrow>
        env_connection env
        \<and> statement_fate (worker_str worker) (map_option queue_str queue) env \<in> {Completed, Overran True})"

definition confirmed :: "presence_call \<Rightarrow> bool" where
  "confirmed c \<longleftrightarrow>
     (case c of (worker, queue, env) \<Rightarrow>
        env_connection env \<and> statement_fate (worker_str worker) (map_option queue_str queue) env = Completed)"

definition call_time :: "presence_call \<Rightarrow> date_time" where
  "call_time c = env_db_now (snd (snd c))"

definition calls_of :: "WorkerId \<Rightarrow> presence_call list \<Rightarrow> presence_call list" where
  "calls_of worker cs = filter (\<lambda>c. fst c = worker \<and> took_effect c) cs"

definition named_queues :: "presence_call list \<Rightarrow> rstring list" where
  "named_queues cs = concat (map (\<lambda>c. case fst (snd c) of Some q \<Rightarrow> [queue_str q] | None \<Rightarrow> []) cs)"

definition presence_run :: "presence_call list \<Rightarrow> pg_presence" where
  "presence_run cs = fold (\<lambda>(worker, queue, env). seen_in env worker queue) cs presence_new"

lemma presence_run_snoc:
  "presence_run (cs @ [(worker, queue, env)]) = seen_in env worker queue (presence_run cs)"
  by (simp add: presence_run_def)

lemma seen_in_dropped:
  "presence_dropped (seen_in env worker queue p) =
     presence_dropped p + (if confirmed (worker, queue, env) then 0 else 1)"
  by (simp add: seen_in_def confirmed_def Let_def split: write_fate.split)

lemma seen_in_workers:
  "presence_workers (seen_in env worker queue p) =
     (if took_effect (worker, queue, env)
      then presence_upsert (env_db_now env) (worker_str worker) (map_option queue_str queue) (presence_workers p)
      else presence_workers p)"
  by (auto simp: seen_in_def took_effect_def Let_def split: write_fate.split)

definition row_of :: "presence_call list \<Rightarrow> worker_row option" where
  "row_of cs = (if cs = [] then None
     else Some \<lparr>wk_first_seen = call_time (hd cs), wk_last_seen = call_time (last cs),
                wk_last_queue = (if named_queues cs = [] then None else Some (last (named_queues cs)))\<rparr>)"

lemma row_of_snoc:
  "row_of (cs @ [(worker, queue, env)]) =
     Some (case row_of cs of
        None \<Rightarrow> \<lparr>wk_first_seen = env_db_now env, wk_last_seen = env_db_now env, wk_last_queue = map_option queue_str queue\<rparr>
      | Some row \<Rightarrow> row\<lparr>wk_last_seen := env_db_now env,
            wk_last_queue := (case map_option queue_str queue of None \<Rightarrow> wk_last_queue row | Some q \<Rightarrow> Some q)\<rparr>)"
  by (cases queue) (auto simp: row_of_def named_queues_def call_time_def)

text \<open>
  C30. Presence tells the truth, as far as it was written.  After any sequence of calls, whatever the
  pool and the network did to each: the row of a worker gives the database time of the first and
  of the last of its calls that took effect and the queue it last named in one of them, there is
  no row when none took effect, and the counter is the number of calls that were not confirmed.
  A call that overran its budget is counted as dropped even when the database executed it.
\<close>

theorem presence_truthful:
  "map_of (presence_workers (presence_run cs)) (worker_str worker) = row_of (calls_of worker cs)
   \<and> presence_dropped (presence_run cs) = of_nat (length (filter (\<lambda>c. \<not> confirmed c) cs))"
proof (induction cs rule: rev_induct)
  case Nil
  then show ?case by (simp add: presence_run_def presence_new_def calls_of_def row_of_def)
next
  case (snoc c cs)
  obtain w q env where c: "c = (w, q, env)" by (cases c)
  have "worker_str w = worker_str worker \<longleftrightarrow> w = worker" by (auto intro: WorkerId.expand)
  with snoc show ?case
    by (cases "took_effect c"; cases "w = worker")
       (auto simp: c presence_run_snoc seen_in_dropped seen_in_workers presence_upsert_def update_conv' calls_of_def row_of_snoc)
qed

end
