(* ===== verification/Store_Agreement.thy ===== *)
theory Store_Agreement
  imports Postgres_Properties Memory_Broker
begin

text \<open>
  The two adapters of the \<open>EventStore\<close> port side by side: \<open>koine-store-memory/src/store.rs\<close> and
  \<open>koine-store-postgres/src/store.rs\<close> give the same answers to the same appends and loads.
\<close>

definition same_histories :: "('v, 'j) pg \<Rightarrow> 'v InMemoryEventStore \<Rightarrow> 'j pg_db \<Rightarrow> bool" where
  "same_histories K st d \<longleftrightarrow> (\<forall>j. list_all2 kept_as (store_hist st j) (pg_hist K d j))"

text \<open>The adapters word one message differently.\<close>

definition pg_wording :: "EventStoreError \<Rightarrow> EventStoreError" where
  "pg_wording x =
     (case x of StoreBackend (Msg_error m e) \<Rightarrow>
        StoreBackend (Msg_error (if m = ''batch does not fold'' then ''stream does not fold'' else m) e)
      | _ \<Rightarrow> x)"

lemma memory_append_answer:
  assumes "store_inv st" and "length (store_hist st k) < 2 ^ 63"
  shows "fst (memory_append k v es st) =
    (if unat v \<noteq> length (store_hist st k) then Err (VersionConflict k v)
     else if \<not> (sequential v es \<and> list_all (\<lambda>e. env_stream_id e = k) es)
     then Err (StoreBackend (Msg_id ''malformed envelope batch for'' k))
     else and_then (map_err (\<lambda>e. StoreBackend (Msg_error ''batch does not fold'' e))
            (from_events (store_hist st k @ es))) (\<lambda>_. Ok ()))"
proof -
  from assms(1) obtain i where i: "st = Store i" by (rule store_invE)
  have len: "length (stream_or_default i k) < 2 ^ 64"
    using assms(2) by (simp add: store_hist_def i)
  then have v: "(of_nat (length (stream_or_default i k)) = v) = (unat v = length (stream_or_default i k))"
    by (auto simp: unat_of_nat_small) (simp add: eq_commute [of "unat v"])
  show ?thesis
    using len v
    by (cases "from_events (store_hist st k @ es)")
       (auto simp: i memory_append_Store append_locked_def u64_try_from_def store_hist_def batch_ok_iff)
qed

lemma same_lengths: "same_histories K st d \<Longrightarrow> length (pg_hist K d k) = length (store_hist st k)"
  unfolding same_histories_def by (metis list_all2_lengthD)

lemma answers_agree:
  assumes "store_inv st" and "pg_inv K d" and "same_histories K st d"
    and "length (store_hist st k) < 2 ^ 63" and "pg_storable K d k es"
  shows "fst (pg_append K k v es d) = map_err pg_wording (fst (memory_append k v es st))"
proof -
  obtain es' where es': "list_all2 kept_as es es'" and pg: "fst (pg_append K k v es d) =
    (if unat v \<noteq> length (pg_hist K d k) then Err (VersionConflict k v)
     else if \<not> (sequential v es \<and> list_all (\<lambda>e. env_stream_id e = k) es)
     then Err (StoreBackend (Msg_id ''malformed envelope batch for'' k))
     else and_then (map_err (\<lambda>e. StoreBackend (Msg_error ''stream does not fold'' e))
            (from_events (pg_hist K d k @ es'))) (\<lambda>_. Ok ()))"
    using pg_append_answer [OF assms(2,5)] by blast
  have "list_all2 kept_as (store_hist st k @ es) (pg_hist K d k @ es')"
    using assms(3) es' by (simp add: same_histories_def list_all2_appendI)
  note fold = from_events_forget [OF this]
  show ?thesis
    unfolding pg memory_append_answer [OF assms(1,4)] same_lengths [OF assms(3)]
    using fold
    by (cases "from_events (store_hist st k @ es)"; cases "from_events (pg_hist K d k @ es')")
       (auto simp: pg_wording_def)
qed

lemma loads_agree:
  assumes "store_inv st" and "pg_inv K d" and "same_histories K st d"
  shows "rel_outcome (list_all2 kept_as) (=) (memory_load k st) (pg_load K k d)"
  using assms(3) same_lengths [OF assms(3), of k]
  by (auto simp: memory_load_law [OF assms(1)] pg_load_law [OF assms(2)] same_histories_def)

text \<open>
  C9. The two stores agree.  Take an in-memory store and a database with the same histories, and a
  batch the database can hold.  An append is accepted by both or refused by both, with the same
  error up to one wording; afterwards the histories are the same again, and unchanged when it was
  refused; and a load then gives the same answer for every stream.  Histories are the same up to
  the recording time, which the database keeps to the microsecond, and null values.
\<close>

theorem stores_agree:
  assumes "store_inv st" and "pg_inv K d" and "same_histories K st d"
    and "length (store_hist st j) < 2 ^ 63" and "pg_storable K d j es"
    and "memory_append j v es st = (r, st')" and "pg_append K j v es d = (r', d')"
  shows "r' = map_err pg_wording r \<and> same_histories K st' d' \<and> (r \<noteq> Ok () \<longrightarrow> st' = st \<and> d' = d)
    \<and> (\<forall>k. rel_outcome (list_all2 kept_as) (=) (memory_load k st') (pg_load K k d'))"
proof -
  have r: "r' = map_err pg_wording r"
    using answers_agree [OF assms(1-5), of v] assms(6,7) by simp
  have "store_inv st' \<and> pg_inv K d' \<and> same_histories K st' d' \<and> (r \<noteq> Ok () \<longrightarrow> st' = st \<and> d' = d)"
  proof (cases r)
    case (Ok u)
    with r assms(6,7) have ok: "memory_append j v es st = (Ok (), st')" "pg_append K j v es d = (Ok (), d')" by simp_all
    from pg_append_law [OF assms(2) ok(2)] obtain es' where es': "pg_inv K d'" "list_all2 kept_as es es'"
        "pg_hist K d' = (pg_hist K d)(j := pg_hist K d j @ es')" by blast
    with memory_append_hist [OF assms(1) ok(1)] assms(3) Ok show ?thesis
      by (simp add: same_histories_def list_all2_appendI)
  next
    case (Err x)
    with r assms(6,7) have "st' = st" "d' = d"
      using memory_append_Err [of j v es st x st'] pg_append_Err [of K j v es d "pg_wording x" d'] by auto
    with Err assms(1-3) show ?thesis by simp
  next
    case Panic
    with assms(6) memory_append_not_Panic [of j v es st] show ?thesis by simp
  qed
  with r loads_agree show ?thesis by auto
qed

theorem stores_agree_witness:
  "same_histories sample_pg (sample_store sample_running) (sample_db sample_running)
   \<and> store_hist (sample_store sample_running) (JobId 1) = sample_running"
proof -
  have "store_hist store_new k = ([] :: nat stream)" for k
    by (simp add: store_hist_def store_new_def inner_default_def stream_or_default_def)
  then have h: "length (store_hist (store_new :: nat InMemoryEventStore) (JobId 1)) < 2 ^ 63"
    and same: "same_histories sample_pg store_new pg_empty"
    by (simp_all add: same_histories_def pg_hist_empty)
  have "pg_text (worker_str sample_worker)" by (simp add: pg_text_def sample_worker_def lit_def)
  then have st: "pg_storable sample_pg pg_empty (JobId 1) sample_running"
    using sample_storable sample_folds(3) sample_projectable [of "S_Running sample_worker (LeaseId 50) 30" 3]
    by (simp add: pg_storable_def pg_hist_empty) (simp add: pg_empty_def sample_streams sample_envelope_def)
  obtain r where "memory_append (JobId 1) 0 sample_running store_new = (r, sample_store sample_running)"
    by (metis sample_store_def surjective_pairing)
  from stores_agree [OF store_inv_new pg_inv_empty [OF sample_pg_ok] same h st this sample_appends(3)]
  show ?thesis using sample_stores(6) by blast
qed

end
