(* ===== verification/Dev_Loop.thy ===== *)
theory Dev_Loop
  imports Koine_Server
begin

text \<open>
  The self-test of the server, \<open>koine-server/src/dev_loop.rs\<close>: three jobs on a fresh database, a
  worker that misbehaves as their payloads ask, and a main loop that sweeps, relays and polls until
  all have succeeded and then checks the recorded stories.  Worker and main loop are two tasks on
  one database; a turn of a task is what it does between two waits, one transaction at a time, and
  \<open>dev_step\<close> interleaves the turns in any order.  Printing of stories and ids is not modelled.
\<close>

section \<open>Payloads and errors\<close>

text \<open>
  What the loop uses of \<open>serde_json\<close>: \<open>as_flag\<close> is \<open>get\<close> followed by \<open>as_bool\<close>, the other three
  build the literals \<open>{}\<close>, \<open>{name: true}\<close> and a string.
\<close>

record 'v json =
  as_flag :: "'v \<Rightarrow> string \<Rightarrow> bool option"
  empty_object :: 'v
  true_object :: "string \<Rightarrow> 'v"
  json_string :: "string \<Rightarrow> 'v"

text \<open>Documented behaviour: a field that is not there gives none, one that is gives its value.\<close>

definition json_ok :: "'v json \<Rightarrow> bool" where
  "json_ok J \<longleftrightarrow>
     (\<forall>name \<in> {''crashy'', ''flaky''}.
        as_flag J (empty_object J) name = None
        \<and> (\<forall>field \<in> {''crashy'', ''flaky''}.
             as_flag J (true_object J field) name = (if name = field then Some True else None)))"

datatype StoryMarker = MissingPlain "string list" | MissingCrashy | MissingFlaky

datatype DevError =
    DevEnqueue string EnqueueError
  | DevLease DispatchError
  | DevStart JobId AckError
  | DevFail JobId AckError
  | DevSucceed JobId AckError
  | DevLoad JobId EventStoreError
  | DevSweep SweepError
  | DevRelay RelayError
  | DevTimedOut
  | DevMissing "StoryMarker list"

definition dev_retry_policy :: RetryPolicy where
  "dev_retry_policy = \<lparr>max_attempts = 3, base_delay = from_millis 500, max_delay = from_secs 2\<rparr>"

definition flag :: "'v json \<Rightarrow> 'v \<Rightarrow> string \<Rightarrow> bool" where
  "flag J payload name = (case as_flag J payload name of Some b \<Rightarrow> b | None \<Rightarrow> False)"

section \<open>Stories\<close>

definition kinds :: "'v stream \<Rightarrow> string list" where
  "kinds xs = map (\<lambda>env. kind (env_event env)) xs"

definition story :: "('s, 'v) event_store \<Rightarrow> JobId \<Rightarrow> 's \<Rightarrow> (string list, DevError) outcome" where
  "story S job s = and_then (map_err (DevLoad job) (es_load S job s)) (\<lambda>envelopes. Ok (kinds envelopes))"

definition missing_markers :: "string list \<Rightarrow> string list \<Rightarrow> string list \<Rightarrow> StoryMarker list" where
  "missing_markers job1_story job2_story job3_story =
     (if job1_story \<noteq> [''enqueued'', ''leased'', ''started'', ''succeeded''] then [MissingPlain job1_story] else [])
     @ (if ''lease_expired'' \<notin> set job2_story then [MissingCrashy] else [])
     @ (if \<not> (''failed'' \<in> set job3_story \<and> ''retry_scheduled'' \<in> set job3_story) then [MissingFlaky] else [])"

definition stories_verdict :: "string list list \<Rightarrow> (unit, DevError) outcome" where
  "stories_verdict stories =
     (let missing = missing_markers (stories ! 0) (stories ! 1) (stories ! 2)
      in if missing = [] then Ok () else Err (DevMissing missing))"

section \<open>The worker task\<close>

definition dev_worker_id :: WorkerId where
  "dev_worker_id = WorkerId (lit ''dev-worker'')"

definition dev_queue :: QueueName where
  "dev_queue = QueueName (lit ''dev'')"

definition dev_lease_ttl :: duration where
  "dev_lease_ttl = from_secs 2"

definition transient_error :: JobError where
  "transient_error = \<lparr>error_kind = lit ''io'', error_message = lit ''simulated transient io error'',
     error_stacktrace = None, error_retryable = True\<rparr>"

text \<open>Where the worker is in its loop: before the lease, before the start, before the report, or ended.\<close>

datatype 'v dev_worker =
    W_Idle
  | W_Leased "'v LeasedJob"
  | W_Started "'v LeasedJob"
  | W_Ended "(unit, DevError) outcome"

definition worker_lease :: "'v json \<Rightarrow> ('w, 'v) dispatcher \<Rightarrow> 'w \<Rightarrow> 'v dev_worker \<times> 'w" where
  "worker_lease J D w =
     (case lease_execute D dev_queue dev_worker_id dev_lease_ttl w of
        (Ok None, w) \<Rightarrow> (W_Idle, w)
      | (Ok (Some leased), w) \<Rightarrow>
          (if flag J (lj_payload leased) ''crashy'' \<and> lj_attempt leased = 0 then W_Idle else W_Leased leased, w)
      | (Err x, w) \<Rightarrow> (W_Ended (Err (DevLease x)), w)
      | (Panic, w) \<Rightarrow> (W_Ended Panic, w))"

definition worker_start ::
  "('s, 'v) event_store \<Rightarrow> 'e runtime \<Rightarrow> 'v LeasedJob \<Rightarrow> 's \<times> 'e \<Rightarrow> 'v dev_worker \<times> 's \<times> 'e" where
  "worker_start S rt leased w =
     (case ack_start S rt (lj_job_id leased) dev_worker_id w of
        (Ok _, w) \<Rightarrow> (W_Started leased, w)
      | (Err x, w) \<Rightarrow> (W_Ended (Err (DevStart (lj_job_id leased) x)), w)
      | (Panic, w) \<Rightarrow> (W_Ended Panic, w))"

definition worker_report ::
  "'v json \<Rightarrow> chrono \<Rightarrow> ('s, 'v) event_store \<Rightarrow> 'e runtime \<Rightarrow> 'v LeasedJob \<Rightarrow> 's \<times> 'e \<Rightarrow> 'v dev_worker \<times> 's \<times> 'e"
where
  "worker_report J C S rt leased w =
     (if flag J (lj_payload leased) ''flaky'' \<and> lj_attempt leased = 0
      then case ack_fail C S rt (lj_job_id leased) dev_worker_id (lj_lease leased) transient_error w of
             (Ok _, w) \<Rightarrow> (W_Idle, w)
           | (Err x, w) \<Rightarrow> (W_Ended (Err (DevFail (lj_job_id leased) x)), w)
           | (Panic, w) \<Rightarrow> (W_Ended Panic, w)
      else case ack_succeed S rt (lj_job_id leased) dev_worker_id (lj_lease leased)
                  (Some (json_string J ''done'')) w of
             (Ok _, w) \<Rightarrow> (W_Idle, w)
           | (Err x, w) \<Rightarrow> (W_Ended (Err (DevSucceed (lj_job_id leased) x)), w)
           | (Panic, w) \<Rightarrow> (W_Ended Panic, w))"

definition worker_turn ::
  "'v json \<Rightarrow> chrono \<Rightarrow> ('s, 'v) event_store \<Rightarrow> 'e runtime \<Rightarrow> ('s \<times> 'e, 'v) dispatcher
   \<Rightarrow> 'v dev_worker \<Rightarrow> 's \<times> 'e \<Rightarrow> 'v dev_worker \<times> 's \<times> 'e" where
  "worker_turn J C S rt D wk w =
     (case wk of
        W_Idle \<Rightarrow> worker_lease J D w
      | W_Leased leased \<Rightarrow> worker_start S rt leased w
      | W_Started leased \<Rightarrow> worker_report J C S rt leased w
      | W_Ended r \<Rightarrow> (W_Ended r, w))"

section \<open>Enqueueing the jobs\<close>

definition dev_command :: "'v \<Rightarrow> 'v EnqueueCommand" where
  "dev_command payload =
     \<lparr>cmd_queue = dev_queue, cmd_payload = payload, cmd_priority = Priority 0,
      cmd_retry_policy = dev_retry_policy, cmd_not_before = None, cmd_lineage = lineage_default\<rparr>"

primrec enqueue_each ::
  "('s, 'v) event_store \<Rightarrow> 'e runtime \<Rightarrow> (string \<times> 'v) list \<Rightarrow> 's \<times> 'e
   \<Rightarrow> (JobId list, DevError) outcome \<times> 's \<times> 'e" where
  "enqueue_each S rt [] w = (Ok [], w)"
| "enqueue_each S rt (job # jobs) w =
     (case enqueue_execute S rt (dev_command (snd job)) w of
        (Ok jid, w) \<Rightarrow>
          (case enqueue_each S rt jobs w of (r, w) \<Rightarrow> (and_then r (\<lambda>jids. Ok (jid # jids)), w))
      | (Err x, w) \<Rightarrow> (Err (DevEnqueue (fst job) x), w)
      | (Panic, w) \<Rightarrow> (Panic, w))"

definition dev_jobs :: "'v json \<Rightarrow> (string \<times> 'v) list" where
  "dev_jobs J =
     [(''job1 (plain)'', empty_object J), (''job2 (crashy)'', true_object J ''crashy''),
      (''job3 (flaky)'', true_object J ''flaky'')]"

definition enqueue_dev_jobs ::
  "'v json \<Rightarrow> ('s, 'v) event_store \<Rightarrow> 'e runtime \<Rightarrow> 's \<times> 'e \<Rightarrow> (JobId list, DevError) outcome \<times> 's \<times> 'e" where
  "enqueue_dev_jobs J S rt w = enqueue_each S rt (dev_jobs J) w"

section \<open>The main loop\<close>

text \<open>
  Where the main task is: inside the sweep of a tick, before the relay, polling (the jobs still to
  look at and whether all so far have succeeded), checking (the jobs still to load and the stories
  loaded), or returned.
\<close>

datatype dev_main =
    M_Sweep
  | M_Relay
  | M_Poll "JobId list" bool
  | M_Check "JobId list" "string list list"
  | M_Done "(unit, DevError) outcome"

record ('v, 'j, 'e) dev =
  dl_world :: "('j, 'e) pg_world"
  dl_printed :: "(JobId \<times> u64 \<times> string) list"
  dl_worker :: "'v dev_worker"
  dl_main :: dev_main

definition main_sweep :: "('w, 'v) dispatcher \<Rightarrow> 'w \<Rightarrow> dev_main \<times> 'w" where
  "main_sweep D w =
     (case retire_next_expired_lease D w of
        (Ok (Some _), w) \<Rightarrow> (M_Sweep, w)
      | (Ok None, w) \<Rightarrow> (M_Relay, w)
      | (Err x, w) \<Rightarrow> (M_Done (Err (DevSweep (SweepDispatch x))), w)
      | (Panic, w) \<Rightarrow> (M_Done Panic, w))"

definition main_relay ::
  "('v, 'j) pg \<Rightarrow> JobId list \<Rightarrow> 'j pg_db \<times> (JobId \<times> u64 \<times> string) list
   \<Rightarrow> dev_main \<times> 'j pg_db \<times> (JobId \<times> u64 \<times> string) list" where
  "main_relay K tracked w =
     (case relay_once K printing_sink 64 (\<lambda>_. False) w of
        (Ok _, w) \<Rightarrow> (M_Poll tracked True, w)
      | (Err x, w) \<Rightarrow> (M_Done (Err (DevRelay x)), w)
      | (Panic, w) \<Rightarrow> (M_Done Panic, w))"

text \<open>\<open>timed_out\<close> is the comparison of the instant with the deadline.\<close>

definition main_poll ::
  "('s, 'v) event_store \<Rightarrow> JobId list \<Rightarrow> bool \<Rightarrow> JobId list \<Rightarrow> bool \<Rightarrow> 's \<Rightarrow> dev_main" where
  "main_poll S tracked timed_out jobs all_succeeded s =
     (case jobs of
        job # jobs \<Rightarrow>
          (case story S job s of
             Ok told \<Rightarrow> M_Poll jobs (all_succeeded \<and> ''succeeded'' \<in> set told)
           | Err x \<Rightarrow> M_Done (Err x)
           | Panic \<Rightarrow> M_Done Panic)
      | [] \<Rightarrow>
          if all_succeeded then M_Check tracked []
          else if timed_out then M_Done (Err DevTimedOut)
          else M_Sweep)"

definition check_stories ::
  "('s, 'v) event_store \<Rightarrow> JobId list \<Rightarrow> string list list \<Rightarrow> 's \<Rightarrow> dev_main" where
  "check_stories S jobs stories s =
     (case jobs of
        job # jobs \<Rightarrow>
          (case story S job s of
             Ok told \<Rightarrow> M_Check jobs (stories @ [told])
           | Err x \<Rightarrow> M_Done (Err x)
           | Panic \<Rightarrow> M_Done Panic)
      | [] \<Rightarrow> M_Done (stories_verdict stories))"

definition main_turn ::
  "('v, 'j) pg \<Rightarrow> (('j, 'e) pg_world, 'v) dispatcher \<Rightarrow> JobId list \<Rightarrow> bool \<Rightarrow> ('v, 'j, 'e) dev \<Rightarrow> ('v, 'j, 'e) dev" where
  "main_turn K D tracked timed_out s =
     (case dl_main s of
        M_Sweep \<Rightarrow> (let (m, w) = main_sweep D (dl_world s) in s\<lparr>dl_world := w, dl_main := m\<rparr>)
      | M_Relay \<Rightarrow>
          (let (m, d, printed) = main_relay K tracked (fst (dl_world s), dl_printed s)
           in s\<lparr>dl_world := (d, snd (dl_world s)), dl_printed := printed, dl_main := m\<rparr>)
      | M_Poll jobs ok \<Rightarrow> s\<lparr>dl_main := main_poll (pg_store K) tracked timed_out jobs ok (fst (dl_world s))\<rparr>
      | M_Check jobs stories \<Rightarrow> s\<lparr>dl_main := check_stories (pg_store K) jobs stories (fst (dl_world s))\<rparr>
      | M_Done r \<Rightarrow> s)"

text \<open>
  Turns in any order.  An ack whose load and append are separated by a retirement ends the worker
  with a version conflict, and a lost connection can end it at any time: \<open>dev_lost\<close>.  Aborting the
  worker is not awaited, so its turns may go on after the main loop has left its loop.
\<close>

inductive dev_step ::
  "'v json \<Rightarrow> chrono \<Rightarrow> 'e runtime \<Rightarrow> ('v, 'j) pg \<Rightarrow> ('j, 'e) row_locks \<Rightarrow> JobId list
   \<Rightarrow> ('v, 'j, 'e) dev \<Rightarrow> ('v, 'j, 'e) dev \<Rightarrow> bool"
  for J C rt K busy tracked where
  dev_worker: "worker_turn J C (pg_store K) rt (pg_dispatcher C rt K busy) (dl_worker s) (dl_world s) = (wk, w) \<Longrightarrow>
    dev_step J C rt K busy tracked s (s\<lparr>dl_worker := wk, dl_world := w\<rparr>)"
| dev_lost: "dev_step J C rt K busy tracked s (s\<lparr>dl_worker := W_Ended (Err x)\<rparr>)"
| dev_main: "dev_step J C rt K busy tracked s (main_turn K (pg_dispatcher C rt K busy) tracked timed_out s)"

definition dev_init :: "('j, 'e) pg_world \<Rightarrow> ('v, 'j, 'e) dev" where
  "dev_init w = \<lparr>dl_world = w, dl_printed = [], dl_worker = W_Idle, dl_main = M_Sweep\<rparr>"

section \<open>What the use cases record\<close>

definition recorded :: "(JobId \<Rightarrow> 'v stream) \<Rightarrow> JobId \<Rightarrow> 'v JobEvent list \<Rightarrow> (JobId \<Rightarrow> 'v stream) \<Rightarrow> bool" where
  "recorded h j evs h' \<longleftrightarrow>
     (\<exists>es job job'. h' = h(j := h j @ es) \<and> map kind evs = kinds es
        \<and> from_events (h j) = Ok job \<and> apply_all job evs = Ok job' \<and> from_events (h' j) = Ok job')"

lemma apply_all_kept:
  "list_all2 kept_event evs evs' \<Longrightarrow> \<forall>ev \<in> set evs. \<not> replaces_payload ev \<Longrightarrow> apply_all job evs' = apply_all job evs"
  by (induction evs evs' arbitrary: job rule: list_all2_induct) (simp_all add: apply_event_kept)

lemma kept_kinds: "list_all2 kept_event evs (map env_event es) \<Longrightarrow> map kind evs = kinds es"
  by (induction evs arbitrary: es) (auto simp: kinds_def list_all2_Cons1 kept_event_kind)

lemma extends_recorded:
  assumes "extends h j evs h'" and "from_events (h j) = Ok job" and "from_events (h' j) = Ok job'"
  shows "recorded h j evs h'"
proof -
  from assms(1) obtain es where es: "h' = h(j := h j @ es)" "map env_event es = evs" by (rule extends_events)
  then have "apply_all job evs = Ok job'"
    using assms(2,3) by (simp add: from_events_snoc_cases)
  with es assms(2,3) show ?thesis by (auto simp: recorded_def kinds_def)
qed

context event_store_contract
begin

lemma ack_append_effect:
  assumes "inv s" and "from_events (hist s j) = Ok job" and "ack_append S rt job xs evs (s, e) = (r, s', e')"
    and "\<forall>ev \<in> set evs. \<not> replaces_payload ev"
  shows "inv s' \<and> (r = Ok () \<and> recorded (hist s) j evs (hist s') \<or> r \<noteq> Ok () \<and> hist s' = hist s)"
proof -
  have j: "job_id job = j" by (rule known_job_id [OF assms(1,2)])
  obtain corr caus trace where lin: "lineage_of xs = (corr, caus, trace)" by (metis surj_pair)
  obtain es e1 where es: "wrap_events rt j (job_version job) corr caus trace evs e = (es, e1)" by fastforce
  have ap: "es_append S j (job_version job) es s = (r, s')"
    using assms(3) by (simp add: ack_append_def lin j es split: prod.splits)
  show ?thesis
  proof (cases r)
    case (Ok u)
    with append_Ok [OF assms(1)] ap obtain es' where es': "inv s'" "list_all2 kept_as es es'"
        "hist s' = (hist s)(j := hist s j @ es')" by blast
    have "list_all2 kept_event evs (map env_event es')"
      using kept_events [OF es'(2)] wrappedD(1) [OF wrap_events_wrapped [OF es]] by simp
    note kept = apply_all_kept [OF this assms(4)] kept_kinds [OF this]
    have "hist s' j \<noteq> []" using es'(3) from_events_frame [OF assms(2)] by auto
    with hist_folds [OF es'(1)] obtain job' where job': "from_events (hist s' j) = Ok job'" by blast
    then have "apply_all job evs = Ok job'"
      using assms(2) kept(1) by (simp add: es'(3) from_events_snoc_cases)
    with Ok es' kept(2) assms(2) job' show ?thesis by (auto simp: recorded_def)
  next
    case (Err x)
    with ap have "es_append S j (job_version job) es s = (Err x, s')" by simp
    from append_Err [OF assms(1) this] assms(1) Err show ?thesis by simp
  next
    case Panic
    with append_returns [OF assms(1), of j "job_version job" es] ap show ?thesis by simp
  qed
qed

lemma ack_loaded_effect:
  assumes "inv s" and "ack_loaded S j k (s, e) = (r, s', e')"
  obtains "inv s'" "hist s' = hist s" "\<exists>x. r = Err x"
  | job where "from_events (hist s j) = Ok job" "k job (hist s j) (s, e) = (r, s', e')"
proof (cases "hist s j = []")
  case True
  with ack_loaded_unknown [OF assms(1) True, of k e] assms that(1) show thesis by simp
next
  case False
  with hist_folds [OF assms(1)] obtain job where "from_events (hist s j) = Ok job" by blast
  with ack_loaded_known [OF assms(1) this, of k e] assms(2) that(2) show thesis by simp
qed

lemma ack_reply_effect:
  assumes "inv s" and "from_events (hist s j) = Ok job" and "ack_reply a (ack_append S rt job xs evs (s, e)) = (r, s', e')"
    and "\<forall>ev \<in> set evs. \<not> replaces_payload ev"
  shows "inv s' \<and> (r = Ok a \<and> recorded (hist s) j evs (hist s') \<or> (\<forall>b. r \<noteq> Ok b) \<and> hist s' = hist s)"
proof -
  obtain r1 s1 e1 where r1: "ack_append S rt job xs evs (s, e) = (r1, s1, e1)" by (metis surj_pair)
  with assms(3) have "s1 = s'" "r = and_then (map_err AckStore r1) (\<lambda>_. Ok a)" by (simp_all add: ack_reply_def)
  with ack_append_effect [OF assms(1,2) r1 assms(4)] show ?thesis by (cases r1) auto
qed

lemma ack_start_effect:
  assumes "inv s" and "ack_start S rt j worker (s, e) = (r, s', e')"
  shows "inv s' \<and> (if r = Ok () then recorded (hist s) j [E_Started worker] (hist s') else hist s' = hist s)"
  using assms(1) assms(2) [unfolded ack_start_def]
proof (rule ack_loaded_effect)
  fix job assume f: "from_events (hist s j) = Ok job" and run: "ack_start_loaded S rt job (hist s j) worker (s, e) = (r, s', e')"
  show ?thesis
  proof (cases "start job worker")
    case (Ok ev)
    then have ev: "ev = E_Started worker" by (auto simp: start_def split: JobState.splits if_splits)
    have "ack_reply () (ack_append S rt job (hist s j) [E_Started worker] (s, e)) = (r, s', e')"
      using run Ok ev by (simp add: ack_start_loaded_def)
    from ack_reply_effect [OF assms(1) f this] show ?thesis by (auto simp: replaces_payload_def)
  qed (use run assms(1) in \<open>auto simp: ack_start_loaded_def\<close>)
qed auto

lemma ack_succeed_effect:
  assumes "inv s" and "ack_succeed S rt j worker l res (s, e) = (r, s', e')"
  shows "inv s' \<and> (hist s' = hist s \<or> (\<exists>job. from_events (hist s j) = Ok job \<and>
      recorded (hist s) j [if runs_under job l then E_Succeeded res else late_ack worker l ReportedSucceeded] (hist s')))"
  using assms(1) assms(2) [unfolded ack_succeed_def]
proof (rule ack_loaded_effect)
  fix job assume f: "from_events (hist s j) = Ok job" and run: "ack_succeed_loaded S rt job (hist s j) worker l res (s, e) = (r, s', e')"
  let ?ev = "if runs_under job l then E_Succeeded res else late_ack worker l ReportedSucceeded"
  have "ack_reply (if runs_under job l then Recorded else Conflict) (ack_append S rt job (hist s j) [?ev] (s, e)) = (r, s', e')"
    using run by (simp add: ack_succeed_loaded_def succeed_by_lease record_conflict_def split: if_splits)
  from ack_reply_effect [OF assms(1) f this] f show ?thesis
    by (auto simp: replaces_payload_def late_ack_def)
qed auto

lemma ack_fail_effect:
  assumes "inv s" and "ack_fail C S rt j worker l err (s, e) = (r, s', e')"
  shows "inv s' \<and> (hist s' = hist s \<or> (\<exists>job evs. from_events (hist s j) = Ok job \<and> recorded (hist s) j evs (hist s')
      \<and> (evs = [late_ack worker l ReportedFailed] \<or> (\<exists>now seed. fail C job l err now seed = Ok evs))))"
  using assms(1) assms(2) [unfolded ack_fail_def]
proof (rule ack_loaded_effect)
  fix job assume f: "from_events (hist s j) = Ok job" and run: "ack_fail_loaded C S rt job (hist s j) worker l err (s, e) = (r, s', e')"
  obtain now e1 seed e2 where t: "clock_now rt e = (now, e1)" "jitter_seed rt e1 = (seed, e2)" by fastforce
  show ?thesis
  proof (cases "fail C job l err now seed")
    case (Ok evs)
    then have "\<forall>ev \<in> set evs. exact_event ev"
      by (intro command_exact [of C job "Cmd_Fail l err now seed"]) simp_all
    then have "\<forall>ev \<in> set evs. \<not> replaces_payload ev"
      by (blast dest: exact_event_keeps_payload)
    with ack_reply_effect [OF assms(1) f, of Recorded rt "hist s j" evs e2 r s' e'] run Ok t f show ?thesis
      by (auto simp: ack_fail_loaded_def)
  next
    case (Err x)
    with ack_reply_effect [OF assms(1) f, of Conflict rt "hist s j" "[late_ack worker l ReportedFailed]" e2 r s' e'] run t f
    show ?thesis by (auto simp: ack_fail_loaded_def record_conflict_def late_ack_def replaces_payload_def)
  qed (use run t assms(1) in \<open>auto simp: ack_fail_loaded_def\<close>)
qed auto

lemma enqueue_effect:
  assumes "inv s" and "enqueue_execute S rt cmd (s, e) = (Ok jid, s', e')"
  shows "inv s' \<and> hist s jid = [] \<and> (\<exists>env. hist s' = (hist s)(jid := [env]) \<and> env_event env = command_event cmd
    \<and> from_events [env] = Ok (command_job cmd jid))"
proof -
  from assms(2) obtain u where Ok: "validate_policy (cmd_retry_policy cmd) = Ok u"
    by (auto simp: enqueue_execute_def split: outcome.splits)
  obtain k e1 where id: "new_job_id rt e = (k, e1)" by fastforce
  obtain corr e2 where corr: "(case lin_correlation_id (cmd_lineage cmd) of Some c \<Rightarrow> (c, e1) | None \<Rightarrow> new_correlation_id rt e1) = (corr, e2)"
    by fastforce
  obtain es e3 where es: "wrap_events rt k 0 corr (lin_causation_id (cmd_lineage cmd))
      (lin_traceparent (cmd_lineage cmd)) [command_event cmd] e2 = (es, e3)" by fastforce
  obtain r1 s1 where r1: "es_append S k 0 es s = (r1, s1)" by fastforce
  have run: "and_then (map_err EnqueueStore r1) (\<lambda>_. Ok k) = Ok jid \<and> s' = s1"
    using assms(2) es corr r1 by (simp add: enqueue_execute_def Ok id command_event_def [symmetric])
  then have k: "k = jid" "r1 = Ok ()" "s' = s1" by (auto simp: outcome_simps)
  with r1 have "es_append S jid 0 es s = (Ok (), s')" by simp
  from append_Ok [OF assms(1) this] obtain es' where es': "inv s'" "hist s jid = []"
      "list_all2 kept_as es es'" "hist s' = (hist s)(jid := es')" by auto
  from command_event_opens [OF wrap_events_wrapped [OF es]] obtain env where env: "es = [env]"
      "env_event env = command_event cmd" "from_events es = Ok (command_job cmd jid)" by (auto simp: k)
  with es'(3) obtain env' where env': "es' = [env']" "kept_as env env'" by (auto simp: list_all2_Cons1)
  have "env_event env' = command_event cmd"
    using kept_as_event [OF env'(2)] kept_event_exact [OF command_event_exact [of cmd]] by (simp add: env(2))
  moreover have "from_events es' = Ok (command_job cmd jid)"
    using from_events_kept [OF es'(3)] env exact_event_keeps_payload [OF command_event_exact [of cmd]] by simp
  ultimately show ?thesis using es' env' by auto
qed

end

section \<open>What a story has to contain\<close>

definition plain :: "'v json \<Rightarrow> 'v \<Rightarrow> bool" where
  "plain J p \<longleftrightarrow> \<not> flag J p ''crashy'' \<and> \<not> flag J p ''flaky''"

text \<open>A plain job whose lease never expires goes straight through.\<close>

definition straight :: "string list \<Rightarrow> JobState \<Rightarrow> bool" where
  "straight ks st \<longleftrightarrow>
     (case st of
        S_Pending _ \<Rightarrow> ks = [''enqueued'']
      | S_Leased _ _ _ \<Rightarrow> ks = [''enqueued'', ''leased'']
      | S_Running _ _ _ \<Rightarrow> ks = [''enqueued'', ''leased'', ''started'']
      | S_Succeeded \<Rightarrow> ks = [''enqueued'', ''leased'', ''started'', ''succeeded'']
      | _ \<Rightarrow> False)"

definition retried :: "string list \<Rightarrow> bool" where
  "retried ks \<longleftrightarrow> ''failed'' \<in> set ks \<or> ''lease_expired'' \<in> set ks"

definition parked :: "JobState \<Rightarrow> bool" where
  "parked st \<longleftrightarrow> (case st of S_Parked _ \<Rightarrow> True | _ \<Rightarrow> False)"

definition running :: "JobState \<Rightarrow> bool" where
  "running st \<longleftrightarrow> (case st of S_Running _ _ _ \<Rightarrow> True | _ \<Rightarrow> False)"

text \<open>The story \<open>ks\<close> of a job with payload \<open>p\<close> that folds to \<open>job\<close>.\<close>

definition story_ok :: "'v json \<Rightarrow> 'v \<Rightarrow> string list \<Rightarrow> 'v Job \<Rightarrow> bool" where
  "story_ok J p ks job \<longleftrightarrow>
     job_payload job = p
     \<and> (job_attempt job \<noteq> 0 \<longrightarrow> retried ks)
     \<and> (running (job_state job) \<or> ''failed'' \<in> set ks \<longrightarrow> ''started'' \<in> set ks)
     \<and> (''started'' \<in> set ks \<and> flag J p ''crashy'' \<longrightarrow> ''lease_expired'' \<in> set ks)
     \<and> (''succeeded'' \<in> set ks \<longrightarrow> job_state job = S_Succeeded \<and> ''started'' \<in> set ks)
     \<and> (''succeeded'' \<in> set ks \<and> flag J p ''flaky'' \<longrightarrow> retried ks)
     \<and> (''failed'' \<in> set ks \<longrightarrow> ''retry_scheduled'' \<in> set ks \<or> parked (job_state job))
     \<and> (plain J p \<and> ''lease_expired'' \<notin> set ks \<longrightarrow> straight ks (job_state job))"

text \<open>What the worker knows of the job it holds.\<close>

definition hand_ok :: "'v json \<Rightarrow> 'v \<Rightarrow> string list \<Rightarrow> 'v Job \<Rightarrow> 'v LeasedJob \<Rightarrow> bool" where
  "hand_ok J p ks job leased \<longleftrightarrow>
     lj_payload leased = p \<and> (lj_attempt leased \<noteq> 0 \<longrightarrow> retried ks)
     \<and> \<not> (flag J p ''crashy'' \<and> lj_attempt leased = 0)"

definition holds_leased :: "'v json \<Rightarrow> 'v \<Rightarrow> string list \<Rightarrow> 'v Job \<Rightarrow> 'v LeasedJob \<Rightarrow> bool" where
  "holds_leased J p ks job leased \<longleftrightarrow> hand_ok J p ks job leased
     \<and> (plain J p \<and> ''lease_expired'' \<notin> set ks \<longrightarrow> (\<exists>w x. job_state job = S_Leased w (lj_lease leased) x))"

definition holds_running :: "'v json \<Rightarrow> 'v \<Rightarrow> string list \<Rightarrow> 'v Job \<Rightarrow> 'v LeasedJob \<Rightarrow> bool" where
  "holds_running J p ks job leased \<longleftrightarrow> hand_ok J p ks job leased
     \<and> (plain J p \<and> ''lease_expired'' \<notin> set ks \<longrightarrow> (\<exists>w x. job_state job = S_Running w (lj_lease leased) x))"

definition told :: "'v json \<Rightarrow> 'v \<Rightarrow> string list \<Rightarrow> bool" where
  "told J p ks \<longleftrightarrow>
     (flag J p ''crashy'' \<longrightarrow> ''lease_expired'' \<in> set ks)
     \<and> (''lease_expired'' \<notin> set ks \<and> flag J p ''flaky'' \<longrightarrow> ''failed'' \<in> set ks \<and> ''retry_scheduled'' \<in> set ks)
     \<and> (''lease_expired'' \<notin> set ks \<and> plain J p \<longrightarrow> ks = [''enqueued'', ''leased'', ''started'', ''succeeded''])"

lemma story_told:
  assumes "story_ok J p ks job" and "''succeeded'' \<in> set ks"
  shows "told J p ks"
proof -
  have "job_state job = S_Succeeded" using assms by (simp add: story_ok_def)
  with assms show ?thesis by (auto simp: told_def story_ok_def retried_def parked_def straight_def)
qed

lemma story_enqueued: "job_payload job = p \<Longrightarrow> job_attempt job = 0 \<Longrightarrow> job_state job = S_Pending nb \<Longrightarrow> story_ok J p [''enqueued''] job"
  by (simp add: story_ok_def running_def parked_def straight_def)

lemma story_leased:
  assumes "story_ok J p ks job" and "job_state job = S_Pending nb"
  shows "story_ok J p (ks @ [''leased'']) (job\<lparr>job_state := S_Leased w l x, job_version := v\<rparr>)"
  using assms by (auto simp: story_ok_def running_def parked_def straight_def retried_def)

lemma story_started:
  assumes "story_ok J p ks job" and "apply_all job [E_Started worker] = Ok job'" and "holds_leased J p ks job leased"
  shows "story_ok J p (ks @ [''started'']) job' \<and> holds_running J p (ks @ [''started'']) job' leased"
proof -
  from assms(2) obtain w l x where st: "job_state job = S_Leased w l x"
      and job': "job' = job\<lparr>job_state := S_Running w l x, job_version := job_version job + 1\<rparr>"
    by (auto simp: apply_event_def advance_def split: JobState.splits)
  have crashy: "flag J p ''crashy'' \<longrightarrow> ''lease_expired'' \<in> set ks"
    using assms(1,3) by (auto simp: story_ok_def holds_leased_def hand_ok_def retried_def)
  show ?thesis
    using assms(1,3) st crashy
    by (auto simp: job' story_ok_def holds_leased_def holds_running_def hand_ok_def running_def parked_def straight_def retried_def)
qed

lemma story_succeeded:
  assumes "story_ok J p ks job" and "apply_all job [E_Succeeded res] = Ok job'" and "holds_running J p ks job leased"
    and "\<not> (flag J p ''flaky'' \<and> lj_attempt leased = 0)"
  shows "story_ok J p (ks @ [''succeeded'']) job'"
proof -
  from assms(2) obtain w l x where st: "job_state job = S_Running w l x"
      and job': "job' = job\<lparr>job_state := S_Succeeded, job_version := job_version job + 1\<rparr>"
    by (auto simp: apply_event_def advance_def split: JobState.splits)
  show ?thesis
    using assms(1,3,4) st
    by (auto simp: job' story_ok_def holds_running_def hand_ok_def running_def parked_def straight_def retried_def)
qed

lemma story_late:
  assumes "story_ok J p ks job" and "plain J p \<longrightarrow> ''lease_expired'' \<in> set ks"
  shows "story_ok J p (ks @ [''late_ack_conflict'']) (job\<lparr>job_version := v\<rparr>)"
  using assms by (auto simp: story_ok_def retried_def)

lemma retry_verdict:
  assumes "retry_decision_event C job n now seed = Ok ev"
  shows "kind ev = ''retry_scheduled'' \<and> \<not> parked (retry_state ev) \<and> retry_state ev \<noteq> S_Succeeded
      \<and> \<not> running (retry_state ev)
    \<or> kind ev = ''parked'' \<and> parked (retry_state ev) \<and> retry_state ev \<noteq> S_Succeeded \<and> \<not> running (retry_state ev)"
  using assms
  by (auto simp: retry_decision_event_def outcome_simps parked_def running_def retry_state_def split: RetryDecision.splits)

lemma story_retry:
  assumes "story_ok J p ks job" and "job_state job = S_Leased w l x \<or> job_state job = S_Running w l x"
    and "retry_decision_event C job n now seed = Ok ev"
    and "k = ''failed'' \<and> running (job_state job) \<and> \<not> plain J p \<or> k = ''lease_expired''"
  shows "story_ok J p (ks @ [k, kind ev]) (job\<lparr>job_attempt := a, job_state := retry_state ev, job_version := v\<rparr>)"
proof -
  have "job_state job \<noteq> S_Succeeded" "\<not> parked (job_state job)"
    using assms(2) by (auto simp: parked_def)
  then have no: "''succeeded'' \<notin> set ks" "''failed'' \<in> set ks \<Longrightarrow> ''retry_scheduled'' \<in> set ks"
    using assms(1) unfolding story_ok_def by blast+
  from retry_verdict [OF assms(3)] assms(4) show ?thesis
  proof (elim disjE conjE)
    assume "k = ''failed''" "running (job_state job)" "\<not> plain J p" "kind ev = ''retry_scheduled''"
      "retry_state ev \<noteq> S_Succeeded" "\<not> running (retry_state ev)"
    with assms(1) no show ?thesis by (simp add: story_ok_def retried_def)
  next
    assume "k = ''failed''" "running (job_state job)" "\<not> plain J p" "kind ev = ''parked''" "parked (retry_state ev)"
      "retry_state ev \<noteq> S_Succeeded" "\<not> running (retry_state ev)"
    with assms(1) no show ?thesis by (simp add: story_ok_def retried_def)
  next
    assume "k = ''lease_expired''" "kind ev = ''retry_scheduled''" "retry_state ev \<noteq> S_Succeeded" "\<not> running (retry_state ev)"
    with assms(1) no show ?thesis by (simp add: story_ok_def retried_def)
  next
    assume "k = ''lease_expired''" "kind ev = ''parked''" "parked (retry_state ev)"
      "retry_state ev \<noteq> S_Succeeded" "\<not> running (retry_state ev)"
    with assms(1) no show ?thesis by (simp add: story_ok_def retried_def)
  qed
qed

section \<open>The stories along a run\<close>

definition in_hand :: "'v json \<Rightarrow> (JobId \<Rightarrow> 'v) \<Rightarrow> 'v dev_worker \<Rightarrow> JobId \<Rightarrow> string list \<Rightarrow> 'v Job \<Rightarrow> bool" where
  "in_hand J P wk j ks job \<longleftrightarrow>
     (case wk of
        W_Leased leased \<Rightarrow> lj_job_id leased = j \<longrightarrow> holds_leased J (P j) ks job leased
      | W_Started leased \<Rightarrow> lj_job_id leased = j \<longrightarrow> holds_running J (P j) ks job leased
      | _ \<Rightarrow> True)"

definition stories_ok :: "'v json \<Rightarrow> (JobId \<Rightarrow> 'v) \<Rightarrow> (JobId \<Rightarrow> 'v stream) \<Rightarrow> 'v dev_worker \<Rightarrow> bool" where
  "stories_ok J P h wk \<longleftrightarrow>
     (\<forall>j job. from_events (h j) = Ok job \<longrightarrow>
        story_ok J (P j) (kinds (h j)) job \<and> in_hand J P wk j (kinds (h j)) job)"

lemma in_hand_none [simp]: "in_hand J P W_Idle j ks job" "in_hand J P (W_Ended r) j ks job"
  by (simp_all add: in_hand_def)

lemma stories_ended: "stories_ok J P h wk \<Longrightarrow> stories_ok J P h (W_Ended r)"
  by (simp add: stories_ok_def)

lemma stories_recorded:
  assumes "stories_ok J P h wk" and "recorded h j evs h'"
    and "\<And>job job'. from_events (h j) = Ok job \<Longrightarrow> apply_all job evs = Ok job' \<Longrightarrow>
      story_ok J (P j) (kinds (h j)) job \<Longrightarrow> in_hand J P wk j (kinds (h j)) job \<Longrightarrow>
      story_ok J (P j) (kinds (h j) @ map kind evs) job' \<and> in_hand J P wk' j (kinds (h j) @ map kind evs) job'"
    and "\<And>k ks job. k \<noteq> j \<Longrightarrow> in_hand J P wk k ks job \<Longrightarrow> in_hand J P wk' k ks job"
  shows "stories_ok J P h' wk'"
proof -
  from assms(2) obtain es job job' where r: "h' = h(j := h j @ es)" "map kind evs = kinds es"
      "from_events (h j) = Ok job" "apply_all job evs = Ok job'" "from_events (h' j) = Ok job'"
    by (auto simp: recorded_def)
  have ks: "kinds (h' j) = kinds (h j) @ map kind evs" using r(1,2) by (simp add: kinds_def)
  have "story_ok J (P j) (kinds (h' j)) job' \<and> in_hand J P wk' j (kinds (h' j)) job'"
    using assms(1,3) r(3,4) by (simp add: ks stories_ok_def)
  moreover have "story_ok J (P k) (kinds (h' k)) job1 \<and> in_hand J P wk' k (kinds (h' k)) job1"
    if "k \<noteq> j" "from_events (h' k) = Ok job1" for k job1
    using assms(1,4) that by (simp add: r(1) stories_ok_def)
  ultimately show ?thesis
    using r(5) unfolding stories_ok_def by (metis outcome.inject(1))
qed

lemma hand_claimed:
  assumes "story_ok J p ks job" and "\<not> (flag J (job_payload job) ''crashy'' \<and> job_attempt job = 0)"
  shows "holds_leased J p (ks @ [''leased'']) (job\<lparr>job_state := S_Leased worker l x, job_version := v\<rparr>) (leased_job_of j job xs l x)"
  using assms by (auto simp: story_ok_def holds_leased_def hand_ok_def leased_job_of_def retried_def)

lemma in_hand_expired:
  assumes "in_hand J P wk j ks job"
  shows "in_hand J P wk j (ks @ [''lease_expired'', k]) job'"
  using assms
  by (cases wk) (auto simp: in_hand_def holds_leased_def holds_running_def hand_ok_def retried_def)

definition told_more :: "(JobId \<Rightarrow> 'v stream) \<Rightarrow> (JobId \<Rightarrow> 'v stream) \<Rightarrow> bool" where
  "told_more h h' \<longleftrightarrow> (\<forall>j. \<exists>ys. h' j = h j @ ys)"

lemma told_more_refl [simp]: "told_more h h"
  by (simp add: told_more_def)

lemma recorded_told_more: "recorded h j evs h' \<Longrightarrow> told_more h h'"
  by (auto simp: recorded_def told_more_def)

lemma stories_claim:
  assumes "pg_inv K (fst w)" and "stories_ok J P (pg_hist K (fst w)) W_Idle"
    and "worker_lease J (pg_dispatcher C rt K busy) w = (wk, w')"
  shows "pg_inv K (fst w') \<and> stories_ok J P (pg_hist K (fst w')) wk
    \<and> told_more (pg_hist K (fst w)) (pg_hist K (fst w'))"
proof -
  obtain d e d' e' where w: "w = (d, e)" "w' = (d', e')" by (metis surj_pair)
  obtain now e1 l e2 where t: "clock_now rt e = (now, e1)" "new_lease_id rt e1 = (l, e2)" by fastforce
  obtain r d1 e3 where run: "pg_claim C rt K busy dev_queue dev_worker_id dev_lease_ttl (d, e) = (r, d1, e3)" by (metis surj_pair)
  have wk: "(wk, w') = (case (r, d1, e3) of (Ok None, w) \<Rightarrow> (W_Idle, w)
      | (Ok (Some leased), w) \<Rightarrow>
          (if flag J (lj_payload leased) ''crashy'' \<and> lj_attempt leased = 0 then W_Idle else W_Leased leased, w)
      | (Err x, w) \<Rightarrow> (W_Ended (Err (DevLease x)), w)
      | (Panic, w) \<Rightarrow> (W_Ended Panic, w))"
    using assms(3) run by (simp add: worker_lease_def lease_execute_def pg_dispatcher_def w)
  from assms(1) have inv: "pg_inv K d" by (simp add: w)
  have st: "stories_ok J P (pg_hist K d) W_Idle" using assms(2) by (simp add: w)
  show ?thesis
    using inv t run
  proof (cases rule: pg_claim_cases)
    case none
    with wk inv st show ?thesis by (simp add: w)
  next
    case (err x)
    with wk inv stories_ended [OF st] show ?thesis by (simp add: w)
  next
    case panic
    with wk inv stories_ended [OF st] show ?thesis by (simp add: w)
  next
    case (leased k job x)
    let ?lj = "leased_job_of k job (pg_hist K d k) l x"
    let ?job = "job\<lparr>job_state := S_Leased dev_worker_id l x, job_version := job_version job + 1\<rparr>"
    have wk': "wk = (if flag J (job_payload job) ''crashy'' \<and> job_attempt job = 0 then W_Idle else W_Leased ?lj)" "d' = d1"
      using wk leased(5) by (simp_all add: w leased_job_of_def)
    obtain nb where pend: "job_state job = S_Pending nb" using leased(4) by (auto simp: due_def split: JobState.splits)
    have rec: "recorded (pg_hist K d) k [E_Leased dev_worker_id l x] (pg_hist K d1)"
      by (rule extends_recorded [OF leased(7,2,8)])
    have app: "apply_all job [E_Leased dev_worker_id l x] = Ok ?job"
      using pend by (simp add: apply_event_def advance_def)
    have "stories_ok J P (pg_hist K d1) wk"
    proof (rule stories_recorded [OF st rec])
      fix job1 job2
      assume a: "from_events (pg_hist K d k) = Ok job1" "apply_all job1 [E_Leased dev_worker_id l x] = Ok job2"
        "story_ok J (P k) (kinds (pg_hist K d k)) job1"
      then have j: "job1 = job" "job2 = ?job" using leased(2) app by auto
      show "story_ok J (P k) (kinds (pg_hist K d k) @ map kind [E_Leased dev_worker_id l x]) job2
        \<and> in_hand J P wk k (kinds (pg_hist K d k) @ map kind [E_Leased dev_worker_id l x]) job2"
        using story_leased [OF a(3) pend [folded j(1)]] hand_claimed [OF a(3)]
        by (simp add: j wk'(1) in_hand_def)
    next
      show "in_hand J P wk i ks job1" if "i \<noteq> k" for i ks job1
        using that by (simp add: wk'(1) in_hand_def leased_job_of_def)
    qed
    with leased(6) wk'(2) recorded_told_more [OF rec] show ?thesis by (simp add: w)
  qed
qed

lemmas pg_effects =
  event_store_contract.ack_start_effect [OF postgres.event_store_contract_axioms]
  event_store_contract.ack_succeed_effect [OF postgres.event_store_contract_axioms]
  event_store_contract.ack_fail_effect [OF postgres.event_store_contract_axioms]

lemma stories_start:
  assumes "pg_inv K (fst w)" and "stories_ok J P (pg_hist K (fst w)) (W_Leased leased)"
    and "worker_start (pg_store K) rt leased w = (wk, w')"
  shows "pg_inv K (fst w') \<and> stories_ok J P (pg_hist K (fst w')) wk \<and> told_more (pg_hist K (fst w)) (pg_hist K (fst w'))"
proof -
  obtain d e d' e' where w: "w = (d, e)" "w' = (d', e')" by (metis surj_pair)
  obtain r d1 e3 where run: "ack_start (pg_store K) rt (lj_job_id leased) dev_worker_id (d, e) = (r, d1, e3)" by (metis surj_pair)
  from assms(1) have inv: "pg_inv K d" by (simp add: w)
  have st: "stories_ok J P (pg_hist K d) (W_Leased leased)" using assms(2) by (simp add: w)
  note eff = pg_effects(1) [OF inv run]
  have wk: "d' = d1" "wk = (case r of Ok _ \<Rightarrow> W_Started leased | Err x \<Rightarrow> W_Ended (Err (DevStart (lj_job_id leased) x)) | Panic \<Rightarrow> W_Ended Panic)"
    using assms(3) run by (auto simp: worker_start_def w split: outcome.splits)
  show ?thesis
  proof (cases "r = Ok ()")
    case True
    with eff have rec: "recorded (pg_hist K d) (lj_job_id leased) [E_Started dev_worker_id] (pg_hist K d1)" by simp
    from True wk have wk': "wk = W_Started leased" by simp
    have "stories_ok J P (pg_hist K d1) wk"
    proof (rule stories_recorded [OF st rec])
      fix job job'
      assume a: "apply_all job [E_Started dev_worker_id] = Ok job'"
        "story_ok J (P (lj_job_id leased)) (kinds (pg_hist K d (lj_job_id leased))) job"
        "in_hand J P (W_Leased leased) (lj_job_id leased) (kinds (pg_hist K d (lj_job_id leased))) job"
      then show "story_ok J (P (lj_job_id leased)) (kinds (pg_hist K d (lj_job_id leased)) @ map kind [E_Started dev_worker_id]) job'
          \<and> in_hand J P wk (lj_job_id leased) (kinds (pg_hist K d (lj_job_id leased)) @ map kind [E_Started dev_worker_id]) job'"
        using story_started [OF a(2,1)] by (simp add: wk' in_hand_def)
    qed (simp add: wk' in_hand_def)
    with eff recorded_told_more [OF rec] show ?thesis by (simp add: w wk(1))
  next
    case False
    with wk(2) have "\<exists>r. wk = W_Ended r" by (cases r) auto
    with False eff stories_ended [OF st] show ?thesis by (auto simp: w wk(1))
  qed
qed

lemma stories_failed:
  assumes "story_ok J p ks job" and "in_hand J P (W_Started leased) j ks job" and "j = lj_job_id leased" and "p = P j"
    and "flag J (lj_payload leased) ''flaky''" and "apply_all job evs = Ok job'"
    and "evs = [late_ack dev_worker_id l ReportedFailed] \<or> fail C job l transient_error now seed = Ok evs"
  shows "story_ok J p (ks @ map kind evs) job'"
proof -
  have np: "\<not> plain J p"
    using assms(2-5) by (simp add: in_hand_def holds_running_def hand_ok_def plain_def)
  from assms(7) show ?thesis
  proof
    assume "evs = [late_ack dev_worker_id l ReportedFailed]"
    with assms(6) np story_late [OF assms(1)] show ?thesis by (auto simp: late_ack_def advance_def)
  next
    assume fail: "fail C job l transient_error now seed = Ok evs"
    then obtain w x ev where f: "job_state job = S_Running w l x" "evs = [E_Failed transient_error (job_attempt job + 1), ev]"
        "retry_decision_event C job (job_attempt job + 1) now seed = Ok ev"
      by (auto simp: fail_eq_Ok transient_error_def)
    from fail_applies [OF fail] f(2) assms(6) have "job' = job\<lparr>job_attempt := job_attempt job + 1, job_state := retry_state ev,
        job_version := job_version job + 2\<rparr>" by auto
    with story_retry [OF assms(1) disjI2 [OF f(1)] f(3), where k = "''failed''"] np f(1,2) show ?thesis
      by (simp add: running_def)
  qed
qed

lemma stories_report:
  assumes "pg_inv K (fst w)" and "stories_ok J P (pg_hist K (fst w)) (W_Started leased)"
    and "worker_report J C (pg_store K) rt leased w = (wk, w')"
  shows "pg_inv K (fst w') \<and> stories_ok J P (pg_hist K (fst w')) wk \<and> told_more (pg_hist K (fst w)) (pg_hist K (fst w'))"
proof -
  obtain d e d' e' where w: "w = (d, e)" "w' = (d', e')" by (metis surj_pair)
  let ?j = "lj_job_id leased"
  from assms(1) have inv: "pg_inv K d" by (simp add: w)
  have st: "stories_ok J P (pg_hist K d) (W_Started leased)" using assms(2) by (simp add: w)
  have wk: "wk = W_Idle \<or> (\<exists>r. wk = W_Ended r)"
    using assms(3) by (auto simp: worker_report_def split: if_splits outcome.splits prod.splits)
  have hand: "in_hand J P wk k ks job" for k ks job using wk by auto
  have same: "stories_ok J P (pg_hist K d) wk" using st hand by (simp add: stories_ok_def)
  have closes: "stories_ok J P (pg_hist K d') wk \<and> told_more (pg_hist K d) (pg_hist K d')"
    if rec: "recorded (pg_hist K d) ?j evs (pg_hist K d')"
      and told: "\<And>job job'. from_events (pg_hist K d ?j) = Ok job \<Longrightarrow> apply_all job evs = Ok job' \<Longrightarrow>
        story_ok J (P ?j) (kinds (pg_hist K d ?j)) job \<Longrightarrow> in_hand J P (W_Started leased) ?j (kinds (pg_hist K d ?j)) job \<Longrightarrow>
        story_ok J (P ?j) (kinds (pg_hist K d ?j) @ map kind evs) job'" for evs
    using stories_recorded [OF st rec, of wk] told hand recorded_told_more [OF rec] by blast
  show ?thesis
  proof (cases "flag J (lj_payload leased) ''flaky'' \<and> lj_attempt leased = 0")
    case True
    obtain r where run: "ack_fail C (pg_store K) rt ?j dev_worker_id (lj_lease leased) transient_error (d, e) = (r, d', e')"
      using assms(3) True by (auto simp: worker_report_def w split: outcome.splits prod.splits)
    note eff = pg_effects(3) [OF inv run]
    from eff show ?thesis
    proof (elim conjE disjE exE)
      assume "pg_inv K d'" "pg_hist K d' = pg_hist K d"
      with same show ?thesis by (simp add: w)
    next
      fix job evs assume i: "pg_inv K d'" and f: "from_events (pg_hist K d ?j) = Ok job"
        and rec: "recorded (pg_hist K d) ?j evs (pg_hist K d')"
        and evs: "evs = [late_ack dev_worker_id (lj_lease leased) ReportedFailed]"
      have "stories_ok J P (pg_hist K d') wk \<and> told_more (pg_hist K d) (pg_hist K d')"
        by (rule closes [OF rec]) (rule stories_failed, assumption, assumption, use True evs in auto)
      with i show ?thesis by (simp add: w)
    next
      fix job evs now seed assume i: "pg_inv K d'" and f: "from_events (pg_hist K d ?j) = Ok job"
        and rec: "recorded (pg_hist K d) ?j evs (pg_hist K d')"
        and evs: "fail C job (lj_lease leased) transient_error now seed = Ok evs"
      have "stories_ok J P (pg_hist K d') wk \<and> told_more (pg_hist K d) (pg_hist K d')"
        by (rule closes [OF rec]) (rule stories_failed, assumption, assumption, use True evs f in auto)
      with i show ?thesis by (simp add: w)
    qed
  next
    case False
    obtain r where run: "ack_succeed (pg_store K) rt ?j dev_worker_id (lj_lease leased) (Some (json_string J ''done'')) (d, e) = (r, d', e')"
      using assms(3) False by (auto simp: worker_report_def w split: outcome.splits prod.splits)
    note eff = pg_effects(2) [OF inv run]
    from eff show ?thesis
    proof (elim conjE disjE exE)
      assume "pg_inv K d'" "pg_hist K d' = pg_hist K d"
      with same show ?thesis by (simp add: w)
    next
      fix job assume i: "pg_inv K d'" and f: "from_events (pg_hist K d ?j) = Ok job"
        and rec: "recorded (pg_hist K d) ?j [if runs_under job (lj_lease leased) then E_Succeeded (Some (json_string J ''done''))
          else late_ack dev_worker_id (lj_lease leased) ReportedSucceeded] (pg_hist K d')"
      have "stories_ok J P (pg_hist K d') wk \<and> told_more (pg_hist K d) (pg_hist K d')"
      proof (rule closes [OF rec])
        fix job1 job' let ?ks = "kinds (pg_hist K d ?j)"
        assume a: "from_events (pg_hist K d ?j) = Ok job1" "story_ok J (P ?j) ?ks job1"
            "in_hand J P (W_Started leased) ?j ?ks job1"
          and app: "apply_all job1 [if runs_under job (lj_lease leased) then E_Succeeded (Some (json_string J ''done''))
            else late_ack dev_worker_id (lj_lease leased) ReportedSucceeded] = Ok job'"
        have j: "job1 = job" using a(1) f by simp
        have hr: "holds_running J (P ?j) ?ks job leased" using a(3) by (simp add: in_hand_def j)
        then have p: "lj_payload leased = P ?j" by (simp add: holds_running_def hand_ok_def)
        show "story_ok J (P ?j) (?ks @ map kind [if runs_under job (lj_lease leased) then E_Succeeded (Some (json_string J ''done''))
            else late_ack dev_worker_id (lj_lease leased) ReportedSucceeded]) job'"
        proof (cases "runs_under job (lj_lease leased)")
          case True
          with story_succeeded [OF a(2) [unfolded j] _ hr] app False p show ?thesis by (simp add: j)
        next
          case late: False
          then have "plain J (P ?j) \<longrightarrow> ''lease_expired'' \<in> set ?ks"
            using hr by (auto simp: holds_running_def runs_under_def)
          with story_late [OF a(2)] late app show ?thesis by (auto simp: j late_ack_def advance_def)
        qed
      qed
      with i show ?thesis by (simp add: w)
    qed
  qed
qed

lemma stories_turn:
  assumes "pg_inv K (fst w)" and "stories_ok J P (pg_hist K (fst w)) wk"
    and "worker_turn J C (pg_store K) rt (pg_dispatcher C rt K busy) wk w = (wk', w')"
  shows "pg_inv K (fst w') \<and> stories_ok J P (pg_hist K (fst w')) wk' \<and> told_more (pg_hist K (fst w)) (pg_hist K (fst w'))"
proof (cases wk)
  case W_Idle
  with assms stories_claim [of K w J P C rt busy wk' w'] show ?thesis by (simp add: worker_turn_def)
next
  case (W_Leased leased)
  with assms stories_start [of K w J P leased rt wk' w'] show ?thesis by (simp add: worker_turn_def)
next
  case (W_Started leased)
  with assms stories_report [of K w J P leased C rt wk' w'] show ?thesis by (simp add: worker_turn_def)
qed (use assms in \<open>simp add: worker_turn_def\<close>)

lemma stories_sweep:
  assumes "pg_inv K (fst w)" and "stories_ok J P (pg_hist K (fst w)) wk"
    and "main_sweep (pg_dispatcher C rt K busy) w = (m, w')"
  shows "pg_inv K (fst w') \<and> stories_ok J P (pg_hist K (fst w')) wk \<and> told_more (pg_hist K (fst w)) (pg_hist K (fst w'))
    \<and> m \<in> {M_Sweep, M_Relay} \<union> {M_Done (Err (DevSweep x)) | x. True}"
proof -
  obtain d e d' e' where w: "w = (d, e)" "w' = (d', e')" by (metis surj_pair)
  obtain now e1 seed e2 where t: "clock_now rt e = (now, e1)" "jitter_seed rt e1 = (seed, e2)" by fastforce
  obtain r d1 e3 where run: "pg_retire_one C rt K busy (d, e) = (r, d1, e3)" by (metis surj_pair)
  have m: "(m, w') = (case (r, d1, e3) of (Ok (Some _), w) \<Rightarrow> (M_Sweep, w) | (Ok None, w) \<Rightarrow> (M_Relay, w)
      | (Err x, w) \<Rightarrow> (M_Done (Err (DevSweep (SweepDispatch x))), w) | (Panic, w) \<Rightarrow> (M_Done Panic, w))"
    using assms(3) run by (simp add: main_sweep_def pg_dispatcher_def w)
  from assms(1) have inv: "pg_inv K d" by (simp add: w)
  have st: "stories_ok J P (pg_hist K d) wk" using assms(2) by (simp add: w)
  show ?thesis
    using inv t run
  proof (cases rule: pg_retire_cases)
    case none
    with m inv st show ?thesis by (simp add: w)
  next
    case (err x)
    with m inv st show ?thesis by (simp add: w)
  next
    case (retired k job evs job')
    have rec: "recorded (pg_hist K d) k evs (pg_hist K d1)"
      by (rule extends_recorded [OF retired(9,2,10)])
    from retired(5) obtain worker l x ev where evs: "job_state job = S_Leased worker l x \<or> job_state job = S_Running worker l x"
        "evs = [E_LeaseExpired l, ev]" "retry_decision_event C job (job_attempt job + 1) now seed = Ok ev"
      by (auto simp: expire_lease_eq_Ok)
    from expire_lease_applies [OF retired(5)] evs(2) retired(6) have job': "job' = job\<lparr>job_attempt := job_attempt job + 1,
        job_state := retry_state ev, job_version := job_version job + 2\<rparr>" by auto
    have "stories_ok J P (pg_hist K d1) wk"
    proof (rule stories_recorded [OF st rec])
      fix job1 job2
      assume a: "from_events (pg_hist K d k) = Ok job1" "apply_all job1 evs = Ok job2"
        "story_ok J (P k) (kinds (pg_hist K d k)) job1" "in_hand J P wk k (kinds (pg_hist K d k)) job1"
      then have j: "job1 = job" "job2 = job'" using retired(2,6) by auto
      show "story_ok J (P k) (kinds (pg_hist K d k) @ map kind evs) job2 \<and> in_hand J P wk k (kinds (pg_hist K d k) @ map kind evs) job2"
        using story_retry [OF a(3) [unfolded j] evs(1,3), where k = "''lease_expired''"] in_hand_expired [OF a(4)]
        by (simp add: j job' evs(2))
    qed
    with m retired(7,8) recorded_told_more [OF rec] show ?thesis by (simp add: w)
  qed
qed

lemma relay_frame:
  assumes "relay_once K deliver n skip (d, k) = (r, d', k')"
  shows "pg_hist K d' = pg_hist K d" and "pg_inv K d \<Longrightarrow> pg_inv K d'"
proof -
  from assms obtain ob where d': "d' = d\<lparr>db_outbox := ob\<rparr>"
    by (auto simp: relay_once_def Let_def split: outcome.splits if_splits prod.splits) (metis pg_db.surjective pg_db.update_convs(4))+
  have rows: "stream_rows d' j = stream_rows d j" for j by (simp add: d' stream_rows_def)
  show h: "pg_hist K d' = pg_hist K d" by (intro ext pg_hist_cong rows)
  show "pg_inv K d'" if "pg_inv K d"
    using that h rows by (simp add: pg_inv_def stream_ok_def dispatch_ok_def) (simp add: d')
qed

section \<open>The verdict\<close>

definition verdict_ok :: "(JobId \<Rightarrow> 'v stream) \<Rightarrow> JobId list \<Rightarrow> (unit, DevError) outcome \<Rightarrow> bool" where
  "verdict_ok h tracked r \<longleftrightarrow>
     (case r of
        Ok _ \<Rightarrow> (\<exists>ys. kinds (h (tracked ! 0)) = [''enqueued'', ''leased'', ''started'', ''succeeded''] @ ys)
          \<and> ''lease_expired'' \<in> set (kinds (h (tracked ! 1)))
          \<and> ''failed'' \<in> set (kinds (h (tracked ! 2))) \<and> ''retry_scheduled'' \<in> set (kinds (h (tracked ! 2)))
      | Err (DevMissing missing) \<Rightarrow> MissingCrashy \<notin> set missing
          \<and> ((\<exists>ks. MissingPlain ks \<in> set missing) \<longrightarrow> ''lease_expired'' \<in> set (kinds (h (tracked ! 0))))
          \<and> (MissingFlaky \<in> set missing \<longrightarrow> ''lease_expired'' \<in> set (kinds (h (tracked ! 2))))
      | _ \<Rightarrow> True)"

definition main_ok :: "'v json \<Rightarrow> (JobId \<Rightarrow> 'v) \<Rightarrow> JobId list \<Rightarrow> (JobId \<Rightarrow> 'v stream) \<Rightarrow> dev_main \<Rightarrow> bool" where
  "main_ok J P tracked h m \<longleftrightarrow>
     (case m of
        M_Poll jobs ok \<Rightarrow> \<exists>pre. tracked = pre @ jobs \<and> (ok \<longrightarrow> (\<forall>j \<in> set pre. ''succeeded'' \<in> set (kinds (h j))))
      | M_Check jobs stories \<Rightarrow> (\<forall>j \<in> set tracked. ''succeeded'' \<in> set (kinds (h j))) \<and>
          (\<exists>pre. tracked = pre @ jobs
             \<and> list_all2 (\<lambda>j ks. told J (P j) ks \<and> (\<exists>ys. kinds (h j) = ks @ ys)) pre stories)
      | M_Done r \<Rightarrow> verdict_ok h tracked r
      | _ \<Rightarrow> True)"

lemma told_more_kinds: "told_more h h' \<Longrightarrow> \<exists>ys. kinds (h' j) = kinds (h j) @ ys"
  unfolding told_more_def kinds_def by (metis map_append)

lemma told_more_mem: "told_more h h' \<Longrightarrow> k \<in> set (kinds (h j)) \<Longrightarrow> k \<in> set (kinds (h' j))"
  using told_more_kinds [of h h' j] by auto

lemma main_ok_told_more:
  assumes "told_more h h'" and "main_ok J P tracked h m"
  shows "main_ok J P tracked h' m"
proof -
  note mem = told_more_mem [OF assms(1)]
  have pre: "\<exists>ys. kinds (h' j) = ks @ ys" if "\<exists>ys. kinds (h j) = ks @ ys" for j ks
    using that told_more_kinds [OF assms(1), of j] by auto
  show ?thesis
  proof (cases m)
    case (M_Check jobs stories)
    with assms(2) obtain ps where ps: "\<forall>j \<in> set tracked. ''succeeded'' \<in> set (kinds (h j))" "tracked = ps @ jobs"
        "list_all2 (\<lambda>j ks. told J (P j) ks \<and> (\<exists>ys. kinds (h j) = ks @ ys)) ps stories"
      by (auto simp: main_ok_def)
    from ps(3) have "list_all2 (\<lambda>j ks. told J (P j) ks \<and> (\<exists>ys. kinds (h' j) = ks @ ys)) ps stories"
      by (rule list_all2_mono) (use pre in blast)
    with ps(1,2) mem M_Check show ?thesis unfolding main_ok_def by auto
  next
    case (M_Poll jobs ok)
    with assms(2) mem show ?thesis unfolding main_ok_def by fastforce
  next
    case (M_Done r)
    with assms(2) mem pre [of "tracked ! 0" "[''enqueued'', ''leased'', ''started'', ''succeeded'']"] show ?thesis
      by (auto simp: main_ok_def verdict_ok_def split: outcome.splits DevError.splits)
  qed (simp_all add: main_ok_def)
qed

text \<open>The payloads of the three jobs.\<close>

definition exercise :: "'v json \<Rightarrow> (JobId \<Rightarrow> 'v) \<Rightarrow> JobId list \<Rightarrow> bool" where
  "exercise J P tracked \<longleftrightarrow> length tracked = 3 \<and> plain J (P (tracked ! 0))
     \<and> flag J (P (tracked ! 1)) ''crashy'' \<and> flag J (P (tracked ! 2)) ''flaky''"

lemma verdict_told:
  assumes "exercise J P tracked" and "list_all2 (\<lambda>j ks. told J (P j) ks \<and> (\<exists>ys. kinds (h j) = ks @ ys)) tracked stories"
  shows "verdict_ok h tracked (stories_verdict stories)"
proof -
  have "length stories = 3" using assms by (auto simp: exercise_def dest: list_all2_lengthD)
  with assms have t: "told J (P (tracked ! i)) (stories ! i) \<and> (\<exists>ys. kinds (h (tracked ! i)) = stories ! i @ ys)" if "i < 3" for i
    using that by (auto simp: list_all2_conv_all_nth exercise_def)
  from t [of 0] t [of 1] t [of 2] obtain ys0 ys1 ys2 where
      k: "kinds (h (tracked ! 0)) = stories ! 0 @ ys0" "kinds (h (tracked ! 1)) = stories ! 1 @ ys1"
        "kinds (h (tracked ! 2)) = stories ! 2 @ ys2"
      and told: "told J (P (tracked ! 0)) (stories ! 0)" "told J (P (tracked ! 1)) (stories ! 1)" "told J (P (tracked ! 2)) (stories ! 2)"
    by auto
  have crashy: "''lease_expired'' \<in> set (stories ! 1)" using told(2) assms(1) by (simp add: told_def exercise_def)
  have plain: "''lease_expired'' \<in> set (stories ! 0) \<or> stories ! 0 = [''enqueued'', ''leased'', ''started'', ''succeeded'']"
    using told(1) assms(1) by (simp add: told_def exercise_def) blast
  have flaky: "''lease_expired'' \<in> set (stories ! 2) \<or> ''failed'' \<in> set (stories ! 2) \<and> ''retry_scheduled'' \<in> set (stories ! 2)"
    using told(3) assms(1) by (simp add: told_def exercise_def) blast
  have missing: "missing_markers (stories ! 0) (stories ! 1) (stories ! 2) =
      (if stories ! 0 \<noteq> [''enqueued'', ''leased'', ''started'', ''succeeded''] then [MissingPlain (stories ! 0)] else [])
      @ (if \<not> (''failed'' \<in> set (stories ! 2) \<and> ''retry_scheduled'' \<in> set (stories ! 2)) then [MissingFlaky] else [])"
    using crashy by (simp add: missing_markers_def)
  show ?thesis
  proof (cases "stories_verdict stories")
    case (Ok u)
    then have "stories ! 0 = [''enqueued'', ''leased'', ''started'', ''succeeded'']"
        "''failed'' \<in> set (stories ! 2)" "''retry_scheduled'' \<in> set (stories ! 2)"
      unfolding stories_verdict_def missing Let_def by (auto split: if_splits)
    with Ok crashy show ?thesis by (simp add: verdict_ok_def k [unfolded One_nat_def])
  next
    case (Err x)
    then have x: "x = DevMissing (missing_markers (stories ! 0) (stories ! 1) (stories ! 2))"
      by (auto simp: stories_verdict_def Let_def split: if_splits)
    have "MissingCrashy \<notin> set (missing_markers (stories ! 0) (stories ! 1) (stories ! 2))"
      unfolding missing by simp
    moreover have "''lease_expired'' \<in> set (kinds (h (tracked ! 0)))"
      if "MissingPlain ks \<in> set (missing_markers (stories ! 0) (stories ! 1) (stories ! 2))" for ks
      using that plain unfolding missing by (auto simp: k split: if_splits)
    moreover have "''lease_expired'' \<in> set (kinds (h (tracked ! 2)))"
      if "MissingFlaky \<in> set (missing_markers (stories ! 0) (stories ! 1) (stories ! 2))"
      using that flaky unfolding missing by (auto simp: k split: if_splits)
    ultimately show ?thesis by (auto simp: Err x verdict_ok_def)
  next
    case Panic
    then show ?thesis by (simp add: verdict_ok_def)
  qed
qed

definition dev_inv :: "'v json \<Rightarrow> (JobId \<Rightarrow> 'v) \<Rightarrow> ('v, 'j) pg \<Rightarrow> JobId list \<Rightarrow> ('v, 'j, 'e) dev \<Rightarrow> bool" where
  "dev_inv J P K tracked s \<longleftrightarrow>
     pg_inv K (fst (dl_world s)) \<and> stories_ok J P (pg_hist K (fst (dl_world s))) (dl_worker s)
     \<and> main_ok J P tracked (pg_hist K (fst (dl_world s))) (dl_main s)"

lemma story_cases:
  assumes "pg_inv K d"
  shows "story (pg_store K) j d = Ok (kinds (pg_hist K d j)) \<and> pg_hist K d j \<noteq> []
    \<or> story (pg_store K) j d = Err (DevLoad j (StreamNotFound j))"
  using postgres.load_law [OF assms, of j] by (auto simp: story_def)

lemma main_poll_ok:
  assumes "pg_inv K d" and "main_ok J P tracked (pg_hist K d) (M_Poll jobs ok)"
  shows "main_ok J P tracked (pg_hist K d) (main_poll (pg_store K) tracked timed_out jobs ok d)"
proof (cases jobs)
  case Nil
  with assms(2) show ?thesis
    by (auto simp: main_poll_def main_ok_def verdict_ok_def)
next
  case (Cons j js)
  with assms(2) obtain pre where pre: "tracked = (pre @ [j]) @ js" "ok \<longrightarrow> (\<forall>j \<in> set pre. ''succeeded'' \<in> set (kinds (pg_hist K d j)))"
    by (auto simp: main_ok_def)
  from story_cases [OF assms(1), of j] show ?thesis
  proof (elim disjE conjE)
    assume "story (pg_store K) j d = Ok (kinds (pg_hist K d j))"
    then have "main_poll (pg_store K) tracked timed_out jobs ok d = M_Poll js (ok \<and> ''succeeded'' \<in> set (kinds (pg_hist K d j)))"
      by (simp add: main_poll_def Cons)
    with pre show ?thesis by (auto simp: main_ok_def intro!: exI [of _ "pre @ [j]"])
  next
    assume "story (pg_store K) j d = Err (DevLoad j (StreamNotFound j))"
    then show ?thesis by (simp add: main_poll_def Cons main_ok_def verdict_ok_def)
  qed
qed

lemma check_stories_ok:
  assumes "pg_inv K d" and "stories_ok J P (pg_hist K d) wk" and "exercise J P tracked"
    and "main_ok J P tracked (pg_hist K d) (M_Check jobs stories)"
  shows "main_ok J P tracked (pg_hist K d) (check_stories (pg_store K) jobs stories d)"
proof (cases jobs)
  case Nil
  with assms(3,4) verdict_told [OF assms(3), of "pg_hist K d" stories] show ?thesis
    by (auto simp: check_stories_def main_ok_def)
next
  case (Cons j js)
  let ?R = "\<lambda>j ks. told J (P j) ks \<and> (\<exists>ys. kinds (pg_hist K d j) = ks @ ys)"
  from assms(4) Cons obtain pre where pre: "\<forall>j \<in> set tracked. ''succeeded'' \<in> set (kinds (pg_hist K d j))"
      "tracked = (pre @ [j]) @ js" "list_all2 ?R pre stories"
    by (auto simp: main_ok_def)
  from story_cases [OF assms(1), of j] show ?thesis
  proof (elim disjE conjE)
    assume st: "story (pg_store K) j d = Ok (kinds (pg_hist K d j))" "pg_hist K d j \<noteq> []"
    from pg_hist_folds [OF assms(1) st(2)] obtain job where "from_events (pg_hist K d j) = Ok job" by blast
    with assms(2) have "story_ok J (P j) (kinds (pg_hist K d j)) job" by (simp add: stories_ok_def)
    from story_told [OF this] pre(1,2) have "told J (P j) (kinds (pg_hist K d j))" by simp
    with pre(3) have "list_all2 ?R (pre @ [j]) (stories @ [kinds (pg_hist K d j)])"
      by (simp add: list_all2_appendI)
    with st(1) pre(1,2) show ?thesis
      by (auto simp: check_stories_def Cons main_ok_def intro!: exI [of _ "pre @ [j]"])
  next
    assume "story (pg_store K) j d = Err (DevLoad j (StreamNotFound j))"
    then show ?thesis by (simp add: check_stories_def Cons main_ok_def verdict_ok_def)
  qed
qed

lemma dev_main_inv:
  assumes "dev_inv J P K tracked s" and "exercise J P tracked"
  shows "dev_inv J P K tracked (main_turn K (pg_dispatcher C rt K busy) tracked timed_out s)"
proof (cases "dl_main s")
  case M_Sweep
  obtain m w where m: "main_sweep (pg_dispatcher C rt K busy) (dl_world s) = (m, w)" by (metis surj_pair)
  from stories_sweep [OF _ _ m] assms(1) have "pg_inv K (fst w)" "stories_ok J P (pg_hist K (fst w)) (dl_worker s)"
      "m \<in> {M_Sweep, M_Relay} \<union> {M_Done (Err (DevSweep x)) | x. True}"
    by (auto simp: dev_inv_def)
  then show ?thesis
    by (auto simp: main_turn_def M_Sweep m dev_inv_def main_ok_def verdict_ok_def)
next
  case M_Relay
  obtain r d k where r: "relay_once K printing_sink 64 (\<lambda>_. False) (fst (dl_world s), dl_printed s) = (r, d, k)" by (metis surj_pair)
  have "main_ok J P tracked (pg_hist K d) (fst (main_relay K tracked (fst (dl_world s), dl_printed s)))"
    by (auto simp: main_relay_def r main_ok_def verdict_ok_def split: outcome.split)
  with relay_frame [OF r] assms(1) show ?thesis
    by (auto simp: main_turn_def M_Relay main_relay_def r dev_inv_def split: outcome.splits)
next
  case (M_Poll jobs ok)
  with main_poll_ok [of K "fst (dl_world s)" J P tracked jobs ok timed_out] assms(1) show ?thesis by (simp add: main_turn_def dev_inv_def)
next
  case (M_Check jobs stories)
  with check_stories_ok [OF _ _ assms(2)] assms(1) show ?thesis by (auto simp: main_turn_def dev_inv_def)
qed (use assms in \<open>simp add: main_turn_def\<close>)

lemma dev_step_inv:
  assumes "dev_step J C rt K busy tracked s s'" and "dev_inv J P K tracked s" and "exercise J P tracked"
  shows "dev_inv J P K tracked s'"
  using assms(1)
proof cases
  case (dev_worker wk w)
  from stories_turn [OF _ _ dev_worker(2)] assms(2) have t: "pg_inv K (fst w)" "stories_ok J P (pg_hist K (fst w)) wk"
      "told_more (pg_hist K (fst (dl_world s))) (pg_hist K (fst w))" by (auto simp: dev_inv_def)
  with main_ok_told_more [OF t(3)] assms(2) show ?thesis by (simp add: dev_worker(1) dev_inv_def)
next
  case (dev_lost x)
  with assms(2) stories_ended show ?thesis by (auto simp: dev_inv_def)
next
  case (dev_main timed_out)
  with dev_main_inv [OF assms(2,3)] show ?thesis by simp
qed

section \<open>The start\<close>

lemma enqueue_each_effect:
  assumes "enqueue_each (pg_store K) rt jobs w = (Ok jids, w')" and "pg_inv K (fst w)"
    and "stories_ok J P (pg_hist K (fst w)) W_Idle" and "list_all2 (\<lambda>j job. P j = snd job) jids jobs"
  shows "pg_inv K (fst w') \<and> stories_ok J P (pg_hist K (fst w')) W_Idle"
  using assms
proof (induction jobs arbitrary: w jids)
  case (Cons job jobs)
  obtain r d e where e: "enqueue_execute (pg_store K) rt (dev_command (snd job)) (fst w, snd w) = (r, d, e)" by (metis surj_pair)
  with Cons.prems(1) obtain j js where j: "r = Ok j" "jids = j # js" "enqueue_each (pg_store K) rt jobs (d, e) = (Ok js, w')"
    by (auto simp: outcome_simps split: outcome.splits prod.splits)
  have P: "P j = snd job" "list_all2 (\<lambda>j job. P j = snd job) js jobs" using Cons.prems(4) by (auto simp: j(2))
  note eff = event_store_contract.enqueue_effect [OF postgres.event_store_contract_axioms Cons.prems(2) e [unfolded j(1)]]
  then obtain env where h: "pg_hist K d = (pg_hist K (fst w))(j := [env])" "env_event env = command_event (dev_command (snd job))"
      "from_events [env] = Ok (command_job (dev_command (snd job)) j)" "pg_inv K d" by blast
  have "story_ok J (P j) (kinds [env]) (command_job (dev_command (snd job)) j)"
    unfolding kinds_def
    by (simp add: h(2) command_event_def initial_event_def)
       (rule story_enqueued, simp_all add: command_job_def dev_command_def P(1))
  with Cons.prems(3) h(1,3) have "stories_ok J P (pg_hist K d) W_Idle" by (simp add: stories_ok_def)
  with Cons.IH [OF j(3)] h(4) P(2) show ?case by simp
qed simp

lemma dev_jobs_exercise:
  assumes "json_ok J" and "list_all2 (\<lambda>j job. P j = snd job) tracked (dev_jobs J)"
  shows "exercise J P tracked"
  using assms by (auto simp: exercise_def dev_jobs_def list_all2_Cons2 json_ok_def flag_def plain_def)

lemma enqueue_each_fresh:
  assumes "enqueue_each (pg_store K) rt jobs w = (Ok jids, w')" and "pg_inv K (fst w)"
  shows "length jids = length jobs \<and> distinct jids \<and> (\<forall>j \<in> set jids. pg_hist K (fst w) j = [])"
  using assms
proof (induction jobs arbitrary: w jids)
  case (Cons job jobs)
  obtain r d e where e: "enqueue_execute (pg_store K) rt (dev_command (snd job)) (fst w, snd w) = (r, d, e)" by (metis surj_pair)
  with Cons.prems(1) obtain j js where j: "r = Ok j" "jids = j # js" "enqueue_each (pg_store K) rt jobs (d, e) = (Ok js, w')"
    by (auto simp: outcome_simps split: outcome.splits prod.splits)
  note eff = event_store_contract.enqueue_effect [OF postgres.event_store_contract_axioms Cons.prems(2) e [unfolded j(1)]]
  then obtain env where h: "pg_hist K d = (pg_hist K (fst w))(j := [env])" "pg_inv K d" "pg_hist K (fst w) j = []" by blast
  from Cons.IH [OF j(3)] h(2) have js: "length js = length jobs" "distinct js" "\<forall>k \<in> set js. pg_hist K d k = []" by simp_all
  have "pg_hist K (fst w) k = [] \<and> k \<noteq> j" if "k \<in> set js" for k
    using js(3) that h(1) by (metis fun_upd_apply list.distinct(1))
  with js h(3) show ?case by (auto simp: j(2))
qed simp

lemma dev_init_inv:
  assumes "pg_ok K" and "enqueue_dev_jobs J (pg_store K) rt (pg_empty, e) = (Ok tracked, w)"
    and "list_all2 (\<lambda>j job. P j = snd job) tracked (dev_jobs J)"
  shows "dev_inv J P K tracked (dev_init w)"
proof -
  have "stories_ok J P (pg_hist K pg_empty) W_Idle" by (simp add: stories_ok_def pg_hist_empty from_events_def)
  with enqueue_each_effect [OF assms(2) [unfolded enqueue_dev_jobs_def] _ _ assms(3)] pg_inv_empty [OF assms(1)]
  show ?thesis by (simp add: dev_inv_def dev_init_def main_ok_def)
qed

lemma straight_path:
  "straight ks st \<Longrightarrow> \<exists>n. ks = take n [''enqueued'', ''leased'', ''started'', ''succeeded'']"
  by (cases st)
     (auto simp: straight_def intro: exI [of _ 1] exI [of _ 2] exI [of _ 3] exI [of _ 4])

lemma stories_path:
  assumes "dev_inv J P K tracked s" and "h = pg_hist K (fst (dl_world s))"
  shows "plain J (P j) \<Longrightarrow> ''lease_expired'' \<notin> set (kinds (h j)) \<Longrightarrow>
      \<exists>n. kinds (h j) = take n [''enqueued'', ''leased'', ''started'', ''succeeded'']"
    and "flag J (P j) ''crashy'' \<Longrightarrow> ''started'' \<in> set (kinds (h j)) \<Longrightarrow> ''lease_expired'' \<in> set (kinds (h j))"
    and "flag J (P j) ''flaky'' \<Longrightarrow> ''succeeded'' \<in> set (kinds (h j)) \<Longrightarrow>
      ''lease_expired'' \<in> set (kinds (h j)) \<or> ''failed'' \<in> set (kinds (h j)) \<and> ''retry_scheduled'' \<in> set (kinds (h j))"
proof -
  have inv: "pg_inv K (fst (dl_world s))" and st: "stories_ok J P h (dl_worker s)"
    using assms by (simp_all add: dev_inv_def)
  have st': "\<exists>job. story_ok J (P j) (kinds (h j)) job" if "h j \<noteq> []"
    using pg_hist_folds [OF inv, of j] that st by (auto simp: assms(2) stories_ok_def)
  show "\<exists>n. kinds (h j) = take n [''enqueued'', ''leased'', ''started'', ''succeeded'']"
    if "plain J (P j)" "''lease_expired'' \<notin> set (kinds (h j))"
  proof (cases "h j = []")
    case True
    then show ?thesis by (intro exI [of _ 0]) (simp add: kinds_def)
  next
    case False
    with st' that show ?thesis unfolding story_ok_def by (blast dest: straight_path)
  qed
  show "''lease_expired'' \<in> set (kinds (h j))" if "flag J (P j) ''crashy''" "''started'' \<in> set (kinds (h j))"
  proof -
    have "h j \<noteq> []" using that(2) by (auto simp: kinds_def)
    with st' that show ?thesis unfolding story_ok_def by blast
  qed
  show "''lease_expired'' \<in> set (kinds (h j)) \<or> ''failed'' \<in> set (kinds (h j)) \<and> ''retry_scheduled'' \<in> set (kinds (h j))"
    if "flag J (P j) ''flaky''" "''succeeded'' \<in> set (kinds (h j))"
  proof -
    have "h j \<noteq> []" using that(2) by (auto simp: kinds_def)
    with st' obtain job where "story_ok J (P j) (kinds (h j)) job" by blast
    from story_told [OF this that(2)] that(1) show ?thesis by (auto simp: told_def)
  qed
qed

text \<open>
  C17. The self-test of the server.  However the worker and the main loop are interleaved and
  whatever the clock says: as long as no lease of job 1 expires its story is a beginning of
  enqueued, leased, started, succeeded; job 2 is not started before a lease of it has been recovered
  by the sweep; job 3 does not succeed without having failed and been retried, or a lease of it
  having expired.  When the run reports success, every marker it looks for is recorded; when it
  reports missing markers, never that of job 2, and those of job 1 or job 3 only because a lease
  of that job had expired.
\<close>

theorem dev_loop_verdict:
  assumes "pg_ok K" and "json_ok J" and "enqueue_dev_jobs J (pg_store K) rt (pg_empty, e) = (Ok [job1, job2, job3], w)"
    and "(dev_step J C rt K busy [job1, job2, job3])\<^sup>*\<^sup>* (dev_init w) s"
    and "story_of = (\<lambda>j. kinds (pg_hist K (fst (dl_world s)) j))"
  shows "(''lease_expired'' \<in> set (story_of job1)
        \<or> (\<exists>n. story_of job1 = take n [''enqueued'', ''leased'', ''started'', ''succeeded'']))
    \<and> (''started'' \<in> set (story_of job2) \<longrightarrow> ''lease_expired'' \<in> set (story_of job2))
    \<and> (''succeeded'' \<in> set (story_of job3) \<longrightarrow> ''lease_expired'' \<in> set (story_of job3)
        \<or> ''failed'' \<in> set (story_of job3) \<and> ''retry_scheduled'' \<in> set (story_of job3))
    \<and> (case dl_main s of
        M_Done (Ok _) \<Rightarrow> (\<exists>ys. story_of job1 = [''enqueued'', ''leased'', ''started'', ''succeeded''] @ ys)
          \<and> ''lease_expired'' \<in> set (story_of job2)
          \<and> ''failed'' \<in> set (story_of job3) \<and> ''retry_scheduled'' \<in> set (story_of job3)
      | M_Done (Err (DevMissing missing)) \<Rightarrow> MissingCrashy \<notin> set missing
          \<and> ((\<exists>ks. MissingPlain ks \<in> set missing) \<longrightarrow> ''lease_expired'' \<in> set (story_of job1))
          \<and> (MissingFlaky \<in> set missing \<longrightarrow> ''lease_expired'' \<in> set (story_of job3))
      | _ \<Rightarrow> True)"
proof -
  let ?h = "pg_hist K (fst (dl_world s))"
  define P where "P = (\<lambda>_. undefined)(job1 := empty_object J, job2 := true_object J ''crashy'', job3 := true_object J ''flaky'')"
  have "distinct [job1, job2, job3]"
    using enqueue_each_fresh [OF assms(3) [unfolded enqueue_dev_jobs_def]] pg_inv_empty [OF assms(1)] by simp
  then have P: "list_all2 (\<lambda>j job. P j = snd job) [job1, job2, job3] (dev_jobs J)"
    by (simp add: P_def dev_jobs_def)
  note ex = dev_jobs_exercise [OF assms(2) P]
  from assms(4) have inv: "dev_inv J P K [job1, job2, job3] s"
    by (induction rule: rtranclp_induct) (rule dev_init_inv [OF assms(1,3) P], erule (1) dev_step_inv [OF _ _ ex])
  have "case dl_main s of M_Done r \<Rightarrow> verdict_ok ?h [job1, job2, job3] r | _ \<Rightarrow> True"
    using inv by (simp add: dev_inv_def main_ok_def split: dev_main.splits)
  moreover have "plain J (P job1)" "flag J (P job2) ''crashy''" "flag J (P job3) ''flaky''"
    using ex by (simp_all add: exercise_def)
  moreover note stories_path [OF inv refl]
  ultimately show ?thesis
    unfolding assms(5) by (auto simp: verdict_ok_def split: dev_main.splits outcome.splits DevError.splits)
qed

definition sample_json :: "nat json" where
  "sample_json =
     \<lparr>as_flag = (\<lambda>v name. if v = 2 \<and> name = ''crashy'' \<or> v = 3 \<and> name = ''flaky'' then Some True else None),
      empty_object = 1, true_object = (\<lambda>field. if field = ''crashy'' then 2 else 3), json_string = (\<lambda>_. 4)\<rparr>"

definition at_id :: "u64 \<Rightarrow> test_env" where
  "at_id c = \<lparr>fixed_now = 20, ids_seed = 0, ids_counter = c\<rparr>"

lemma sample_dev_enqueue:
  assumes "pg_inv sample_pg d" and "pg_hist sample_pg d (JobId (ucast c)) = []"
    and "\<forall>r \<in> set (db_events d). er_event_id r \<noteq> EventId (ucast (c + 2))"
  obtains d' r env where "enqueue_execute (pg_store sample_pg) test_runtime (dev_command p) (d, at_id c) =
      (Ok (JobId (ucast c)), d', at_id (c + 3))" "pg_inv sample_pg d'"
    "pg_hist sample_pg d' = (pg_hist sample_pg d)(JobId (ucast c) := [env])"
    "db_events d' = db_events d @ [r]" "er_event_id r = EventId (ucast (c + 2))"
proof -
  let ?env = "\<lparr>env_event_id = EventId (ucast (c + 2)), env_stream_id = JobId (ucast c), env_version = 1, env_recorded_at = 20,
      env_correlation_id = CorrelationId (ucast (c + 1)), env_causation_id = None, env_traceparent = None,
      env_schema_version = SCHEMA_VERSION, env_event = command_event (dev_command p)\<rparr>"
  have f: "from_events [?env] = Ok (command_job (dev_command p) (JobId (ucast c)))"
    by (simp add: from_events_def command_event_def command_job_def initial_event_def)
  have "projectable sample_pg (command_job (dev_command p) (JobId (ucast c)))"
    by (simp add: projectable_def command_job_def dev_command_def dev_queue_def pg_text_def lit_def pg_timestamp_def)
  then have "pg_storable sample_pg d (JobId (ucast c)) [?env]"
    using assms(2,3) f by (simp add: pg_storable_def envelope_storable_def sample_pg_simps SCHEMA_VERSION_def)
  then obtain d' where d': "pg_append sample_pg (JobId (ucast c)) 0 [?env] d = (Ok (), d')"
    using pg_append_accepts [OF assms(1), of 0 "JobId (ucast c)" "[?env]"] f assms(2) by auto
  have "validate_policy (cmd_retry_policy (dev_command p)) = Ok ()"
    by (simp add: validate_policy_def dev_command_def dev_retry_policy_def MAX_SANE_ATTEMPTS_def
          MAX_SANE_DELAY_def from_secs_def from_millis_def)
  with d' have run: "enqueue_execute (pg_store sample_pg) test_runtime (dev_command p) (d, at_id c) = (Ok (JobId (ucast c)), d', at_id (c + 3))"
    by (simp add: enqueue_execute_def pg_store_def command_event_def wrap_events_def dev_command_def lineage_default_def
        test_runtime_def seeded_next_def at_id_def ac_simps)
  note eff = event_store_contract.enqueue_effect [OF postgres.event_store_contract_axioms assms(1) run]
  from d' obtain job where "append_in_tx sample_pg (JobId (ucast c)) 0 [?env] d = Ok (job, d')" by (auto simp: pg_append_eq_Ok)
  then obtain rs where rs: "db_events d' = db_events d @ rs" "list_all2 (stored_row sample_pg (JobId (ucast c))) [?env] rs"
    by (rule append_in_tx_grows [OF assms(1)])
  with that [OF run] eff show thesis by (auto simp: list_all2_Cons1 stored_row_def)
qed

lemma sample_dev_jobs:
  obtains d where "enqueue_dev_jobs sample_json (pg_store sample_pg) test_runtime (pg_empty, at_id 1)
    = (Ok [JobId 1, JobId 4, JobId 7], d, at_id 10)"
proof -
  note inv = pg_inv_empty [OF sample_pg_ok]
  have no_events: "db_events (pg_empty :: (nat JobEvent + nat EventEnvelope) pg_db) = []" by (simp add: pg_empty_def)
  obtain d1 r1 env1 where d1: "enqueue_execute (pg_store sample_pg) test_runtime (dev_command 1) (pg_empty, at_id 1) = (Ok (JobId 1), d1, at_id 4)"
      "pg_inv sample_pg d1" "pg_hist sample_pg d1 = (pg_hist sample_pg pg_empty)(JobId 1 := [env1])" "db_events d1 = [r1]" "er_event_id r1 = EventId 3"
    by (rule sample_dev_enqueue [OF inv, of 1 1]) (simp_all add: pg_hist_empty no_events)
  obtain d2 r2 env2 where d2: "enqueue_execute (pg_store sample_pg) test_runtime (dev_command 2) (d1, at_id 4) = (Ok (JobId 4), d2, at_id 7)"
      "pg_inv sample_pg d2" "pg_hist sample_pg d2 = (pg_hist sample_pg d1)(JobId 4 := [env2])" "db_events d2 = [r1, r2]" "er_event_id r2 = EventId 6"
    by (rule sample_dev_enqueue [OF d1(2), of 4 2]) (simp_all add: d1 pg_hist_empty)
  obtain d3 where "enqueue_execute (pg_store sample_pg) test_runtime (dev_command 3) (d2, at_id 7) = (Ok (JobId 7), d3, at_id 10)"
    by (rule sample_dev_enqueue [OF d2(2), of 7 3]) (simp_all add: d1 d2 pg_hist_empty)
  with d1(1) d2(1) that show thesis
    by (simp add: enqueue_dev_jobs_def dev_jobs_def sample_json_def)
qed

theorem dev_loop_verdict_witness:
  "\<exists>w. enqueue_dev_jobs sample_json (pg_store sample_pg) test_runtime (pg_empty, at_id 1) = (Ok [JobId 1, JobId 4, JobId 7], w)
     \<and> (''lease_expired'' \<in> set (kinds (pg_hist sample_pg (fst w) (JobId 1)))
        \<or> (\<exists>n. kinds (pg_hist sample_pg (fst w) (JobId 1)) = take n [''enqueued'', ''leased'', ''started'', ''succeeded'']))"
proof -
  obtain d where d: "enqueue_dev_jobs sample_json (pg_store sample_pg) test_runtime (pg_empty, at_id 1)
    = (Ok [JobId 1, JobId 4, JobId 7], d, at_id 10)" by (rule sample_dev_jobs)
  have "json_ok sample_json" by (simp add: json_ok_def sample_json_def)
  from dev_loop_verdict [where C = chrono_doc and busy = "\<lambda>_ _ _. False", OF sample_pg_ok this d rtranclp.rtrancl_refl refl] d show ?thesis by (auto simp: dev_init_def)
qed

end
