(* ===== verification/Spec2Isabelle.thy ===== *)
theory Spec2Isabelle
  imports Grpc_Broker Protocol_Refinement Dispatch_Signal Worker_Presence Store_Agreement Dev_Loop
begin

text \<open>
  Koine is an event-sourced job broker written in Rust.  A job is a stream of events; its state is
  the fold of the stream.  Workers claim jobs under time-limited leases, report over gRPC, and a
  sweep takes back the leases that run out.  This development models the crates under
  \<open>src/crates\<close> and the TLA+ design under \<open>src/docs/formal\<close>, and proves what they promise.

  \<^bold>\<open>The parts and how they interact.\<close>  The domain crate has the aggregate: events, states, the
  transition table and the commands.  The application crate has the use cases over the ports
  \<open>EventStore\<close>, \<open>Dispatcher\<close>, \<open>DispatchSignal\<close>, \<open>WorkerPresence\<close>, \<open>EventSink\<close>, clock and ids.  Two
  crates implement the ports, in memory and on Postgres.  The gRPC crate puts the use cases behind
  an authenticated service; the server crate composes the service with a sweep ticker and an outbox
  relay, and has a self-test.

  \<^bold>\<open>Which theory models what.\<close>  Definitions keep the names of the source.

  \<^item> \<open>Koine_Prelude\<close>: \<open>outcome\<close> (\<open>Ok\<close>, \<open>Err\<close>, and \<open>Panic\<close> for what unwinds), strings as lists of code
    points, \<open>Duration\<close> as nanoseconds, dates as nanoseconds since the epoch, the parameter record
    \<open>chrono\<close> of the date library, iterator functions, saturating arithmetic.
  \<^item> \<open>Koine_Ids\<close>, \<open>Koine_Retry\<close>, \<open>Koine_Events\<close>, \<open>Koine_Job\<close>: \<open>koine-domain\<close>.  \<open>from_events\<close> folds a
    stream, \<open>apply_event\<close> is \<open>Job::apply\<close>; \<open>lease\<close>, \<open>start\<close>, \<open>succeed\<close>, \<open>fail\<close>, \<open>expire_lease\<close>,
    \<open>cancel\<close>, \<open>late_ack\<close> are the commands.  Versions are \<open>u64\<close> and attempts \<open>u32\<close> words.
  \<^item> \<open>Koine_Ports\<close>, \<open>Koine_Use_Cases\<close>: \<open>koine-application\<close>.  A port is a record of operations; what it
    promises is a locale: \<open>event_store_contract\<close>, its extension \<open>exact_store\<close> for a store that keeps
    envelopes as they are, and \<open>dispatcher_contract\<close>.  The lemmas on the use cases are proved once,
    in the locales.
  \<^item> \<open>Memory_Store\<close>, \<open>Memory_Dispatcher\<close>: \<open>koine-store-memory\<close>, with the mutex and its poisoning;
    interpretations \<open>memory\<close> and \<open>memory_disp\<close>.  \<open>Test_Support\<close> is the deterministic clock and id
    generator.  \<open>Memory_Broker\<close> interleaves the clients of the memory adapters; \<open>Lease_Properties\<close>
    states the lease protocol on them.
  \<^item> \<open>Postgres_Store\<close>, \<open>Postgres_Properties\<close>, \<open>Postgres_Dispatcher\<close>, \<open>Postgres_Relay\<close>,
    \<open>Postgres_Broker\<close>: \<open>koine-store-postgres\<close>.  A table is a list of rows, a statement a function on the
    tables, a transaction a function to the new tables or an error; interpretations \<open>postgres\<close> and
    \<open>postgres_disp\<close>.  \<open>Store_Agreement\<close> compares the two stores.
  \<^item> \<open>Dispatch_Signal\<close>, \<open>Worker_Presence\<close>: \<open>signal.rs\<close> of both adapters and \<open>presence.rs\<close>.
  \<^item> \<open>Grpc_Service\<close>, \<open>Grpc_Broker\<close>: \<open>koine-grpc\<close>, the credential check, the five handlers and the fetch
    task, over any ports and over the memory adapters.
  \<^item> \<open>Server_Config\<close>, \<open>Koine_Server\<close>: \<open>koine-server\<close>, the configuration, and \<open>run\<close> of \<open>serve.rs\<close> as the
    step relation \<open>serve_step\<close> over the Postgres adapters.  \<open>Dev_Loop\<close> is \<open>dev_loop.rs\<close>, the step relation
    \<open>dev_step\<close> of its two tasks.
  \<^item> \<open>Lease_Protocol\<close>: \<open>lease_protocol.tla\<close> with its actions, fairness and invariants, and the relation
    between a recorded stream and a state of the specification.  \<open>Protocol_Refinement\<close>: every run of
    the server is simulated by the specification.

  \<^bold>\<open>What is shown.\<close>

  \<^item> The aggregate: every command gives events that fold, attempts stay below the cap, terminal states
    absorb, the retry verdict and its delay are in bounds, and the one place that can panic.
  \<^item> The stores: both implement the store contract; an append is all or nothing and guarded by the
    version, also against a race between check and insert; histories are append-only; the two
    stores answer alike; the dispatch table can be rebuilt from the log.
  \<^item> Leasing: which job a claim serves, the heartbeat fence and where a start ack breaks it, the sweep
    returns and leaves no lease past its deadline, retired leases stay dead, claims over
    Postgres with locked rows and with timestamps cut to a microsecond.
  \<^item> Acks: a report is recorded as such or as a late-ack conflict, on every branch, and its commit
    after an interleaving is atomic or a version conflict.
  \<^item> Service and server: nobody without the configured token has an effect; a fetch delivers only what
    was recorded as leased; in every interleaving the database is consistent and what the sink
    printed plus the outbox is the log; an appended pending job wakes the waiting fetch tasks;
    presence rows are truthful; the self-test reports what happened.
  \<^item> The protocol: the TLA+ invariants for all constants, its liveness under weak fairness, and the
    refinement of the server to it.

  \<^bold>\<open>Parameters and hypotheses.\<close>  What the code calls and does not contain is a parameter, with its
  documented behaviour as a named hypothesis: \<open>chrono_ok\<close> for the date library, \<open>pg_ok\<close> for JSON
  encoding and the columns of the database (what is stored decodes to what it was, null values apart;
  timestamps are kept in order and to a microsecond), \<open>notify_ok\<close> for \<open>tokio::sync::Notify\<close>, the
  record \<open>wire\<close> with \<open>wire_ok\<close> for parsing and printing JSON and UUIDs, \<open>json_ok\<close> for reading a flag of a payload.
  Clock, ids and jitter are a \<open>runtime\<close> over an arbitrary state, so no property depends on their
  values unless it says so.  Row locks of other sessions are an arbitrary predicate.  Each
  hypothesis is met by a concrete instance in the witnesses.

  \<^bold>\<open>Bounds and fuel.\<close>  No definition takes fuel.  The sweep loop is a \<open>partial_function\<close> and is proved to
  return, by the number of leased jobs.  A stream is shorter than \<open>2 ^ 63\<close> events in the
  Postgres adapter by the check of the column type, and in the other properties where a word has to hold
  its length; the hypotheses say so.  A fetch task is a list of rounds with an arbitrary
  interference between them.

  \<^bold>\<open>Not modelled.\<close>  Sockets, TLS and HTTP/2 transport, the message codec that is generated from
  \<open>worker.proto\<close>, the connection pool and reconnection, timers and sleeps (a wait ends whenever the
  interleaving says), printing other than that of the sink, and cancellation of a task in the
  middle of a statement: these are the runtime and the libraries, and no code of the repository decides
  anything in them.  The serde representation of events is the parameter of \<open>pg_ok\<close>.  A load and
  the append that follows it in one use case are one step of the server; that this loses nothing is
  shown for the acks by the properties on interleaved commits.  Constructors, re-exports and \<open>Display\<close>
  texts have nothing to prove.  \<open>koine-cli\<close>, \<open>koine-http\<close>, \<open>koine-mcp\<close> and \<open>koine-observability\<close> are
  stubs.
\<close>

end
